(* ===== verification/Prelude.thy ===== *)
theory Prelude
  imports Main "HOL-Library.Word"
begin

text \<open>
  Shared vocabulary of the development: the machine integer types of
  \<^verbatim>\<open>kernel/types.h\<close>, the outcome monad in which kernel routines are written
  (a routine returns, panics, or goes to sleep on a channel), the little-endian
  byte encodings used by the on-disk and in-memory structures, and the generic
  lemmas on byte ranges that the component theories rely on.
\<close>

unbundle bit_operations_syntax

named_theorems kmonad \<open>inversion and evaluation rules of the outcome monad\<close>
named_theorems byte_simps \<open>rules for byte ranges inside a block\<close>

subsection \<open>Machine integers\<close>

type_synonym uint8 = "8 word"
type_synonym uint16 = "16 word"
type_synonym uint32 = "32 word"
type_synonym uint64 = "64 word"

lemma unat_drop_bit: "unat (drop_bit n (w :: 'a::len word)) = unat w div 2 ^ n"
  by (metis drop_bit_eq_div take_bit_nat_eq_self unsigned_drop_bit_eq unsigned_less)

lemma unat_take_bit: "unat (take_bit n (w :: 'a::len word)) = unat w mod 2 ^ n"
  by (metis take_bit_eq_mod unsigned_take_bit_eq)

lemma unat_push_bit: "unat (push_bit n (w :: 'a::len word)) = unat w * 2 ^ n mod 2 ^ LENGTH('a)"
  by (metis push_bit_eq_mult take_bit_eq_mod unsigned_push_bit_eq)

lemma unat_of_nat_less: "n < 2 ^ LENGTH('a) \<Longrightarrow> unat (of_nat n :: 'a::len word) = n"
  by (simp add: unat_of_nat)

lemma sint_small: "n < 2 ^ 31 \<Longrightarrow> sint (word_of_int (int n) :: uint32) = int n"
  by (simp add: signed_of_nat signed_take_bit_int_eq_self)

subsection \<open>Sleep channels\<close>

text \<open>
  The kernel sleeps and wakes on addresses of kernel objects.  Each constructor stands
  for one such address: a process slot, the tick counter, the log, the sleep lock of a
  buffer or of an inode, a buffer handed to the disk, the two counters of a pipe, the
  console input index, the transmit index of the UART and the descriptor map of the
  disk driver.  \<open>ChNull\<close> is the null pointer.
\<close>

datatype chan =
    ChNull
  | ChProc nat
  | ChTicks
  | ChLog
  | ChBufLock nat
  | ChInodeLock nat
  | ChBufDisk nat
  | ChPipeRead nat
  | ChPipeWrite nat
  | ChCons
  | ChUartTx
  | ChDiskFree

subsection \<open>Outcomes of kernel code\<close>

datatype ('a, 's) outcome =
    Ok 'a 's
  | Panic string
  | Blocked chan 's

type_synonym ('s, 'a) kfun = "'s \<Rightarrow> ('a, 's) outcome"

definition kret :: "'a \<Rightarrow> ('s, 'a) kfun" where
  "kret x = (\<lambda>s. Ok x s)"

definition kpanic :: "string \<Rightarrow> ('s, 'a) kfun" where
  "kpanic msg = (\<lambda>s. Panic msg)"

definition kblock :: "chan \<Rightarrow> ('s, 'a) kfun" where
  "kblock c = (\<lambda>s. Blocked c s)"

definition kbind :: "('s, 'a) kfun \<Rightarrow> ('a \<Rightarrow> ('s, 'b) kfun) \<Rightarrow> ('s, 'b) kfun" where
  "kbind m f = (\<lambda>s. case m s of Ok x s' \<Rightarrow> f x s' | Panic msg \<Rightarrow> Panic msg | Blocked c s' \<Rightarrow> Blocked c s')"

definition kthen :: "('s, 'a) kfun \<Rightarrow> ('s, 'b) kfun \<Rightarrow> ('s, 'b) kfun" where
  "kthen m n = kbind m (\<lambda>_. n)"

definition kget :: "('s \<Rightarrow> 'a) \<Rightarrow> ('s, 'a) kfun" where
  "kget f = (\<lambda>s. Ok (f s) s)"

definition kmodify :: "('s \<Rightarrow> 's) \<Rightarrow> ('s, unit) kfun" where
  "kmodify f = (\<lambda>s. Ok () (f s))"

definition kwhen :: "bool \<Rightarrow> ('s, unit) kfun \<Rightarrow> ('s, unit) kfun" where
  "kwhen c m = (if c then m else kret ())"

definition kassert :: "bool \<Rightarrow> string \<Rightarrow> ('s, unit) kfun" where
  "kassert c msg = (if c then kret () else kpanic msg)"

primrec kforeach :: "'b list \<Rightarrow> ('b \<Rightarrow> ('s, unit) kfun) \<Rightarrow> ('s, unit) kfun" where
  "kforeach [] f = kret ()"
| "kforeach (x # xs) f = kbind (f x) (\<lambda>_. kforeach xs f)"

definition returns :: "('a, 's) outcome \<Rightarrow> bool" where
  "returns r = (case r of Ok _ _ \<Rightarrow> True | Panic _ \<Rightarrow> False | Blocked _ _ \<Rightarrow> False)"

lemma kret_apply [simp]: "kret x s = Ok x s"
  by (simp add: kret_def)

lemma kpanic_apply [simp]: "kpanic msg s = Panic msg"
  by (simp add: kpanic_def)

lemma kblock_apply [simp]: "kblock c s = Blocked c s"
  by (simp add: kblock_def)

lemma kget_apply [simp]: "kget f s = Ok (f s) s"
  by (simp add: kget_def)

lemma kmodify_apply [simp]: "kmodify f s = Ok () (f s)"
  by (simp add: kmodify_def)

lemma kbind_apply: "kbind m f s =
    (case m s of Ok x s' \<Rightarrow> f x s' | Panic msg \<Rightarrow> Panic msg | Blocked c s' \<Rightarrow> Blocked c s')"
  by (simp add: kbind_def)

lemma kbind_Ok_left [simp]: "m s = Ok x s' \<Longrightarrow> kbind m f s = f x s'"
  by (simp add: kbind_def)

lemma kbind_Panic_left [simp]: "m s = Panic msg \<Longrightarrow> kbind m f s = Panic msg"
  by (simp add: kbind_def)

lemma kbind_Blocked_left [simp]: "m s = Blocked c s' \<Longrightarrow> kbind m f s = Blocked c s'"
  by (simp add: kbind_def)

lemma kbind_eq_Ok [kmonad]:
  "kbind m f s = Ok y s'' \<longleftrightarrow> (\<exists>x s'. m s = Ok x s' \<and> f x s' = Ok y s'')"
  by (cases "m s") (auto simp: kbind_def)

lemma kbind_assoc: "kbind (kbind m f) g = kbind m (\<lambda>x. kbind (f x) g)"
  by (rule ext) (simp add: kbind_def split: outcome.split)

lemma kbind_kret [simp]: "kbind (kret x) f = f x"
  by (simp add: kbind_def fun_eq_iff)

lemma kthen_apply: "kthen m n = kbind m (\<lambda>_. n)"
  by (simp add: kthen_def)

lemma kwhen_eq_Ok [kmonad]:
  "kwhen c m s = Ok u s' \<longleftrightarrow> (if c then m s = Ok () s' else s' = s)"
  by (auto simp: kwhen_def)

lemma kwhen_simps [simp]: "kwhen True m = m" "kwhen False m = kret ()"
  by (simp_all add: kwhen_def)

lemma kassert_simps [simp]: "kassert True msg = kret ()" "kassert False msg = kpanic msg"
  by (simp_all add: kassert_def)

lemma kassert_eq_Ok [kmonad]: "kassert c msg s = Ok u s' \<longleftrightarrow> c \<and> s' = s"
  by (auto simp: kassert_def)

lemma kforeach_append:
  "kforeach (xs @ ys) f = kbind (kforeach xs f) (\<lambda>_. kforeach ys f)"
  by (induction xs) (simp_all add: kbind_assoc)

lemma returns_simps [simp]:
  "returns (Ok x s)" "\<not> returns (Panic msg)" "\<not> returns (Blocked c s)"
  by (simp_all add: returns_def)

lemma returns_iff: "returns r \<longleftrightarrow> (\<exists>x s. r = Ok x s)"
  by (cases r) (auto simp: returns_def)

text \<open>
  Total correctness of a routine from a given state: it returns, and the result and final
  state satisfy \<open>Q\<close>.
\<close>

definition kspec :: "('s, 'a) kfun \<Rightarrow> 's \<Rightarrow> ('a \<Rightarrow> 's \<Rightarrow> bool) \<Rightarrow> bool" where
  "kspec m s Q \<longleftrightarrow> (\<exists>r s'. m s = Ok r s' \<and> Q r s')"

lemma kspecI: "m s = Ok r s' \<Longrightarrow> Q r s' \<Longrightarrow> kspec m s Q"
  by (auto simp: kspec_def)

lemma kspec_bind:
  "kspec m s P \<Longrightarrow> (\<And>r s'. P r s' \<Longrightarrow> kspec (f r) s' Q) \<Longrightarrow> kspec (kbind m f) s Q"
  unfolding kspec_def kbind_def by fastforce

lemma kspec_mono: "kspec m s P \<Longrightarrow> (\<And>r s'. P r s' \<Longrightarrow> Q r s') \<Longrightarrow> kspec m s Q"
  by (auto simp: kspec_def)

lemma kspec_basic [simp]: "kspec (kret x) s Q \<longleftrightarrow> Q x s" "kspec (Ok x) s Q \<longleftrightarrow> Q x s" "kspec (kget f) s Q \<longleftrightarrow> Q (f s) s"
    "kspec (kmodify g) s P \<longleftrightarrow> P () (g s)" "\<not> kspec (kpanic msg) s Q"
  by (simp_all add: kspec_def)

lemma kspec_kget_bind [simp]: "kspec (kbind (kget f) g) s Q \<longleftrightarrow> kspec (g (f s)) s Q"
  by (simp add: kspec_def kbind_def)

lemma kspec_kmodify_bind [simp]: "kspec (kbind (kmodify f) g) s Q \<longleftrightarrow> kspec (g ()) (f s) Q"
  by (simp add: kspec_def kbind_def)

lemma kspec_foreach:
  assumes "I 0 s" and "\<And>k s. k < length xs \<Longrightarrow> I k s \<Longrightarrow> kspec (f (xs ! k)) s (\<lambda>_ s'. I (Suc k) s')"
  shows "kspec (kforeach xs f) s (\<lambda>_ s'. I (length xs) s')"
  using assms
proof (induction xs arbitrary: s I)
  case Nil
  then show ?case by simp
next
  case (Cons x xs)
  have "kspec (f x) s (\<lambda>_ s'. I (Suc 0) s')" using Cons.prems by force
  moreover have "kspec (kforeach xs f) s' (\<lambda>_ s''. I (Suc (length xs)) s'')" if "I (Suc 0) s'" for s'
    using that Cons.prems(2) by (intro Cons.IH [of "\<lambda>k. I (Suc k)"]) force+
  ultimately show ?case by (auto intro: kspec_bind)
qed

text \<open>An invariant that every iteration of a loop keeps is kept by the loop.\<close>

lemma kforeach_invariant:
  assumes "kforeach xs f s = Ok u s'" and "P s"
    and "\<And>x s u s'. x \<in> set xs \<Longrightarrow> f x s = Ok u s' \<Longrightarrow> P s \<Longrightarrow> P s'"
  shows "P s'"
  using assms
proof (induction xs arbitrary: s)
  case Nil
  then show ?case by simp
next
  case (Cons x xs)
  from Cons.prems(1) obtain s1 where s1: "f x s = Ok () s1" "kforeach xs f s1 = Ok u s'"
    by (auto simp: kbind_eq_Ok)
  from s1(1) Cons.prems(2,3) have "P s1" by auto
  with s1(2) show ?case by (rule Cons.IH) (use Cons.prems(3) in auto)
qed

lemma find_SomeD: "find P xs = Some x \<Longrightarrow> x \<in> set xs \<and> P x"
  by (induction xs) (auto split: if_splits)

subsection \<open>Byte ranges inside a buffer\<close>

definition get_bytes :: "nat \<Rightarrow> nat \<Rightarrow> 'b list \<Rightarrow> 'b list" where
  "get_bytes off n bs = take n (drop off bs)"

definition put_bytes :: "nat \<Rightarrow> 'b list \<Rightarrow> 'b list \<Rightarrow> 'b list" where
  "put_bytes off xs bs = take off bs @ xs @ drop (off + length xs) bs"

lemma length_get_bytes [byte_simps]: "off + n \<le> length bs \<Longrightarrow> length (get_bytes off n bs) = n"
  by (simp add: get_bytes_def)

lemma length_put_bytes [byte_simps]:
  "off + length xs \<le> length bs \<Longrightarrow> length (put_bytes off xs bs) = length bs"
  by (simp add: put_bytes_def)

lemma nth_put_bytes:
  assumes "off + length xs \<le> length bs" and "i < length bs"
  shows "put_bytes off xs bs ! i =
    (if off \<le> i \<and> i < off + length xs then xs ! (i - off) else bs ! i)"
  using assms by (auto simp: put_bytes_def nth_append)

lemma nth_get_bytes: "off + n \<le> length bs \<Longrightarrow> i < n \<Longrightarrow> get_bytes off n bs ! i = bs ! (off + i)"
  by (simp add: get_bytes_def)

lemma get_put_bytes [byte_simps]:
  "off + length xs \<le> length bs \<Longrightarrow> n = length xs \<Longrightarrow> get_bytes off n (put_bytes off xs bs) = xs"
  by (simp add: get_bytes_def put_bytes_def)

lemma get_put_bytes_other [byte_simps]:
  assumes "off + length xs \<le> length bs" and "o2 + n \<le> length bs"
    and "o2 + n \<le> off \<or> off + length xs \<le> o2"
  shows "get_bytes o2 n (put_bytes off xs bs) = get_bytes o2 n bs"
proof (rule nth_equalityI)
  show "length (get_bytes o2 n (put_bytes off xs bs)) = length (get_bytes o2 n bs)"
    using assms by (simp add: byte_simps)
next
  fix i assume "i < length (get_bytes o2 n (put_bytes off xs bs))"
  with assms show "get_bytes o2 n (put_bytes off xs bs) ! i = get_bytes o2 n bs ! i"
    by (auto simp: byte_simps nth_get_bytes nth_put_bytes)
qed

lemma put_get_bytes [byte_simps]:
  "off + n \<le> length bs \<Longrightarrow> put_bytes off (get_bytes off n bs) bs = bs"
  by (simp add: get_bytes_def put_bytes_def)
    (metis add.commute append_take_drop_id drop_drop)

lemma put_put_bytes [byte_simps]:
  "off + length xs \<le> length bs \<Longrightarrow> length ys = length xs \<Longrightarrow>
    put_bytes off ys (put_bytes off xs bs) = put_bytes off ys bs"
  by (simp add: put_bytes_def)

subsection \<open>Little-endian encodings\<close>

fun le_bytes :: "nat \<Rightarrow> 'a::len word \<Rightarrow> uint8 list" where
  "le_bytes 0 w = []"
| "le_bytes (Suc k) w = ucast w # le_bytes k (drop_bit 8 w)"

fun le_word :: "uint8 list \<Rightarrow> 'a::len word" where
  "le_word [] = 0"
| "le_word (b # bs) = ucast b OR push_bit 8 (le_word bs)"

lemma length_le_bytes [simp]: "length (le_bytes k w) = k"
  by (induction k arbitrary: w) simp_all

lemma le_word_le_bytes: "(le_word (le_bytes k w) :: 'a::len word) = take_bit (8 * k) w"
proof (induction k arbitrary: w)
  case 0
  show ?case by simp
next
  case (Suc k)
  show ?case
  proof (rule bit_word_eqI)
    fix n assume "n < LENGTH('a)"
    then show "bit (le_word (le_bytes (Suc k) w) :: 'a word) n \<longleftrightarrow> bit (take_bit (8 * Suc k) w) n"
      by (auto simp: Suc.IH bit_simps)
  qed
qed

lemma le_roundtrip_64 [simp]: "le_word (le_bytes 8 w) = (w :: uint64)"
  by (simp add: le_word_le_bytes take_bit_word_eq_self)

lemma le_roundtrip_32 [simp]: "le_word (le_bytes 4 w) = (w :: uint32)"
  by (simp add: le_word_le_bytes take_bit_word_eq_self)

lemma le_roundtrip_16 [simp]: "le_word (le_bytes 2 w) = (w :: uint16)"
  by (simp add: le_word_le_bytes take_bit_word_eq_self)

lemma le_word_zeroes [simp]: "le_word (replicate k 0) = 0"
  by (induction k) simp_all

subsection \<open>Byte-addressed memory\<close>

type_synonym memory = "nat \<Rightarrow> uint8"

definition load_bytes :: "memory \<Rightarrow> nat \<Rightarrow> nat \<Rightarrow> uint8 list" where
  "load_bytes m a n = map (\<lambda>i. m (a + i)) [0..<n]"

definition store_bytes :: "memory \<Rightarrow> nat \<Rightarrow> uint8 list \<Rightarrow> memory" where
  "store_bytes m a bs = (\<lambda>x. if a \<le> x \<and> x < a + length bs then bs ! (x - a) else m x)"

definition load64 :: "memory \<Rightarrow> nat \<Rightarrow> uint64" where
  "load64 m a = le_word (load_bytes m a 8)"

definition store64 :: "memory \<Rightarrow> nat \<Rightarrow> uint64 \<Rightarrow> memory" where
  "store64 m a w = store_bytes m a (le_bytes 8 w)"

lemma length_load_bytes [simp]: "length (load_bytes m a n) = n"
  by (simp add: load_bytes_def)

lemma load_store_bytes [simp]: "n = length bs \<Longrightarrow> load_bytes (store_bytes m a bs) a n = bs"
  by (rule nth_equalityI) (auto simp: load_bytes_def store_bytes_def)

lemma load_bytes_cong:
  "(\<And>i. i < n \<Longrightarrow> m (a + i) = m' (a + i)) \<Longrightarrow> load_bytes m a n = load_bytes m' a n"
  by (simp add: load_bytes_def)

lemma load_store_bytes_other:
  "a + n \<le> b \<or> b + length bs \<le> a \<Longrightarrow> load_bytes (store_bytes m b bs) a n = load_bytes m a n"
  by (rule load_bytes_cong) (auto simp: store_bytes_def)

lemma load_store64 [simp]: "load64 (store64 m a w) a = w"
  by (simp add: load64_def store64_def)

lemma load_store64_other:
  "a + 8 \<le> b \<or> b + 8 \<le> a \<Longrightarrow> load64 (store64 m b w) a = load64 m a"
  by (simp add: load64_def store64_def load_store_bytes_other)

lemma load64_cong:
  "(\<And>i. i < 8 \<Longrightarrow> m (a + i) = m' (a + i)) \<Longrightarrow> load64 m a = load64 m' a"
  unfolding load64_def by (metis load_bytes_cong)

lemma store64_frame: "x < a \<or> a + 8 \<le> x \<Longrightarrow> store64 m a w x = m x"
  by (auto simp: store64_def store_bytes_def)

end
