(* ===== verification/Riscv.thy ===== *)
theory Riscv
  imports Prelude
begin

text \<open>
  The constants of \<^verbatim>\<open>kernel/param.h\<close> and \<^verbatim>\<open>kernel/memlayout.h\<close> and the Sv39 macros of
  \<^verbatim>\<open>kernel/riscv.h\<close> on 64-bit words, with the arithmetic facts the page-table code
  depends on: rounding, the split of a virtual address into three nine-bit indices,
  and the packing of a physical address and flags into a page-table entry.
\<close>

subsection \<open>Limits\<close>

abbreviation (input) NPROC :: nat where "NPROC \<equiv> 64"
abbreviation (input) NCPU :: nat where "NCPU \<equiv> 8"
abbreviation (input) NOFILE :: nat where "NOFILE \<equiv> 16"
abbreviation (input) NFILE :: nat where "NFILE \<equiv> 100"
abbreviation (input) NINODE :: nat where "NINODE \<equiv> 50"
abbreviation (input) NDEV :: nat where "NDEV \<equiv> 10"
abbreviation (input) ROOTDEV :: uint32 where "ROOTDEV \<equiv> 1"
abbreviation (input) MAXARG :: nat where "MAXARG \<equiv> 32"
abbreviation (input) MAXOPBLOCKS :: nat where "MAXOPBLOCKS \<equiv> 10"
abbreviation (input) LOGSIZE :: nat where "LOGSIZE \<equiv> 30"
abbreviation (input) NBUF :: nat where "NBUF \<equiv> 30"
abbreviation (input) FSSIZE :: nat where "FSSIZE \<equiv> 2000"
abbreviation (input) MAXPATH :: nat where "MAXPATH \<equiv> 128"

subsection \<open>Pages and page-table entries\<close>

abbreviation (input) PGSIZE :: nat where "PGSIZE \<equiv> 4096"

definition PGROUNDUP :: "uint64 \<Rightarrow> uint64" where
  "PGROUNDUP sz = (sz + 4096 - 1) AND NOT (4096 - 1)"

definition PGROUNDDOWN :: "uint64 \<Rightarrow> uint64" where
  "PGROUNDDOWN a = a AND NOT (4096 - 1)"

definition PTE_V :: uint64 where "PTE_V = push_bit 0 1"
definition PTE_R :: uint64 where "PTE_R = push_bit 1 1"
definition PTE_W :: uint64 where "PTE_W = push_bit 2 1"
definition PTE_X :: uint64 where "PTE_X = push_bit 3 1"
definition PTE_U :: uint64 where "PTE_U = push_bit 4 1"

definition PA2PTE :: "uint64 \<Rightarrow> uint64" where
  "PA2PTE pa = push_bit 10 (drop_bit 12 pa)"

definition PTE2PA :: "uint64 \<Rightarrow> uint64" where
  "PTE2PA pte = push_bit 12 (drop_bit 10 pte)"

definition PTE_FLAGS :: "uint64 \<Rightarrow> uint64" where
  "PTE_FLAGS pte = pte AND 0x3FF"

definition PXSHIFT :: "nat \<Rightarrow> nat" where
  "PXSHIFT level = 12 + 9 * level"

definition PX :: "nat \<Rightarrow> uint64 \<Rightarrow> uint64" where
  "PX level va = drop_bit (PXSHIFT level) va AND 0x1FF"

definition MAXVA :: uint64 where
  "MAXVA = push_bit (9 + 9 + 9 + 12 - 1) 1"

subsection \<open>Memory layout\<close>

abbreviation (input) KERNBASE :: nat where "KERNBASE \<equiv> 0x80000000"
abbreviation (input) PHYSTOP :: nat where "PHYSTOP \<equiv> KERNBASE + 128 * 1024 * 1024"

definition TRAMPOLINE :: uint64 where
  "TRAMPOLINE = MAXVA - 4096"

definition TRAPFRAME :: uint64 where
  "TRAPFRAME = TRAMPOLINE - 4096"

definition KSTACK :: "nat \<Rightarrow> uint64" where
  "KSTACK p = TRAMPOLINE - (of_nat p + 1) * 2 * 4096"

lemmas pte_defs = PTE_V_def PTE_R_def PTE_W_def PTE_X_def PTE_U_def

lemma MAXVA_value: "MAXVA = 0x4000000000"
  by (simp add: MAXVA_def push_bit_eq_mult)

lemma TRAMPOLINE_value: "TRAMPOLINE = 0x3FFFFFF000"
  by (simp add: TRAMPOLINE_def MAXVA_value)

lemma TRAPFRAME_value: "TRAPFRAME = 0x3FFFFFE000"
  by (simp add: TRAPFRAME_def TRAMPOLINE_value)

subsection \<open>Rounding\<close>

lemma mask12: "(4096 - 1 :: uint64) = mask 12"
  by (simp add: mask_eq_exp_minus_1)

lemma PGROUNDDOWN_shift: "PGROUNDDOWN a = push_bit 12 (drop_bit 12 a)"
  unfolding PGROUNDDOWN_def mask12
  by (rule bit_word_eqI) (auto simp: bit_simps)

lemma unat_PGROUNDDOWN: "unat (PGROUNDDOWN a) = unat a div 4096 * 4096"
proof -
  have "unat (push_bit 12 (drop_bit 12 a)) = (unat a div 4096 * 4096) mod 2 ^ 64"
    by (simp only: unat_push_bit unat_drop_bit) simp
  also have "\<dots> = unat a div 4096 * 4096"
  proof -
    have "unat a div 4096 * 4096 \<le> unat a" by simp
    moreover have "unat a < 2 ^ 64" using unsigned_less [of a] by simp
    ultimately show ?thesis by (intro mod_less) linarith
  qed
  finally show ?thesis by (simp add: PGROUNDDOWN_shift)
qed

lemma PGROUNDUP_eq: "PGROUNDUP sz = PGROUNDDOWN (sz + 4095)"
  by (simp add: PGROUNDUP_def PGROUNDDOWN_def add.commute)

lemma unat_PGROUNDUP:
  assumes "unat sz + 4095 < 2 ^ 64"
  shows "unat (PGROUNDUP sz) = (unat sz + 4095) div 4096 * 4096"
proof -
  have "unat (sz + 4095) = unat sz + 4095"
    using assms by (simp add: unat_word_ariths)
  then show ?thesis by (simp add: PGROUNDUP_eq unat_PGROUNDDOWN)
qed

subsection \<open>Packing and unpacking page-table entries\<close>

definition page_aligned :: "nat \<Rightarrow> bool" where
  "page_aligned a \<longleftrightarrow> a mod 4096 = 0"

lemma page_aligned_low_bits:
  assumes "unat (pa :: uint64) mod 4096 = 0"
  shows "take_bit 12 pa = 0"
proof -
  have "unat (take_bit 12 pa) = unat pa mod 2 ^ 12"
    by (rule unat_take_bit)
  with assms show ?thesis by (simp add: unat_eq_0)
qed

lemma bit_of_low: "take_bit 12 (pa :: uint64) = 0 \<Longrightarrow> n < 12 \<Longrightarrow> \<not> bit pa n"
  by (metis bit_0_eq bit_take_bit_iff bot_apply bot_bool_def)

lemma bit_of_small:
  assumes "unat (w :: uint64) < 2 ^ k" and "k \<le> n"
  shows "\<not> bit w n"
proof
  assume b: "bit w n"
  have "take_bit k w = w"
    using assms(1) by (metis take_bit_nat_eq_self unsigned_take_bit_eq word_unat_eq_iff)
  with b have "bit (take_bit k w) n" by simp
  with assms(2) show False by (simp add: bit_take_bit_iff)
qed

lemma PTE2PA_PA2PTE:
  assumes "unat pa mod 4096 = 0" and "unat pa < 2 ^ 56" and "unat f < 2 ^ 10"
  shows "PTE2PA (PA2PTE pa OR f) = pa"
proof (rule bit_word_eqI)
  fix n assume "n < LENGTH(64)"
  then show "bit (PTE2PA (PA2PTE pa OR f)) n \<longleftrightarrow> bit pa n"
    using bit_of_low [OF page_aligned_low_bits [OF assms(1)], of n]
      bit_of_small [OF assms(2), of n] bit_of_small [OF assms(3), of "n - 2"]
    by (cases "n < 12") (auto simp: PTE2PA_def PA2PTE_def bit_simps)
qed

lemma PTE_FLAGS_PA2PTE:
  assumes "unat f < 2 ^ 10"
  shows "PTE_FLAGS (PA2PTE pa OR f) = f"
proof (rule bit_word_eqI)
  have m: "(0x3FF :: uint64) = mask 10" by (simp add: mask_eq_exp_minus_1)
  fix n assume "n < LENGTH(64)"
  then show "bit (PTE_FLAGS (PA2PTE pa OR f)) n \<longleftrightarrow> bit f n"
    unfolding PTE_FLAGS_def m
    using bit_of_small [OF assms, of n] by (cases "n < 10") (auto simp: PA2PTE_def bit_simps)
qed

lemma PTE2PA_aligned: "unat (PTE2PA pte) mod 4096 = 0"
proof -
  have "PTE2PA pte = push_bit 12 (drop_bit 10 pte)" by (simp add: PTE2PA_def)
  then have "PGROUNDDOWN (PTE2PA pte) = PTE2PA pte"
    unfolding PGROUNDDOWN_shift
    by (intro bit_word_eqI) (auto simp: bit_simps PTE2PA_def)
  then show ?thesis by (metis mod_mult_self2_is_0 unat_PGROUNDDOWN)
qed

subsection \<open>Virtual address indices\<close>

lemma PX_value: "unat (PX level va) = unat va div 2 ^ (12 + 9 * level) mod 512"
proof -
  have m: "(0x1FF :: uint64) = mask 9" by (simp add: mask_eq_exp_minus_1)
  have "PX level va = take_bit 9 (drop_bit (12 + 9 * level) va)"
    unfolding PX_def PXSHIFT_def m by (simp add: take_bit_eq_mask)
  then have "unat (PX level va) = unat va div 2 ^ (12 + 9 * level) mod 2 ^ 9"
    by (simp only: unat_take_bit unat_drop_bit)
  then show ?thesis by simp
qed

lemma PX_less: "unat (PX level va) < 512"
  by (simp add: PX_value)

lemma PX_decompose:
  assumes "unat va < 2 ^ 39"
  shows "unat va = unat (PX 2 va) * 2 ^ 30 + unat (PX 1 va) * 2 ^ 21
    + unat (PX 0 va) * 2 ^ 12 + unat va mod 4096"
proof -
  define x where "x = unat va"
  have top: "x div 2 ^ 30 mod 512 = x div 2 ^ 30" using assms by (simp add: x_def)
  have d1: "x div 2 ^ 12 div 512 = x div 2 ^ 21" by (simp flip: div_mult2_eq)
  have d2: "x div 2 ^ 21 div 512 = x div 2 ^ 30" by (simp flip: div_mult2_eq)
  have "x = x div 2 ^ 12 * 2 ^ 12 + x mod 2 ^ 12" by simp
  moreover have "x div 2 ^ 12 = x div 2 ^ 21 * 512 + x div 2 ^ 12 mod 512"
    unfolding d1 [symmetric] by simp
  moreover have "x div 2 ^ 21 = x div 2 ^ 30 * 512 + x div 2 ^ 21 mod 512"
    unfolding d2 [symmetric] by simp
  ultimately have "x = ((x div 2 ^ 30 * 512 + x div 2 ^ 21 mod 512) * 512
      + x div 2 ^ 12 mod 512) * 2 ^ 12 + x mod 2 ^ 12"
    by metis
  then show ?thesis
    unfolding x_def [symmetric] PX_value using top by (simp add: algebra_simps)
qed

lemma PX_inject:
  assumes "unat va < 2 ^ 39" "unat va' < 2 ^ 39"
    and "PX 2 va = PX 2 va'" "PX 1 va = PX 1 va'" "PX 0 va = PX 0 va'"
  shows "unat va div 4096 = unat va' div 4096"
proof -
  have split: "a * 2 ^ 30 + b * 2 ^ 21 + c * 2 ^ 12 = (a * 2 ^ 18 + b * 2 ^ 9 + c) * 4096"
    for a b c :: nat by simp
  have "unat va - unat va mod 4096 = unat va' - unat va' mod 4096"
    using PX_decompose [OF assms(1)] PX_decompose [OF assms(2)] assms(3-5) by simp
  then show ?thesis by (simp add: minus_mod_eq_mult_div)
qed

text \<open>Kernel stacks: every stack page has an unmapped guard page below it.\<close>

lemma unat_KSTACK:
  assumes "p < NPROC"
  shows "unat (KSTACK p) = 0x3FFFFFF000 - (p + 1) * 8192"
proof -
  define k :: uint64 where "k = (of_nat p + 1) * 2 * 4096"
  have "k = of_nat ((p + 1) * 8192)" by (simp add: k_def)
  then have k: "unat k = (p + 1) * 8192"
    using assms by (simp add: unat_of_nat_less del: of_nat_mult of_nat_add of_nat_Suc)
  then have "k \<le> 0x3FFFFFF000" using assms by (simp add: word_le_nat_alt)
  then have "unat (0x3FFFFFF000 - k) = unat (0x3FFFFFF000 :: uint64) - unat k" by (rule unat_sub)
  then show ?thesis unfolding KSTACK_def TRAMPOLINE_value k_def [symmetric] k by simp
qed

lemma KSTACK_separated:
  assumes "p < q" "q < NPROC"
  shows "unat (KSTACK q) + 2 * PGSIZE \<le> unat (KSTACK p)"
  using assms by (simp add: unat_KSTACK)

end
