(* ===== verification/Spinlock.thy ===== *)
theory Spinlock
  imports Riscv
begin

text \<open>
  Spin locks, \<^verbatim>\<open>kernel/spinlock.c\<close>: interrupt nesting on one processor, the separate atomic
  actions of \<^verbatim>\<open>acquire\<close> and \<^verbatim>\<open>release\<close>, and a step relation in which any number of
  processors run critical sections under one lock.  The main result is that the
  sections take effect one after the other, which is why the other theories model the
  code between an acquire and the matching release as one step.
\<close>

record cpu =
  intr :: bool
  noff :: int
  intena :: bool

record spinlock =
  locked :: bool
  lkname :: string
  holder :: "nat option"

definition initlock :: "string \<Rightarrow> spinlock \<Rightarrow> spinlock" where
  "initlock name lk = lk\<lparr>lkname := name, locked := False, holder := None\<rparr>"

definition intr_on :: "cpu \<Rightarrow> cpu" where
  "intr_on c = c\<lparr>intr := True\<rparr>"

definition intr_off :: "cpu \<Rightarrow> cpu" where
  "intr_off c = c\<lparr>intr := False\<rparr>"

definition push_off :: "cpu \<Rightarrow> cpu" where
  "push_off c =
     (let old = intr c;
          c1 = intr_off c;
          c2 = (if noff c1 = 0 then c1\<lparr>intena := old\<rparr> else c1)
      in c2\<lparr>noff := noff c2 + 1\<rparr>)"

definition pop_off :: "cpu \<Rightarrow> string + cpu" where
  "pop_off c =
     (if intr c then Inl ''pop_off - interruptible''
      else if noff c < 1 then Inl ''pop_off''
      else let c1 = c\<lparr>noff := noff c - 1\<rparr>
           in Inr (if noff c1 = 0 \<and> intena c1 then intr_on c1 else c1))"

definition holding :: "nat \<Rightarrow> spinlock \<Rightarrow> bool" where
  "holding me lk \<longleftrightarrow> locked lk \<and> holder lk = Some me"

subsection \<open>The atomic actions of acquire and release\<close>

definition acquire_enter :: "nat \<Rightarrow> spinlock \<Rightarrow> cpu \<Rightarrow> string + cpu" where
  "acquire_enter me lk c =
     (let c' = push_off c in if holding me lk then Inl ''acquire'' else Inr c')"

definition acquire_swap :: "spinlock \<Rightarrow> bool \<times> spinlock" where
  "acquire_swap lk = (locked lk, lk\<lparr>locked := True\<rparr>)"

definition acquire_record :: "nat \<Rightarrow> spinlock \<Rightarrow> spinlock" where
  "acquire_record me lk = lk\<lparr>holder := Some me\<rparr>"

definition release_clear :: "nat \<Rightarrow> spinlock \<Rightarrow> string + spinlock" where
  "release_clear me lk =
     (if \<not> holding me lk then Inl ''release'' else Inr (lk\<lparr>holder := None\<rparr>))"

definition release_unlock :: "spinlock \<Rightarrow> spinlock" where
  "release_unlock lk = lk\<lparr>locked := False\<rparr>"

subsection \<open>Interrupt nesting\<close>

definition nested_ok :: "cpu \<Rightarrow> bool" where
  "nested_ok c \<longleftrightarrow> 0 \<le> noff c \<and> (0 < noff c \<longrightarrow> \<not> intr c)"

fun pop_offs :: "nat \<Rightarrow> cpu \<Rightarrow> string + cpu" where
  "pop_offs 0 c = Inr c"
| "pop_offs (Suc n) c = (case pop_off c of Inl e \<Rightarrow> Inl e | Inr c' \<Rightarrow> pop_offs n c')"

lemma push_off_simps [simp]:
  "noff (push_off c) = noff c + 1" "intr (push_off c) = False"
  "intena (push_off c) = (if noff c = 0 then intr c else intena c)"
  by (simp_all add: push_off_def intr_off_def Let_def)

lemma push_offs_state:
  "nested_ok c \<Longrightarrow> 0 < n \<Longrightarrow> noff ((push_off ^^ n) c) = noff c + int n \<and>
    \<not> intr ((push_off ^^ n) c) \<and>
    intena ((push_off ^^ n) c) = (if noff c = 0 then intr c else intena c)"
proof (induction n)
  case 0
  then show ?case by simp
next
  case (Suc n)
  show ?case
  proof (cases "n = 0")
    case True
    then show ?thesis by simp
  next
    case False
    with Suc.IH Suc.prems have "noff ((push_off ^^ n) c) = noff c + int n"
      "intena ((push_off ^^ n) c) = (if noff c = 0 then intr c else intena c)" by simp_all
    moreover have "noff c + int n \<noteq> 0" using Suc.prems False by (simp add: nested_ok_def)
    ultimately show ?thesis by simp
  qed
qed

lemma pop_offs_state:
  "\<not> intr c \<Longrightarrow> int n \<le> noff c \<Longrightarrow> 0 < n \<Longrightarrow>
    pop_offs n c = Inr (c\<lparr>noff := noff c - int n, intr := (noff c = int n \<and> intena c)\<rparr>)"
proof (induction n arbitrary: c)
  case 0
  then show ?case by simp
next
  case (Suc n)
  show ?case
  proof (cases "n = 0")
    case True
    with Suc.prems show ?thesis by (cases c) (auto simp: pop_off_def intr_on_def Let_def)
  next
    case False
    with Suc.prems have "pop_off c = Inr (c\<lparr>noff := noff c - 1\<rparr>)"
      by (auto simp: pop_off_def Let_def)
    moreover have "pop_offs n (c\<lparr>noff := noff c - 1\<rparr>)
        = Inr (c\<lparr>noff := noff c - 1 - int n, intr := (noff c - 1 = int n \<and> intena c)\<rparr>)"
      using Suc.IH [of "c\<lparr>noff := noff c - 1\<rparr>"] Suc.prems False by simp
    ultimately show ?thesis by (auto simp: algebra_simps)
  qed
qed

text \<open>
  C20: pushes and pops match: after \<open>n\<close> calls of \<^verbatim>\<open>push_off\<close>, \<open>n\<close> calls of \<^verbatim>\<open>pop_off\<close> succeed,
  restore the nesting depth, and leave interrupts enabled exactly if they were enabled
  before the first push.
\<close>

theorem push_pop_balanced:
  assumes "nested_ok c"
  shows "\<exists>c'. pop_offs n ((push_off ^^ n) c) = Inr c' \<and> noff c' = noff c \<and> intr c' = intr c"
proof (cases "n = 0")
  case False
  with push_offs_state [OF assms, of n] have s: "noff ((push_off ^^ n) c) = noff c + int n"
    "\<not> intr ((push_off ^^ n) c)"
    "intena ((push_off ^^ n) c) = (if noff c = 0 then intr c else intena c)" by simp_all
  with False assms have "pop_offs n ((push_off ^^ n) c) =
      Inr (((push_off ^^ n) c)\<lparr>noff := noff c, intr := (noff c = 0 \<and> intr c)\<rparr>)"
    by (subst pop_offs_state) (auto simp: nested_ok_def)
  with assms show ?thesis by (auto simp: nested_ok_def)
qed simp

theorem push_pop_balanced_witness:
  "nested_ok \<lparr>intr = True, noff = 0, intena = False\<rparr> \<and>
   (\<exists>c'. pop_offs 3 ((push_off ^^ 3) \<lparr>intr = True, noff = 0, intena = False\<rparr>) = Inr c' \<and>
     noff c' = 0 \<and> intr c')"
  using push_pop_balanced [of "\<lparr>intr = True, noff = 0, intena = False\<rparr>" 3]
  by (simp add: nested_ok_def)

subsection \<open>Processors running critical sections\<close>

text \<open>
  A processor is outside, spinning in \<^verbatim>\<open>acquire\<close>, past the successful swap, inside its
  critical section with some actions done and some to do, past the clearing of
  \<^verbatim>\<open>lk->cpu\<close> in \<^verbatim>\<open>release\<close>, or past the unlocking store and before \<^verbatim>\<open>pop_off\<close>.  A section
  is a list of actions on the protected data.
\<close>

datatype 'd pc =
    Outside
  | Spinning "('d \<Rightarrow> 'd) list"
  | Taken "('d \<Rightarrow> 'd) list"
  | Inside "('d \<Rightarrow> 'd) list" "('d \<Rightarrow> 'd) list"
  | Cleared
  | Unlocked

record 'd lsys =
  lk :: spinlock
  cpus :: "nat \<Rightarrow> cpu"
  pcs :: "nat \<Rightarrow> 'd pc"
  shared :: 'd
  completed :: "('d \<Rightarrow> 'd) list list"
  panicked :: bool

definition boot_cpu :: cpu where
  "boot_cpu = \<lparr>intr = False, noff = 0, intena = False\<rparr>"

definition lsys_init :: "'d \<Rightarrow> 'd lsys" where
  "lsys_init d = \<lparr>lk = \<lparr>locked = False, lkname = [], holder = None\<rparr>, cpus = (\<lambda>_. boot_cpu),
     pcs = (\<lambda>_. Outside), shared = d, completed = [], panicked = False\<rparr>"

inductive lock_step :: "'d lsys \<Rightarrow> 'd lsys \<Rightarrow> bool" where
  toggle: "pcs s i = Outside \<Longrightarrow> noff (cpus s i) = 0 \<Longrightarrow>
     lock_step s (s\<lparr>cpus := (cpus s)(i := (cpus s i)\<lparr>intr := b\<rparr>)\<rparr>)"
| enter: "pcs s i = Outside \<Longrightarrow> acquire_enter i (lk s) (cpus s i) = Inr c \<Longrightarrow>
     lock_step s (s\<lparr>cpus := (cpus s)(i := c), pcs := (pcs s)(i := Spinning body)\<rparr>)"
| enter_panic: "pcs s i = Outside \<Longrightarrow> acquire_enter i (lk s) (cpus s i) = Inl e \<Longrightarrow>
     lock_step s (s\<lparr>panicked := True\<rparr>)"
| spin: "pcs s i = Spinning body \<Longrightarrow> acquire_swap (lk s) = (True, l) \<Longrightarrow>
     lock_step s (s\<lparr>lk := l\<rparr>)"
| swap: "pcs s i = Spinning body \<Longrightarrow> acquire_swap (lk s) = (False, l) \<Longrightarrow>
     lock_step s (s\<lparr>lk := l, pcs := (pcs s)(i := Taken body)\<rparr>)"
| record_holder: "pcs s i = Taken body \<Longrightarrow>
     lock_step s (s\<lparr>lk := acquire_record i (lk s), pcs := (pcs s)(i := Inside [] body)\<rparr>)"
| act: "pcs s i = Inside ds (a # as) \<Longrightarrow>
     lock_step s (s\<lparr>shared := a (shared s), pcs := (pcs s)(i := Inside (ds @ [a]) as)\<rparr>)"
| clear: "pcs s i = Inside ds [] \<Longrightarrow> release_clear i (lk s) = Inr l \<Longrightarrow>
     lock_step s (s\<lparr>lk := l, pcs := (pcs s)(i := Cleared), completed := completed s @ [ds]\<rparr>)"
| clear_panic: "pcs s i = Inside ds [] \<Longrightarrow> release_clear i (lk s) = Inl e \<Longrightarrow>
     lock_step s (s\<lparr>panicked := True\<rparr>)"
| unlock: "pcs s i = Cleared \<Longrightarrow>
     lock_step s (s\<lparr>lk := release_unlock (lk s), pcs := (pcs s)(i := Unlocked)\<rparr>)"
| pop: "pcs s i = Unlocked \<Longrightarrow> pop_off (cpus s i) = Inr c \<Longrightarrow>
     lock_step s (s\<lparr>cpus := (cpus s)(i := c), pcs := (pcs s)(i := Outside)\<rparr>)"
| pop_panic: "pcs s i = Unlocked \<Longrightarrow> pop_off (cpus s i) = Inl e \<Longrightarrow>
     lock_step s (s\<lparr>panicked := True\<rparr>)"

inductive lock_reachable :: "'d \<Rightarrow> 'd lsys \<Rightarrow> bool" for d :: 'd where
  init: "lock_reachable d (lsys_init d)"
| step: "lock_reachable d s \<Longrightarrow> lock_step s t \<Longrightarrow> lock_reachable d t"

fun owns :: "'d pc \<Rightarrow> bool" where
  "owns (Taken _) = True"
| "owns (Inside _ _) = True"
| "owns Cleared = True"
| "owns _ = False"

fun running :: "'d pc \<Rightarrow> ('d \<Rightarrow> 'd) list" where
  "running (Inside ds _) = ds"
| "running _ = []"

fun cpu_ok :: "'d pc \<Rightarrow> cpu \<Rightarrow> bool" where
  "cpu_ok Outside c = (noff c = 0)"
| "cpu_ok _ c = (noff c = 1 \<and> \<not> intr c)"

definition run_section :: "('d \<Rightarrow> 'd) list \<Rightarrow> 'd \<Rightarrow> 'd" where
  "run_section as d = fold (\<lambda>a d. a d) as d"

definition lock_inv_at :: "'d \<Rightarrow> 'd lsys \<Rightarrow> nat option \<Rightarrow> bool" where
  "lock_inv_at d s w \<longleftrightarrow>
     (\<forall>i. owns (pcs s i) \<longleftrightarrow> w = Some i) \<and>
     (locked (lk s) \<longleftrightarrow> w \<noteq> None) \<and>
     (\<forall>i. holder (lk s) = Some i \<longleftrightarrow> (\<exists>ds as. pcs s i = Inside ds as)) \<and>
     (\<forall>i. cpu_ok (pcs s i) (cpus s i)) \<and>
     \<not> panicked s \<and>
     shared s = (case w of None \<Rightarrow> fold run_section (completed s) d
       | Some i \<Rightarrow> run_section (running (pcs s i)) (fold run_section (completed s) d))"

lemma lock_inv_init: "lock_inv_at d (lsys_init d) None"
  by (simp add: lock_inv_at_def lsys_init_def boot_cpu_def)

lemmas lock_actions = acquire_enter_def acquire_swap_def acquire_record_def release_clear_def
  release_unlock_def holding_def

lemma run_section_Nil [simp]: "run_section [] d = d"
  by (simp add: run_section_def)

lemma run_section_snoc [simp]: "run_section (as @ [a]) d = a (run_section as d)"
  by (simp add: run_section_def)

lemma lock_inv_cpu: "lock_inv_at d s w \<Longrightarrow> pcs s i = pc \<Longrightarrow> cpu_ok pc (cpus s i)"
  by (auto simp: lock_inv_at_def)

lemma lock_inv_owner: "lock_inv_at d s w \<Longrightarrow> owns (pcs s i) \<longleftrightarrow> w = Some i"
  by (simp add: lock_inv_at_def)

lemma lock_inv_step: "lock_step s t \<Longrightarrow> lock_inv_at d s w \<Longrightarrow> \<exists>w'. lock_inv_at d t w'"
proof (induction rule: lock_step.induct)
  case (toggle s i b)
  then show ?case by (intro exI [of _ w]) (auto simp: lock_inv_at_def)
next
  case (enter s i c body)
  from enter.prems enter.hyps(1) have "noff (cpus s i) = 0" "w \<noteq> Some i"
    unfolding lock_inv_at_def by (metis cpu_ok.simps(1), metis owns.simps(4))
  with enter show ?case
    by (intro exI [of _ w])
      (auto simp: lock_inv_at_def lock_actions Let_def split: if_splits option.splits)
next
  case (enter_panic s i e)
  then have "holder (lk s) = Some i" by (auto simp: lock_actions Let_def split: if_splits)
  with enter_panic have "\<exists>ds as. pcs s i = Inside ds as" unfolding lock_inv_at_def by blast
  with enter_panic.hyps(1) show ?case by simp
next
  case (spin s i body l)
  then show ?case by (intro exI [of _ w]) (auto simp: lock_inv_at_def lock_actions)
next
  case (swap s i body l)
  from swap lock_inv_cpu [OF swap.prems swap.hyps(1)] show ?case
    by (intro exI [of _ "Some i"]) (auto simp: lock_inv_at_def lock_actions)
next
  case (record_holder s i body)
  then have w: "w = Some i" unfolding lock_inv_at_def by (metis owns.simps(1))
  have "\<not> (\<exists>ds as. pcs s j = Inside ds as)" if "j \<noteq> i" for j
    using that lock_inv_owner [OF record_holder.prems, of j] w by auto
  with w record_holder lock_inv_cpu [OF record_holder.prems record_holder.hyps(1)] show ?case
    by (intro exI [of _ w]) (auto simp: lock_inv_at_def lock_actions)
next
  case (act s i ds a as)
  then have "w = Some i" unfolding lock_inv_at_def by (metis owns.simps(2))
  with act lock_inv_cpu [OF act.prems act.hyps(1)] show ?case by (intro exI [of _ w]) (auto simp: lock_inv_at_def)
next
  case (clear s i ds l)
  then have w: "w = Some i" unfolding lock_inv_at_def by (metis owns.simps(2))
  have "\<not> (\<exists>ds as. pcs s j = Inside ds as)" if "j \<noteq> i" for j
    using that lock_inv_owner [OF clear.prems, of j] w by auto
  with w clear lock_inv_cpu [OF clear.prems clear.hyps(1)] show ?case
    by (intro exI [of _ w]) (auto simp: lock_inv_at_def lock_actions split: if_splits)
next
  case (clear_panic s i ds e)
  then have "locked (lk s)" "holder (lk s) = Some i"
    unfolding lock_inv_at_def by (metis option.discI owns.simps(2), blast)
  with clear_panic.hyps(2) show ?case by (simp add: lock_actions)
next
  case (unlock s i)
  from lock_inv_owner [OF unlock.prems, of i] unlock.hyps(1) have w: "w = Some i" by simp
  have "\<not> (\<exists>ds as. pcs s j = Inside ds as)" for j
    using lock_inv_owner [OF unlock.prems, of j] w unlock.hyps(1) by (cases "j = i") auto
  with w unlock lock_inv_cpu [OF unlock.prems unlock.hyps(1)] show ?case
    by (intro exI [of _ None]) (auto simp: lock_inv_at_def lock_actions)
next
  case (pop s i c)
  then have "noff (cpus s i) = 1" "w \<noteq> Some i"
    unfolding lock_inv_at_def by (metis cpu_ok.simps(6), metis owns.simps(6))
  with pop show ?case
    by (intro exI [of _ w])
      (auto simp: lock_inv_at_def pop_off_def Let_def intr_on_def split: if_splits option.splits)
next
  case (pop_panic s i e)
  then have "noff (cpus s i) = 1 \<and> \<not> intr (cpus s i)"
    unfolding lock_inv_at_def by (metis cpu_ok.simps(6))
  with pop_panic.hyps(2) show ?case by (simp add: pop_off_def Let_def split: if_splits)
qed

lemma lock_reachable_inv: "lock_reachable d s \<Longrightarrow> \<exists>w. lock_inv_at d s w"
  by (induction rule: lock_reachable.induct) (blast intro: lock_inv_init dest: lock_inv_step)+

text \<open>
  C2: in every reachable state of the processors at most one is between its successful
  swap and the unlocking store; a processor inside its section holds the lock with
  interrupts off; and none of the panics of \<^verbatim>\<open>acquire\<close>, \<^verbatim>\<open>release\<close> and \<^verbatim>\<open>pop_off\<close> occurs.
\<close>

theorem critical_sections_exclusive:
  assumes "lock_reachable d s"
  shows "(\<forall>i j. owns (pcs s i) \<and> owns (pcs s j) \<longrightarrow> i = j) \<and>
    (\<forall>i ds as. pcs s i = Inside ds as \<longrightarrow> holding i (lk s) \<and> \<not> intr (cpus s i)) \<and> \<not> panicked s"
proof -
  obtain w where w: "lock_inv_at d s w" using lock_reachable_inv [OF assms] by blast
  have "i = j" if "owns (pcs s i)" "owns (pcs s j)" for i j
    using that lock_inv_owner [OF w] by simp
  moreover have "holding i (lk s) \<and> \<not> intr (cpus s i)" if "pcs s i = Inside ds as" for i ds as
    using that w lock_inv_owner [OF w, of i] lock_inv_cpu [OF w that]
    by (auto simp: lock_inv_at_def holding_def)
  moreover have "\<not> panicked s" using w by (simp add: lock_inv_at_def)
  ultimately show ?thesis by blast
qed

text \<open>
  C3: whenever the lock is free, the protected data is what running the completed
  critical sections one after the other, each without interruption, produces.
\<close>

theorem critical_sections_serialise:
  assumes "lock_reachable d s" "\<not> locked (lk s)"
  shows "shared s = fold run_section (completed s) d"
proof -
  obtain w where "lock_inv_at d s w" using lock_reachable_inv [OF assms(1)] by blast
  with assms(2) show ?thesis by (auto simp: lock_inv_at_def)
qed

lemma example_inside:
  "lock_reachable d ((lsys_init d)\<lparr>lk := \<lparr>locked = True, lkname = [], holder = Some i\<rparr>,
     cpus := (\<lambda>_. boot_cpu)(i := push_off boot_cpu), pcs := (\<lambda>_. Outside)(i := Inside [] as)\<rparr>)"
proof -
  let ?s0 = "lsys_init d"
  let ?s1 = "?s0\<lparr>cpus := (\<lambda>_. boot_cpu)(i := push_off boot_cpu), pcs := (\<lambda>_. Outside)(i := Spinning as)\<rparr>"
  let ?s2 = "?s1\<lparr>lk := \<lparr>locked = True, lkname = [], holder = None\<rparr>, pcs := (\<lambda>_. Outside)(i := Taken as)\<rparr>"
  have "lock_step ?s0 ?s1"
    using lock_step.enter [of ?s0 i "push_off boot_cpu" as]
    by (simp add: lsys_init_def lock_actions)
  then have "lock_reachable d ?s1" by (rule lock_reachable.step [OF lock_reachable.init])
  moreover have "lock_step ?s1 ?s2"
    using lock_step.swap [of ?s1 i as "\<lparr>locked = True, lkname = [], holder = None\<rparr>"]
    by (simp add: lsys_init_def lock_actions)
  ultimately have "lock_reachable d ?s2" by (rule lock_reachable.step)
  moreover have "lock_step ?s2 (?s2\<lparr>lk := \<lparr>locked = True, lkname = [], holder = Some i\<rparr>,
      pcs := (\<lambda>_. Outside)(i := Inside [] as)\<rparr>)"
    using lock_step.record_holder [of ?s2 i as] by (simp add: lsys_init_def lock_actions)
  ultimately have "lock_reachable d (?s2\<lparr>lk := \<lparr>locked = True, lkname = [], holder = Some i\<rparr>,
      pcs := (\<lambda>_. Outside)(i := Inside [] as)\<rparr>)" by (rule lock_reachable.step)
  then show ?thesis by (simp add: lsys_init_def)
qed

lemma example_inside_ex: "\<exists>s. lock_reachable d s \<and> pcs s i = Inside [] as"
  by (rule exI, rule conjI, rule example_inside [of d i as]) simp

lemma example_released:
  "\<exists>s. lock_reachable d s \<and> \<not> locked (lk s) \<and> completed s = [[a]]"
proof -
  let ?s = "(lsys_init d)\<lparr>lk := \<lparr>locked = True, lkname = [], holder = Some 0\<rparr>,
     cpus := (\<lambda>_. boot_cpu)(0 := push_off boot_cpu), pcs := (\<lambda>_. Outside)(0 := Inside [] [a])\<rparr>"
  let ?t = "?s\<lparr>shared := a d, pcs := (\<lambda>_. Outside)(0 := Inside [a] [])\<rparr>"
  let ?u = "?t\<lparr>lk := \<lparr>locked = True, lkname = [], holder = None\<rparr>, pcs := (\<lambda>_. Outside)(0 := Cleared),
     completed := [[a]]\<rparr>"
  have "lock_step ?s ?t" using lock_step.act [of ?s 0 "[]" a "[]"] by (simp add: lsys_init_def)
  with example_inside have "lock_reachable d ?t" by (rule lock_reachable.step)
  moreover have "lock_step ?t ?u"
    using lock_step.clear [of ?t 0 "[a]" "\<lparr>locked = True, lkname = [], holder = None\<rparr>"]
    by (simp add: lsys_init_def lock_actions)
  ultimately have "lock_reachable d ?u" by (rule lock_reachable.step)
  moreover let ?v = "?u\<lparr>lk := release_unlock (lk ?u), pcs := (pcs ?u)(0 := Unlocked)\<rparr>"
  have "lock_step ?u ?v" by (rule lock_step.unlock) simp
  ultimately have "lock_reachable d ?v" by (rule lock_reachable.step)
  moreover have "\<not> locked (lk ?v) \<and> completed ?v = [[a]]" by (simp add: release_unlock_def)
  ultimately show ?thesis by blast
qed

theorem critical_sections_exclusive_witness:
  "\<exists>s. lock_reachable (0 :: nat) s \<and> owns (pcs s 3) \<and> holding 3 (lk s) \<and> \<not> intr (cpus s 3) \<and> \<not> panicked s"
proof -
  obtain s where s: "lock_reachable (0 :: nat) s" "pcs s 3 = Inside [] [Suc]"
    using example_inside_ex [of "0 :: nat" 3 "[Suc]"] by blast
  note x = critical_sections_exclusive [OF s(1)]
  have "holding 3 (lk s) \<and> \<not> intr (cpus s 3)"
    by (rule x [THEN conjunct2, THEN conjunct1, rule_format, OF s(2)])
  moreover have "\<not> panicked s" by (rule x [THEN conjunct2, THEN conjunct2])
  moreover note s
  ultimately show ?thesis by (intro exI [of _ s]) simp
qed

theorem critical_sections_serialise_witness:
  "\<exists>s. lock_reachable (5 :: nat) s \<and> completed s = [[Suc]] \<and> shared s = 6"
proof -
  obtain s where s: "lock_reachable (5 :: nat) s" "\<not> locked (lk s)" "completed s = [[Suc]]"
    using example_released [of "5 :: nat" Suc] by blast
  with critical_sections_serialise [OF s(1,2)] show ?thesis
    by (intro exI [of _ s]) (simp add: run_section_def)
qed

end
