(* ===== verification/Kstring.thy ===== *)
theory Kstring
  imports Prelude
begin

text \<open>
  The routines of \<^verbatim>\<open>kernel/string.c\<close> on byte-addressed memory.  Each loop of the source is
  a recursion over the remaining count, with the pointers advanced as the C code
  advances them; the lemmas relate the loops to one-shot updates of a byte range.
\<close>

subsection \<open>The routines\<close>

definition memset :: "memory \<Rightarrow> nat \<Rightarrow> uint32 \<Rightarrow> nat \<Rightarrow> memory" where
  "memset m dst c n = fold (\<lambda>i m. m(dst + i := ucast c)) [0..<n] m"

fun memcmp :: "memory \<Rightarrow> nat \<Rightarrow> nat \<Rightarrow> nat \<Rightarrow> int" where
  "memcmp m s1 s2 0 = 0"
| "memcmp m s1 s2 (Suc n) =
     (if m s1 \<noteq> m s2 then uint (m s1) - uint (m s2) else memcmp m (s1 + 1) (s2 + 1) n)"

fun memmove_up :: "memory \<Rightarrow> nat \<Rightarrow> nat \<Rightarrow> nat \<Rightarrow> memory" where
  "memmove_up m d s 0 = m"
| "memmove_up m d s (Suc n) = memmove_up (m(d := m s)) (d + 1) (s + 1) n"

fun memmove_down :: "memory \<Rightarrow> nat \<Rightarrow> nat \<Rightarrow> nat \<Rightarrow> memory" where
  "memmove_down m d s 0 = m"
| "memmove_down m d s (Suc n) = memmove_down (m(d - 1 := m (s - 1))) (d - 1) (s - 1) n"

definition memmove :: "memory \<Rightarrow> nat \<Rightarrow> nat \<Rightarrow> nat \<Rightarrow> memory" where
  "memmove m dst src n =
     (if n = 0 then m
      else if src < dst \<and> src + n > dst then memmove_down m (dst + n) (src + n) n
      else memmove_up m dst src n)"

definition memcpy :: "memory \<Rightarrow> nat \<Rightarrow> nat \<Rightarrow> nat \<Rightarrow> memory" where
  "memcpy m dst src n = memmove m dst src n"

fun strncmp :: "memory \<Rightarrow> nat \<Rightarrow> nat \<Rightarrow> nat \<Rightarrow> int" where
  "strncmp m p q 0 = 0"
| "strncmp m p q (Suc n) =
     (if m p \<noteq> 0 \<and> m p = m q then strncmp m (p + 1) (q + 1) n
      else uint (m p) - uint (m q))"

text \<open>Two kernel strings placed in memory, for the string routines that compare or copy them.\<close>

definition two_strings :: "uint8 list \<Rightarrow> uint8 list \<Rightarrow> memory" where
  "two_strings s t = store_bytes (store_bytes (\<lambda>_. 0) 0 s) 4096 t"

fun strncpy_pad :: "memory \<Rightarrow> nat \<Rightarrow> nat \<Rightarrow> memory" where
  "strncpy_pad m s 0 = m"
| "strncpy_pad m s (Suc n) = strncpy_pad (m(s := 0)) (s + 1) n"

fun strncpy_copy :: "memory \<Rightarrow> nat \<Rightarrow> nat \<Rightarrow> nat \<Rightarrow> memory" where
  "strncpy_copy m s t 0 = m"
| "strncpy_copy m s t (Suc n) =
     (if m t \<noteq> 0 then strncpy_copy (m(s := m t)) (s + 1) (t + 1) n
      else strncpy_pad (m(s := m t)) (s + 1) n)"

definition strncpy :: "memory \<Rightarrow> nat \<Rightarrow> nat \<Rightarrow> int \<Rightarrow> memory" where
  "strncpy m s t n = strncpy_copy m s t (nat n)"

fun safestrcpy_copy :: "memory \<Rightarrow> nat \<Rightarrow> nat \<Rightarrow> nat \<Rightarrow> memory" where
  "safestrcpy_copy m s t 0 = m(s := 0)"
| "safestrcpy_copy m s t (Suc n) =
     (if m t \<noteq> 0 then safestrcpy_copy (m(s := m t)) (s + 1) (t + 1) n
      else (m(s := m t))(s + 1 := 0))"

definition safestrcpy :: "memory \<Rightarrow> nat \<Rightarrow> nat \<Rightarrow> int \<Rightarrow> memory" where
  "safestrcpy m s t n = (if n \<le> 0 then m else safestrcpy_copy m s t (nat (n - 1)))"

partial_function (option) strlen_from :: "memory \<Rightarrow> nat \<Rightarrow> nat \<Rightarrow> nat option" where
  "strlen_from m s n = (if m (s + n) = 0 then Some n else strlen_from m s (n + 1))"

definition strlen :: "memory \<Rightarrow> nat \<Rightarrow> nat option" where
  "strlen m s = strlen_from m s 0"

subsection \<open>Block updates\<close>

lemma store_bytes_Cons: "store_bytes m a (b # bs) = store_bytes (m(a := b)) (a + 1) bs"
proof (rule ext)
  fix x
  show "store_bytes m a (b # bs) x = store_bytes (m(a := b)) (a + 1) bs x"
    by (cases "x = a") (auto simp: store_bytes_def nth_Cons')
qed

lemma store_bytes_Nil [simp]: "store_bytes m a [] = m"
  by (rule ext) (auto simp: store_bytes_def)

lemma store_bytes_append:
  "store_bytes m a (xs @ ys) = store_bytes (store_bytes m a xs) (a + length xs) ys"
  by (auto simp: store_bytes_def nth_append fun_eq_iff)

lemma store_bytes_swap:
  "x < a \<or> a + length bs \<le> x \<Longrightarrow> (store_bytes m a bs)(x := v) = store_bytes (m(x := v)) a bs"
  by (auto simp: store_bytes_def fun_eq_iff)

lemma load_bytes_Suc: "load_bytes m a (Suc n) = m a # load_bytes m (a + 1) n"
  by (rule nth_equalityI) (auto simp: load_bytes_def nth_Cons' simp del: upt_Suc)

lemma load_bytes_snoc: "load_bytes m a (Suc n) = load_bytes m a n @ [m (a + n)]"
  by (simp add: load_bytes_def)

lemma load_bytes_upd_other: "x < a \<or> a + n \<le> x \<Longrightarrow> load_bytes (m(x := v)) a n = load_bytes m a n"
  by (auto simp: load_bytes_def)

lemma memset_store: "memset m dst c n = store_bytes m dst (replicate n (ucast c))"
proof (induction n)
  case 0
  show ?case by (simp add: memset_def)
next
  case (Suc n)
  have "memset m dst c (Suc n) = (memset m dst c n)(dst + n := ucast c)"
    by (simp add: memset_def)
  also have "\<dots> = store_bytes m dst (replicate n (ucast c) @ [ucast c])"
    by (simp add: Suc.IH store_bytes_append store_bytes_Cons)
  finally show ?case by (simp add: replicate_append_same)
qed

lemma memset_frame: "x < dst \<or> dst + n \<le> x \<Longrightarrow> memset m dst c n x = m x"
  by (auto simp: memset_store store_bytes_def)

lemma memset_inside: "dst \<le> x \<Longrightarrow> x < dst + n \<Longrightarrow> memset m dst c n x = ucast c"
  by (auto simp: memset_store store_bytes_def)

lemma memmove_up_store:
  "d \<le> s \<or> s + n \<le> d \<Longrightarrow> memmove_up m d s n = store_bytes m d (load_bytes m s n)"
proof (induction n arbitrary: m d s)
  case 0
  show ?case by (simp add: load_bytes_def)
next
  case (Suc n)
  have "memmove_up (m(d := m s)) (d + 1) (s + 1) n
      = store_bytes (m(d := m s)) (d + 1) (load_bytes (m(d := m s)) (s + 1) n)"
    using Suc.prems by (intro Suc.IH) auto
  moreover have "load_bytes (m(d := m s)) (s + 1) n = load_bytes m (s + 1) n"
    using Suc.prems by (intro load_bytes_upd_other) auto
  ultimately show ?case by (simp add: load_bytes_Suc store_bytes_Cons)
qed

lemma memmove_down_store:
  "s < d \<Longrightarrow> memmove_down m (d + n) (s + n) n = store_bytes m d (load_bytes m s n)"
proof (induction n arbitrary: m)
  case 0
  show ?case by (simp add: load_bytes_def)
next
  case (Suc n)
  let ?m = "m(d + n := m (s + n))"
  have "memmove_down m (d + Suc n) (s + Suc n) (Suc n) = memmove_down ?m (d + n) (s + n) n"
    by simp
  also have "\<dots> = store_bytes ?m d (load_bytes ?m s n)"
    using Suc.prems by (rule Suc.IH)
  also have "load_bytes ?m s n = load_bytes m s n"
    using Suc.prems by (intro load_bytes_upd_other) auto
  also have "store_bytes ?m d (load_bytes m s n)
      = (store_bytes m d (load_bytes m s n))(d + n := m (s + n))"
    by (rule store_bytes_swap [symmetric]) simp
  finally show ?case
    by (simp add: load_bytes_snoc store_bytes_append store_bytes_Cons)
qed

text \<open>
  C34: \<^verbatim>\<open>memmove\<close> behaves as if the whole source range were read before any byte of the
  destination is written, whether or not the two ranges overlap.
\<close>

theorem memmove_is_block_copy:
  "memmove m dst src n = store_bytes m dst (load_bytes m src n)"
proof (cases "src < dst \<and> src + n > dst")
  case True
  then show ?thesis by (auto simp: memmove_def memmove_down_store load_bytes_def)
next
  case False
  then have "dst \<le> src \<or> src + n \<le> dst" by linarith
  then show ?thesis
    using False by (auto simp: memmove_def memmove_up_store load_bytes_def)
qed

subsection \<open>C strings\<close>

definition cstr :: "uint8 list \<Rightarrow> uint8 list" where
  "cstr bs = takeWhile (\<lambda>b. b \<noteq> 0) bs"

lemma memcmp_eq_0: "memcmp m p q n = 0 \<longleftrightarrow> load_bytes m p n = load_bytes m q n"
  by (induction n arbitrary: p q) (auto simp: load_bytes_Suc load_bytes_def [where n = 0] word_uint_eq_iff)

lemma strncmp_zero:
  "strncmp m p q n = 0 \<longleftrightarrow> cstr (load_bytes m p n) = cstr (load_bytes m q n)"
proof (induction n arbitrary: p q)
  case 0
  show ?case by (simp add: load_bytes_def)
next
  case (Suc n)
  show ?case
    by (auto simp: Suc.IH load_bytes_Suc cstr_def word_uint_eq_iff)
qed

text \<open>
  C35: \<^verbatim>\<open>strncmp\<close> returns zero exactly when the two strings, cut at their terminator or
  at \<open>n\<close> bytes, are equal.  \<^verbatim>\<open>namecmp\<close> relies on it for fixed-width directory names.
\<close>

theorem strncmp_zero_iff:
  "strncmp m p q n = 0 \<longleftrightarrow> cstr (load_bytes m p n) = cstr (load_bytes m q n)"
  by (rule strncmp_zero)

lemma strncpy_pad_store: "strncpy_pad m s n = store_bytes m s (replicate n 0)"
  by (induction n arbitrary: m s) (simp_all add: store_bytes_Cons)

definition padded :: "nat \<Rightarrow> uint8 list \<Rightarrow> uint8 list" where
  "padded n bs = cstr bs @ replicate (n - length (cstr bs)) 0"

lemma length_padded: "length bs = n \<Longrightarrow> length (padded n bs) = n"
  using length_takeWhile_le [of "\<lambda>b. b \<noteq> 0" bs] by (simp add: padded_def cstr_def)

lemma padded_Cons: "padded (Suc n) (b # bs) = (if b \<noteq> 0 then b # padded n bs else replicate (Suc n) 0)"
  by (simp add: padded_def cstr_def)

lemma strncpy_copy_store:
  "s + n \<le> t \<or> t + n \<le> s \<Longrightarrow> strncpy_copy m s t n = store_bytes m s (padded n (load_bytes m t n))"
proof (induction n arbitrary: m s t)
  case 0
  show ?case by (simp add: padded_def cstr_def load_bytes_def)
next
  case (Suc n)
  have "load_bytes (m(s := m t)) (t + 1) n = load_bytes m (t + 1) n"
    using Suc.prems by (intro load_bytes_upd_other) auto
  moreover have "strncpy_copy (m(s := m t)) (s + 1) (t + 1) n
      = store_bytes (m(s := m t)) (s + 1) (padded n (load_bytes (m(s := m t)) (t + 1) n))"
    using Suc.prems by (intro Suc.IH) auto
  ultimately show ?case
    by (simp add: load_bytes_Suc padded_Cons store_bytes_Cons strncpy_pad_store)
qed

text \<open>
  C36: for ranges that do not overlap, \<^verbatim>\<open>strncpy\<close> fills all \<open>n\<close> bytes of the destination:
  the string up to its terminator, then zero bytes.  A name of full length gets no
  terminator, as the directory code expects.
\<close>

theorem strncpy_pads:
  assumes "s + nat n \<le> t \<or> t + nat n \<le> s"
  shows "strncpy m s t n = store_bytes m s (padded (nat n) (load_bytes m t (nat n)))"
  using assms by (simp add: strncpy_def strncpy_copy_store)

theorem strncpy_pads_witness:
  "strncpy ((\<lambda>_. 7)(0 := 97, 1 := 0)) 10 0 3 =
    store_bytes ((\<lambda>_. 7)(0 := 97, 1 := 0)) 10
      (padded (nat 3) (load_bytes ((\<lambda>_. 7)(0 := 97, 1 := 0)) 0 (nat 3)))"
  by (rule strncpy_pads) simp

lemma safestrcpy_copy_frame:
  "x < s \<or> s + n < x \<Longrightarrow> safestrcpy_copy m s t n x = m x"
  by (induction m s t n rule: safestrcpy_copy.induct) auto

lemma safestrcpy_copy_terminates:
  "\<exists>i \<le> n. safestrcpy_copy m s t n (s + i) = 0 \<and>
     (\<forall>j < i. safestrcpy_copy m s t n (s + j) \<noteq> 0)"
proof (induction m s t n rule: safestrcpy_copy.induct)
  case (1 m s t)
  show ?case by simp
next
  case (2 m s t n)
  show ?case
  proof (cases "m t = 0")
    case True
    then show ?thesis by (intro exI [of _ 0]) simp
  next
    case False
    with 2 obtain i where i: "i \<le> n"
      "safestrcpy_copy (m(s := m t)) (s + 1) (t + 1) n (s + 1 + i) = 0"
      "\<forall>j < i. safestrcpy_copy (m(s := m t)) (s + 1) (t + 1) n (s + 1 + j) \<noteq> 0"
      by blast
    have "safestrcpy_copy (m(s := m t)) (s + 1) (t + 1) n s = m t"
      by (simp add: safestrcpy_copy_frame)
    then show ?thesis
      using i False by (intro exI [of _ "Suc i"]) (auto simp: less_Suc_eq_0_disj)
  qed
qed

text \<open>
  C37: \<^verbatim>\<open>safestrcpy\<close> with a positive size leaves a terminated string inside the first \<open>n\<close>
  bytes of the destination and writes nothing outside them.
\<close>

theorem safestrcpy_terminated:
  assumes "0 < n"
  shows "(\<exists>i < nat n. safestrcpy m s t n (s + i) = 0) \<and>
    (\<forall>x. x < s \<or> s + nat n \<le> x \<longrightarrow> safestrcpy m s t n x = m x)"
proof -
  have eq: "safestrcpy m s t n = safestrcpy_copy m s t (nat (n - 1))"
    using assms by (simp add: safestrcpy_def)
  obtain i where "i \<le> nat (n - 1)" "safestrcpy_copy m s t (nat (n - 1)) (s + i) = 0"
    using safestrcpy_copy_terminates [of "nat (n - 1)" m s t] by blast
  with assms have "\<exists>i < nat n. safestrcpy m s t n (s + i) = 0"
    by (intro exI [of _ i]) (auto simp: eq)
  moreover have "safestrcpy m s t n x = m x" if "x < s \<or> s + nat n \<le> x" for x
    unfolding eq using that assms by (intro safestrcpy_copy_frame) auto
  ultimately show ?thesis by blast
qed

theorem safestrcpy_terminated_witness:
  "(\<exists>i < nat 4. safestrcpy (\<lambda>_. 9) 100 0 4 (100 + i) = 0) \<and> safestrcpy (\<lambda>_. 9) 100 0 4 104 = 9"
  using safestrcpy_terminated [of 4 "\<lambda>_. 9" 100 0] by simp

lemma strlen_from_finds:
  "k = n + d \<Longrightarrow> m (s + k) = 0 \<Longrightarrow> (\<forall>j. n \<le> j \<and> j < k \<longrightarrow> m (s + j) \<noteq> 0) \<Longrightarrow>
    strlen_from m s n = Some k"
proof (induction d arbitrary: n)
  case 0
  then show ?case by (simp add: strlen_from.simps)
next
  case (Suc d)
  then have "m (s + n) \<noteq> 0" by simp
  moreover have "strlen_from m s (n + 1) = Some k" using Suc by auto
  ultimately show ?case by (simp add: strlen_from.simps [of m s n])
qed

lemma strlen_terminated:
  assumes "m (s + k) = 0"
  shows "strlen m s = Some (LEAST i. m (s + i) = 0)"
proof -
  let ?l = "LEAST i. m (s + i) = 0"
  have "m (s + ?l) = 0" using assms by (rule LeastI)
  moreover have "\<forall>j. 0 \<le> j \<and> j < ?l \<longrightarrow> m (s + j) \<noteq> 0"
    using not_less_Least by blast
  ultimately show ?thesis
    unfolding strlen_def by (intro strlen_from_finds [of ?l 0 ?l]) auto
qed

end
