(* ===== verification/Kalloc.thy ===== *)
theory Kalloc
  imports Riscv Kstring
begin

text \<open>
  The physical page allocator of \<^verbatim>\<open>kernel/kalloc.c\<close>.  Free pages form a linked list whose
  links are stored in the first eight bytes of the pages themselves, so the model keeps
  byte-addressed physical memory and the list head.  The critical sections guarded by
  \<^verbatim>\<open>kmem.lock\<close> are single steps of the model (theory \<open>Spinlock\<close> justifies this).  The
  linker symbol \<^verbatim>\<open>end\<close> is the field \<open>kend\<close>.
\<close>

record kmem =
  mem :: memory
  freelist :: nat
  kend :: nat

definition kfree :: "nat \<Rightarrow> ('a kmem_scheme, unit) kfun" where
  "kfree pa = (\<lambda>s.
     if pa mod PGSIZE \<noteq> 0 \<or> pa < kend s \<or> pa \<ge> PHYSTOP then Panic ''kfree''
     else
       let m = memset (mem s) pa 1 PGSIZE;
           m' = store64 m pa (of_nat (freelist s))
       in Ok () (s\<lparr>mem := m', freelist := pa\<rparr>))"

definition kalloc :: "('a kmem_scheme, nat) kfun" where
  "kalloc = (\<lambda>s.
     let r = freelist s;
         s' = (if r \<noteq> 0 then s\<lparr>freelist := unat (load64 (mem s) r)\<rparr> else s)
     in if r \<noteq> 0 then Ok r (s'\<lparr>mem := memset (mem s') r 5 PGSIZE\<rparr>) else Ok r s')"

function freerange_loop :: "nat \<Rightarrow> nat \<Rightarrow> ('a kmem_scheme, unit) kfun" where
  "freerange_loop p pa_end =
     (if p + PGSIZE \<le> pa_end
      then kbind (kfree p) (\<lambda>_. freerange_loop (p + PGSIZE) pa_end)
      else kret ())"
  by pat_completeness auto
termination
  by (relation "measure (\<lambda>(p, e). e - p)") auto

declare freerange_loop.simps [simp del]

definition freerange :: "nat \<Rightarrow> nat \<Rightarrow> ('a kmem_scheme, unit) kfun" where
  "freerange pa_start pa_end = freerange_loop (unat (PGROUNDUP (of_nat pa_start))) pa_end"

definition kinit :: "('a kmem_scheme, unit) kfun" where
  "kinit = (\<lambda>s. freerange (kend s) PHYSTOP s)"

subsection \<open>The free list as a chain of pages\<close>

fun chain :: "memory \<Rightarrow> nat \<Rightarrow> nat list \<Rightarrow> bool" where
  "chain m a [] \<longleftrightarrow> a = 0"
| "chain m a (x # xs) \<longleftrightarrow> a = x \<and> x \<noteq> 0 \<and> chain m (unat (load64 m x)) xs"

definition page_ok :: "'a kmem_scheme \<Rightarrow> nat \<Rightarrow> bool" where
  "page_ok s p \<longleftrightarrow> p mod PGSIZE = 0 \<and> kend s \<le> p \<and> p < PHYSTOP \<and> p \<noteq> 0"

definition free_list :: "'a kmem_scheme \<Rightarrow> nat list \<Rightarrow> bool" where
  "free_list s xs \<longleftrightarrow> chain (mem s) (freelist s) xs \<and> distinct xs \<and> list_all (page_ok s) xs"

definition kmem_inv :: "'a kmem_scheme \<Rightarrow> bool" where
  "kmem_inv s \<longleftrightarrow> (\<exists>xs. free_list s xs)"

definition free_pages :: "'a kmem_scheme \<Rightarrow> nat set" where
  "free_pages s = {p. \<exists>xs. free_list s xs \<and> p \<in> set xs}"

lemma chain_unique: "chain m a xs \<Longrightarrow> chain m a ys \<Longrightarrow> xs = ys"
proof (induction xs arbitrary: a ys)
  case Nil
  then show ?case by (cases ys) auto
next
  case (Cons x xs)
  then show ?case by (cases ys) auto
qed

lemma free_list_unique: "free_list s xs \<Longrightarrow> free_list s ys \<Longrightarrow> xs = ys"
  by (auto simp: free_list_def dest: chain_unique)

lemma free_pages_set: "free_list s xs \<Longrightarrow> free_pages s = set xs"
  by (auto simp: free_pages_def dest: free_list_unique)

lemma page_offset_div: "p mod PGSIZE = 0 \<Longrightarrow> i < PGSIZE \<Longrightarrow> (p + i) div PGSIZE = p div PGSIZE"
  by (simp add: div_add1_eq)

lemma page_multiple: "p mod PGSIZE = 0 \<Longrightarrow> \<exists>k. p = PGSIZE * k"
  by (simp add: mod_eq_0_iff_dvd dvd_def)

lemma page_eq_div: "p mod PGSIZE = 0 \<Longrightarrow> q mod PGSIZE = 0 \<Longrightarrow> p div PGSIZE = q div PGSIZE \<Longrightarrow> p = q"
  by (metis div_mult_mod_eq)

text \<open>Two memories that agree outside one page agree on every other page's words.\<close>

lemma load64_other_page:
  assumes "\<And>x. x div PGSIZE \<noteq> q div PGSIZE \<Longrightarrow> m' x = m x"
    and "p mod PGSIZE = 0" "q mod PGSIZE = 0" "p \<noteq> q"
  shows "load64 m' p = load64 m p"
proof (rule load64_cong)
  fix i :: nat assume "i < 8"
  then have "(p + i) div PGSIZE = p div PGSIZE" using assms(2) by (intro page_offset_div) auto
  with assms show "m' (p + i) = m (p + i)" by (metis page_eq_div)
qed

lemma chain_frame:
  assumes "chain m a xs" and "\<And>x. x div PGSIZE \<noteq> q div PGSIZE \<Longrightarrow> m' x = m x"
    and "q mod PGSIZE = 0" and "q \<notin> set xs" and "list_all (\<lambda>p. p mod PGSIZE = 0) xs"
  shows "chain m' a xs"
  using assms(1,4,5)
proof (induction xs arbitrary: a)
  case Nil
  then show ?case by simp
next
  case (Cons x xs)
  then have "load64 m' x = load64 m x"
    using assms(2,3) by (intro load64_other_page) auto
  with Cons show ?case by auto
qed

lemma memset_page_frame:
  assumes "p mod PGSIZE = 0" "x div PGSIZE \<noteq> p div PGSIZE"
  shows "memset m p c PGSIZE x = m x"
proof -
  have "\<not> (p \<le> x \<and> x < p + PGSIZE)"
  proof
    assume "p \<le> x \<and> x < p + PGSIZE"
    then have "x = p + (x - p)" "x - p < PGSIZE" by auto
    with assms show False by (metis page_offset_div)
  qed
  then show ?thesis by (intro memset_frame) linarith
qed

lemma store64_page_frame:
  assumes "p mod PGSIZE = 0" "x div PGSIZE \<noteq> p div PGSIZE"
  shows "store64 m p v x = m x"
proof (rule store64_frame)
  show "x < p \<or> p + 8 \<le> x"
  proof (rule ccontr)
    assume "\<not> (x < p \<or> p + 8 \<le> x)"
    then have "x = p + (x - p)" "x - p < PGSIZE" by auto
    with assms show False by (metis page_offset_div)
  qed
qed

lemma kfree_Ok: "kfree p s = Ok u s' \<longleftrightarrow> p mod PGSIZE = 0 \<and> kend s \<le> p \<and> p < PHYSTOP \<and>
    s' = s\<lparr>mem := store64 (memset (mem s) p 1 PGSIZE) p (of_nat (freelist s)), freelist := p\<rparr>"
  by (auto simp: kfree_def Let_def)

lemma chain_head: "chain m a xs \<Longrightarrow> a = (case xs of [] \<Rightarrow> 0 | x # _ \<Rightarrow> x)"
  by (cases xs) auto

lemma free_list_head_bound: "free_list s xs \<Longrightarrow> freelist s < 2 ^ 64"
  by (cases xs) (auto simp: free_list_def page_ok_def)

lemma kfree_pushes:
  assumes fl: "free_list s xs" and p: "page_ok s p" "p \<notin> set xs"
  shows "\<exists>s'. kfree p s = Ok () s' \<and> free_list s' (p # xs) \<and> kend s' = kend s \<and>
    (\<forall>x. x div PGSIZE \<noteq> p div PGSIZE \<longrightarrow> mem s' x = mem s x)"
proof -
  define m' where "m' = store64 (memset (mem s) p 1 PGSIZE) p (of_nat (freelist s))"
  define s' where "s' = s\<lparr>mem := m', freelist := p\<rparr>"
  have al: "p mod PGSIZE = 0" using p(1) by (simp add: page_ok_def)
  have fr: "m' x = mem s x" if "x div PGSIZE \<noteq> p div PGSIZE" for x
    using that al by (simp add: m'_def store64_page_frame memset_page_frame)
  have "chain m' (freelist s) xs"
  proof (rule chain_frame)
    show "chain (mem s) (freelist s) xs" using fl by (simp add: free_list_def)
    show "list_all (\<lambda>p. p mod PGSIZE = 0) xs"
      using fl by (auto simp: free_list_def page_ok_def list_all_iff)
  qed (use fr al p(2) in auto)
  moreover have "unat (load64 m' p) = freelist s"
    using free_list_head_bound [OF fl] by (simp add: m'_def unat_of_nat_less)
  ultimately have "free_list s' (p # xs)"
    using fl p by (auto simp: free_list_def s'_def page_ok_def list_all_iff)
  moreover have "kfree p s = Ok () s'"
    using p(1) by (auto simp: kfree_Ok page_ok_def s'_def m'_def)
  ultimately show ?thesis using fr by (intro exI [of _ s']) (simp add: s'_def)
qed

lemma kalloc_pops:
  assumes fl: "free_list s (p # xs)"
  shows "\<exists>s'. kalloc s = Ok p s' \<and> free_list s' xs \<and> kend s' = kend s \<and>
    mem s' = memset (mem s) p 5 PGSIZE"
proof -
  define s' where "s' = s\<lparr>freelist := unat (load64 (mem s) p), mem := memset (mem s) p 5 PGSIZE\<rparr>"
  have hd: "freelist s = p" "p \<noteq> 0" "p mod PGSIZE = 0"
    using fl by (auto simp: free_list_def page_ok_def)
  have "chain (memset (mem s) p 5 PGSIZE) (unat (load64 (mem s) p)) xs"
  proof (rule chain_frame)
    show "chain (mem s) (unat (load64 (mem s) p)) xs" using fl by (simp add: free_list_def)
    show "list_all (\<lambda>p. p mod PGSIZE = 0) xs"
      using fl by (auto simp: free_list_def page_ok_def list_all_iff)
    show "p \<notin> set xs" using fl by (simp add: free_list_def)
  qed (use hd in \<open>auto simp: memset_page_frame\<close>)
  then have "free_list s' xs"
    using fl by (auto simp: free_list_def s'_def page_ok_def list_all_iff)
  moreover have "kalloc s = Ok p s'" using hd by (simp add: kalloc_def s'_def)
  ultimately show ?thesis by (intro exI [of _ s']) (simp add: s'_def)
qed

lemma kalloc_empty: "free_list s [] \<Longrightarrow> kalloc s = Ok 0 s"
  by (simp add: free_list_def kalloc_def)

subsection \<open>The allocator interface\<close>

text \<open>
  What the page-table code relies on: allocation hands out some free page and removes
  it from the free set, freeing returns a page, the invariant is kept, and nothing
  outside the page concerned is written.
\<close>

locale page_allocator =
  fixes alloc :: "('s, nat) kfun"
    and free :: "nat \<Rightarrow> ('s, unit) kfun"
    and inv :: "'s \<Rightarrow> bool"
    and avail :: "'s \<Rightarrow> nat set"
    and memory_of :: "'s \<Rightarrow> memory"
    and owned :: "'s \<Rightarrow> nat \<Rightarrow> bool"
  assumes alloc_none: "inv s \<Longrightarrow> avail s = {} \<Longrightarrow> alloc s = Ok 0 s"
    and alloc_some: "inv s \<Longrightarrow> avail s \<noteq> {} \<Longrightarrow>
      \<exists>p s'. alloc s = Ok p s' \<and> p \<in> avail s \<and> avail s' = avail s - {p} \<and> inv s' \<and>
        (\<forall>q. owned s' q \<longleftrightarrow> owned s q) \<and>
        (\<forall>x. x div PGSIZE \<noteq> p div PGSIZE \<longrightarrow> memory_of s' x = memory_of s x)"
    and free_page: "inv s \<Longrightarrow> owned s p \<Longrightarrow> p \<notin> avail s \<Longrightarrow>
      \<exists>s'. free p s = Ok () s' \<and> avail s' = insert p (avail s) \<and> inv s' \<and>
        (\<forall>q. owned s' q \<longleftrightarrow> owned s q) \<and>
        (\<forall>x. x div PGSIZE \<noteq> p div PGSIZE \<longrightarrow> memory_of s' x = memory_of s x)"
    and avail_owned: "inv s \<Longrightarrow> p \<in> avail s \<Longrightarrow> owned s p"
    and owned_nonnull: "inv s \<Longrightarrow> owned s p \<Longrightarrow> p \<noteq> 0"
begin

lemma alloc_returns: "inv s \<Longrightarrow> \<exists>p s'. alloc s = Ok p s' \<and> inv s'"
  using alloc_none alloc_some by (cases "avail s = {}") blast+

lemma alloc_someE:
  assumes "inv s" "alloc s = Ok p s'" "avail s \<noteq> {}"
  shows "p \<in> avail s \<and> avail s' = avail s - {p} \<and> inv s' \<and> (\<forall>q. owned s' q \<longleftrightarrow> owned s q) \<and>
    (\<forall>x. x div PGSIZE \<noteq> p div PGSIZE \<longrightarrow> memory_of s' x = memory_of s x)"
  using alloc_some [OF assms(1,3)] assms(2) by auto

lemma alloc_null_iff:
  assumes "inv s" "alloc s = Ok p s'"
  shows "p = 0 \<longleftrightarrow> avail s = {}"
proof (cases "avail s = {}")
  case True
  with alloc_none [OF assms(1)] assms(2) show ?thesis by simp
next
  case False
  with alloc_someE [OF assms] have "p \<in> avail s" by blast
  with avail_owned [OF assms(1)] owned_nonnull [OF assms(1)] False show ?thesis by blast
qed

lemma alloc_nonnull:
  assumes "inv s" "alloc s = Ok p s'" "p \<noteq> 0"
  shows "p \<in> avail s \<and> avail s' = avail s - {p} \<and> inv s' \<and> owned s p \<and>
    (\<forall>q. owned s' q \<longleftrightarrow> owned s q) \<and>
    (\<forall>x. x div PGSIZE \<noteq> p div PGSIZE \<longrightarrow> memory_of s' x = memory_of s x)"
proof -
  have "avail s \<noteq> {}" using assms alloc_null_iff by blast
  from alloc_someE [OF assms(1,2) this] avail_owned [OF assms(1)] show ?thesis by blast
qed

lemma alloc_null:
  assumes "inv s" "alloc s = Ok 0 s'"
  shows "s' = s \<and> avail s = {}"
proof -
  have "avail s = {}" using alloc_null_iff [OF assms] by simp
  with alloc_none [OF assms(1)] assms(2) show ?thesis by simp
qed

lemma alloc_then_free:
  assumes "inv s" "alloc s = Ok p s'" "p \<noteq> 0"
  shows "\<exists>s''. free p s' = Ok () s'' \<and> avail s'' = avail s \<and> inv s''"
proof -
  have a: "p \<in> avail s" "avail s' = avail s - {p}" "inv s'" "owned s' p"
    using alloc_nonnull [OF assms] by blast+
  have "p \<notin> avail s'" using a(2) by simp
  from free_page [OF a(3,4) this] obtain s'' where
    "free p s' = Ok () s''" "avail s'' = insert p (avail s')" "inv s''" by blast
  with a(1,2) show ?thesis by (intro exI [of _ s'']) auto
qed

end

interpretation km: page_allocator kalloc kfree kmem_inv free_pages mem page_ok
proof
  fix s :: "'a kmem_scheme"
  assume "kmem_inv s" "free_pages s = {}"
  then show "kalloc s = Ok 0 s"
    by (auto simp: kmem_inv_def free_pages_set kalloc_empty)
next
  fix s :: "'a kmem_scheme"
  assume inv: "kmem_inv s" and ne: "free_pages s \<noteq> {}"
  obtain ys where ys: "free_list s ys" using inv by (auto simp: kmem_inv_def)
  with ne obtain p xs where fl: "free_list s (p # xs)"
    by (cases ys) (auto simp: free_pages_set)
  from kalloc_pops [OF fl] obtain s' where s': "kalloc s = Ok p s'" "free_list s' xs"
    "kend s' = kend s" "mem s' = memset (mem s) p 5 PGSIZE" by blast
  have al: "p mod PGSIZE = 0" and nx: "p \<notin> set xs"
    using fl by (simp_all add: free_list_def page_ok_def)
  have "p \<in> free_pages s \<and> free_pages s' = free_pages s - {p}"
    using nx by (simp add: free_pages_set [OF fl] free_pages_set [OF s'(2)])
  moreover have "kmem_inv s'" using s'(2) by (auto simp: kmem_inv_def)
  moreover have "\<forall>q. page_ok s' q \<longleftrightarrow> page_ok s q" by (simp add: page_ok_def s'(3))
  moreover have "\<forall>x. x div PGSIZE \<noteq> p div PGSIZE \<longrightarrow> mem s' x = mem s x"
    by (simp add: s'(4) memset_page_frame [OF al])
  ultimately show "\<exists>p s'. kalloc s = Ok p s' \<and> p \<in> free_pages s \<and> free_pages s' = free_pages s - {p}
      \<and> kmem_inv s' \<and> (\<forall>q. page_ok s' q \<longleftrightarrow> page_ok s q) \<and>
      (\<forall>x. x div PGSIZE \<noteq> p div PGSIZE \<longrightarrow> mem s' x = mem s x)"
    using s'(1) by blast
next
  fix s :: "'a kmem_scheme" and p
  assume inv: "kmem_inv s" and ok: "page_ok s p" and nf: "p \<notin> free_pages s"
  then obtain xs where fl: "free_list s xs" by (auto simp: kmem_inv_def)
  with nf have "p \<notin> set xs" by (simp add: free_pages_set)
  from kfree_pushes [OF fl ok this] obtain s' where s': "kfree p s = Ok () s'"
    "free_list s' (p # xs)" "kend s' = kend s"
    "\<forall>x. x div PGSIZE \<noteq> p div PGSIZE \<longrightarrow> mem s' x = mem s x" by blast
  then show "\<exists>s'. kfree p s = Ok () s' \<and> free_pages s' = insert p (free_pages s) \<and> kmem_inv s' \<and>
      (\<forall>q. page_ok s' q \<longleftrightarrow> page_ok s q) \<and>
      (\<forall>x. x div PGSIZE \<noteq> p div PGSIZE \<longrightarrow> mem s' x = mem s x)"
    using free_pages_set [OF fl] free_pages_set [OF s'(2)]
    by (intro exI [of _ s']) (auto simp: kmem_inv_def page_ok_def)
next
  fix s :: "'a kmem_scheme" and p
  assume "kmem_inv s" "p \<in> free_pages s"
  then show "page_ok s p" by (auto simp: free_pages_def free_list_def list_all_iff)
next
  fix s :: "'a kmem_scheme" and p
  assume "kmem_inv s" "page_ok s p"
  then show "p \<noteq> 0" by (simp add: page_ok_def)
qed

subsection \<open>Initialisation\<close>

definition page_range :: "nat \<Rightarrow> nat \<Rightarrow> nat set" where
  "page_range p e = {q. q mod PGSIZE = 0 \<and> p \<le> q \<and> q + PGSIZE \<le> e}"

lemma page_range_step:
  assumes "p mod PGSIZE = 0" "p + PGSIZE \<le> e"
  shows "page_range p e = insert p (page_range (p + PGSIZE) e)"
proof (rule set_eqI)
  fix q
  have "p = q \<or> p + PGSIZE \<le> q" if q: "q mod PGSIZE = 0" "p \<le> q"
  proof -
    obtain a b where "p = PGSIZE * a" "q = PGSIZE * b"
      using page_multiple [OF assms(1)] page_multiple [OF q(1)] by blast
    with q(2) show ?thesis by (cases "a = b") auto
  qed
  with assms show "q \<in> page_range p e \<longleftrightarrow> q \<in> insert p (page_range (p + PGSIZE) e)"
    by (auto simp: page_range_def)
qed

lemma freerange_loop_spec:
  assumes "p mod PGSIZE = 0" "kend s \<le> p" "0 < p" "e \<le> PHYSTOP" "kmem_inv s"
    and "\<forall>q \<in> free_pages s. q < p"
  shows "\<exists>s'. freerange_loop p e s = Ok () s' \<and> kmem_inv s' \<and> kend s' = kend s \<and>
    free_pages s' = free_pages s \<union> page_range p e"
  using assms
proof (induction "e - p" arbitrary: p s rule: less_induct)
  case less
  show ?case
  proof (cases "p + PGSIZE \<le> e")
    case False
    then have "page_range p e = {}" by (auto simp: page_range_def)
    with False less.prems show ?thesis by (simp add: freerange_loop.simps)
  next
    case True
    have ok: "page_ok s p" using True less.prems by (simp add: page_ok_def)
    obtain xs where xs: "free_list s xs" using less.prems(5) by (auto simp: kmem_inv_def)
    have "p \<notin> set xs" using less.prems(6) free_pages_set [OF xs] by auto
    from kfree_pushes [OF xs ok this] obtain s1 where s1: "kfree p s = Ok () s1"
      "free_list s1 (p # xs)" "kend s1 = kend s" by blast
    have fp: "free_pages s1 = insert p (free_pages s)"
      using free_pages_set [OF xs] free_pages_set [OF s1(2)] by simp
    have "\<exists>s'. freerange_loop (p + PGSIZE) e s1 = Ok () s' \<and> kmem_inv s' \<and> kend s' = kend s1 \<and>
        free_pages s' = free_pages s1 \<union> page_range (p + PGSIZE) e"
      using True less.prems s1 fp
      by (intro less.hyps) (auto simp: kmem_inv_def dest!: bspec)
    with s1 fp True less.prems(1) show ?thesis
      by (auto simp: freerange_loop.simps [of p e] page_range_step)
  qed
qed

text \<open>
  C19: \<^verbatim>\<open>kinit\<close>, run on the zeroed allocator state, returns and makes exactly the whole pages
  between the end of the kernel image and \<^verbatim>\<open>PHYSTOP\<close> available.
\<close>

theorem kinit_frees_all:
  assumes "0 < kend s" "kend s \<le> PHYSTOP" "freelist s = 0"
  shows "\<exists>s'. kinit s = Ok () s' \<and> kmem_inv s' \<and>
    free_pages s' = {q. q mod PGSIZE = 0 \<and> kend s \<le> q \<and> q + PGSIZE \<le> PHYSTOP}"
proof -
  let ?p = "(kend s + 4095) div 4096 * 4096"
  have "unat (of_nat (kend s) :: uint64) = kend s"
    using assms(2) by (simp add: unat_of_nat_less)
  then have up: "unat (PGROUNDUP (of_nat (kend s))) = ?p"
    using assms(2) by (simp add: unat_PGROUNDUP)
  have fl: "free_list s []" using assms(3) by (simp add: free_list_def)
  have ge: "kend s \<le> ?p" by linarith
  have "\<exists>s'. freerange_loop ?p PHYSTOP s = Ok () s' \<and> kmem_inv s' \<and> kend s' = kend s \<and>
      free_pages s' = free_pages s \<union> page_range ?p PHYSTOP"
    using fl ge assms(1) by (intro freerange_loop_spec) (auto simp: kmem_inv_def free_pages_set)
  moreover have "page_range ?p PHYSTOP = {q. q mod PGSIZE = 0 \<and> kend s \<le> q \<and> q + PGSIZE \<le> PHYSTOP}"
  proof -
    have "?p \<le> q" if q: "q mod PGSIZE = 0" "kend s \<le> q" for q
    proof -
      obtain b where b: "q = PGSIZE * b" using page_multiple [OF q(1)] by blast
      have "(kend s + 4095) div 4096 \<le> (4096 * b + 4095) div 4096"
        using q(2) b by (intro div_le_mono) simp
      then show ?thesis by (simp add: b)
    qed
    then show ?thesis using ge by (auto simp: page_range_def)
  qed
  ultimately show ?thesis
    using free_pages_set [OF fl] by (auto simp: kinit_def freerange_def up)
qed

theorem kinit_frees_all_witness:
  "\<exists>s'. kinit \<lparr>mem = (\<lambda>_. 0), freelist = 0, kend = 0x80021000\<rparr> = Ok () s' \<and> kmem_inv s' \<and>
    free_pages s' = {q. q mod PGSIZE = 0 \<and> 0x80021000 \<le> q \<and> q + PGSIZE \<le> PHYSTOP}"
  using kinit_frees_all [of "\<lparr>mem = (\<lambda>_. 0), freelist = 0, kend = 0x80021000\<rparr>"] by simp

text \<open>
  C17: under the free-list invariant \<^verbatim>\<open>kalloc\<close> always returns: a null pointer and an
  unchanged state exactly when nothing is free, and otherwise a free page, now owned by
  the caller, filled with the value five, with all other memory unchanged.
\<close>

theorem kalloc_correct:
  assumes "kmem_inv s"
  shows "\<exists>p s'. kalloc s = Ok p s' \<and> kmem_inv s' \<and>
    (if free_pages s = {} then p = 0 \<and> s' = s
     else p \<in> free_pages s \<and> free_pages s' = free_pages s - {p} \<and>
       (\<forall>x. mem s' x = (if p \<le> x \<and> x < p + PGSIZE then 5 else mem s x)))"
proof -
  obtain ys where ys: "free_list s ys" using assms by (auto simp: kmem_inv_def)
  show ?thesis
  proof (cases ys)
    case Nil
    with ys assms show ?thesis by (simp add: kalloc_empty free_pages_set)
  next
    case (Cons p xs)
    from kalloc_pops [OF ys [unfolded Cons]] obtain s' where s': "kalloc s = Ok p s'"
      "free_list s' xs" "mem s' = memset (mem s) p 5 PGSIZE" by blast
    have "p \<notin> set xs" using ys Cons by (simp add: free_list_def)
    moreover have "mem s' x = (if p \<le> x \<and> x < p + PGSIZE then 5 else mem s x)" for x
      by (auto simp: s'(3) memset_frame memset_inside)
    ultimately show ?thesis
      using s'(1,2) ys Cons by (auto simp: kmem_inv_def free_pages_set)
  qed
qed

theorem kalloc_correct_witness:
  "\<exists>s :: kmem. kmem_inv s \<and> free_pages s = {4096} \<and>
    (\<exists>p s'. kalloc s = Ok p s' \<and> p \<in> free_pages s \<and> free_pages s' = {})"
proof -
  let ?s0 = "\<lparr>mem = (\<lambda>_. 0), freelist = 0, kend = 4096\<rparr>"
  have "free_list ?s0 []" by (simp add: free_list_def)
  from kfree_pushes [OF this, of 4096] obtain s :: kmem where s: "free_list s [4096]"
    by (auto simp: page_ok_def)
  then have "kmem_inv s" "free_pages s = {4096}" by (auto simp: kmem_inv_def free_pages_set)
  with kalloc_correct [of s] show ?thesis by (intro exI [of _ s]) auto
qed

text \<open>
  C18: \<^verbatim>\<open>kfree\<close> panics exactly on an address that is not a page boundary inside the
  allocator's range, and otherwise makes the page the next one \<^verbatim>\<open>kalloc\<close> hands out.
\<close>

theorem kfree_then_kalloc:
  assumes "kmem_inv s" "p \<notin> free_pages s" "0 < kend s"
  shows "if p mod PGSIZE \<noteq> 0 \<or> p < kend s \<or> p \<ge> PHYSTOP then kfree p s = Panic ''kfree''
    else (\<exists>s1 s2. kfree p s = Ok () s1 \<and> kmem_inv s1 \<and> free_pages s1 = insert p (free_pages s) \<and>
      kalloc s1 = Ok p s2 \<and> free_pages s2 = free_pages s \<and> kmem_inv s2)"
proof (cases "p mod PGSIZE \<noteq> 0 \<or> p < kend s \<or> p \<ge> PHYSTOP")
  case True
  then show ?thesis by (auto simp: kfree_def)
next
  case False
  obtain xs where xs: "free_list s xs" using assms(1) by (auto simp: kmem_inv_def)
  have "page_ok s p" "p \<notin> set xs"
    using False assms(2,3) by (auto simp: page_ok_def free_pages_set [OF xs])
  from kfree_pushes [OF xs this] obtain s1 where s1: "kfree p s = Ok () s1" "free_list s1 (p # xs)"
    by blast
  from kalloc_pops [OF s1(2)] obtain s2 where s2: "kalloc s1 = Ok p s2" "free_list s2 xs" by blast
  have "free_pages s1 = insert p (free_pages s)" "free_pages s2 = free_pages s"
    using free_pages_set [OF xs] free_pages_set [OF s1(2)] free_pages_set [OF s2(2)] by simp_all
  with False s1 s2 show ?thesis by (auto simp: kmem_inv_def)
qed

theorem kfree_then_kalloc_witness:
  "\<exists>s1 s2. kfree 8192 \<lparr>mem = (\<lambda>_. 0), freelist = 0, kend = 4096\<rparr> = Ok () s1 \<and>
     free_pages s1 = {8192} \<and> kalloc s1 = Ok 8192 s2"
proof -
  let ?s0 = "\<lparr>mem = (\<lambda>_. 0), freelist = 0, kend = 4096\<rparr>"
  have fl: "free_list ?s0 []" by (simp add: free_list_def)
  then have "kmem_inv ?s0" "free_pages ?s0 = {}" by (auto simp: kmem_inv_def free_pages_set)
  with kfree_then_kalloc [of ?s0 8192] show ?thesis by auto
qed

end
