(* ===== verification/Vm.thy ===== *)
theory Vm
  imports Kalloc
begin

text \<open>
  Page tables, \<^verbatim>\<open>kernel/vm.c\<close>.  Page-table pages live in the physical memory of theory
  \<open>Kalloc\<close>; a page table is the physical address of its root page and a page-table entry
  is the 64-bit word at its address.  Kernel pointers and page-table addresses are
  naturals, user virtual addresses and sizes are 64-bit words with wrap-around.
\<close>

subsection \<open>Walking a page table\<close>

definition pte_addr :: "nat \<Rightarrow> nat \<Rightarrow> uint64 \<Rightarrow> nat" where
  "pte_addr pagetable level va = pagetable + 8 * unat (PX level va)"

fun walk_level :: "nat \<Rightarrow> nat \<Rightarrow> uint64 \<Rightarrow> bool \<Rightarrow> ('a kmem_scheme, nat) kfun" where
  "walk_level 0 pagetable va alloc = kret (pte_addr pagetable 0 va)"
| "walk_level (Suc level) pagetable va alloc = (\<lambda>s.
     let pte = pte_addr pagetable (Suc level) va; e = load64 (mem s) pte
     in if e AND PTE_V \<noteq> 0 then walk_level level (unat (PTE2PA e)) va alloc s
        else if \<not> alloc then Ok 0 s
        else (case kalloc s of
            Ok pg s1 \<Rightarrow>
              if pg = 0 then Ok 0 s1
              else
                let m1 = memset (mem s1) pg 0 PGSIZE;
                    m2 = store64 m1 pte (PA2PTE (of_nat pg) OR PTE_V)
                in walk_level level pg va alloc (s1\<lparr>mem := m2\<rparr>)
          | Panic msg \<Rightarrow> Panic msg
          | Blocked c s1 \<Rightarrow> Blocked c s1))"

definition walk :: "nat \<Rightarrow> uint64 \<Rightarrow> bool \<Rightarrow> ('a kmem_scheme, nat) kfun" where
  "walk pagetable va alloc =
     (if va \<ge> MAXVA then kpanic ''walk'' else walk_level 2 pagetable va alloc)"

definition get_pte :: "nat \<Rightarrow> ('a kmem_scheme, uint64) kfun" where
  "get_pte pte = kget (\<lambda>s. load64 (mem s) pte)"

definition set_pte :: "nat \<Rightarrow> uint64 \<Rightarrow> ('a kmem_scheme, unit) kfun" where
  "set_pte pte v = kmodify (\<lambda>s. s\<lparr>mem := store64 (mem s) pte v\<rparr>)"

definition walkaddr :: "nat \<Rightarrow> uint64 \<Rightarrow> ('a kmem_scheme, uint64) kfun" where
  "walkaddr pagetable va =
     (if va \<ge> MAXVA then kret 0
      else kbind (walk pagetable va False) (\<lambda>pte.
        if pte = 0 then kret 0
        else kbind (get_pte pte) (\<lambda>e.
          if e AND PTE_V = 0 then kret 0
          else if e AND PTE_U = 0 then kret 0
          else kret (PTE2PA e))))"

subsection \<open>Mapping and unmapping\<close>

fun mappages_loop :: "nat \<Rightarrow> nat \<Rightarrow> uint64 \<Rightarrow> uint64 \<Rightarrow> uint64 \<Rightarrow> uint64 \<Rightarrow> ('a kmem_scheme, int) kfun" where
  "mappages_loop 0 pagetable a lastva pa perm = kpanic ''mappages: fuel''"
| "mappages_loop (Suc n) pagetable a lastva pa perm =
     kbind (walk pagetable a True) (\<lambda>pte.
       if pte = 0 then kret (-1)
       else kbind (get_pte pte) (\<lambda>e.
         if e AND PTE_V \<noteq> 0 then kpanic ''mappages: remap''
         else kbind (set_pte pte (PA2PTE pa OR perm OR PTE_V)) (\<lambda>_.
           if a = lastva then kret 0
           else mappages_loop n pagetable (a + 4096) lastva (pa + 4096) perm)))"

definition mappages :: "nat \<Rightarrow> uint64 \<Rightarrow> uint64 \<Rightarrow> uint64 \<Rightarrow> uint64 \<Rightarrow> ('a kmem_scheme, int) kfun" where
  "mappages pagetable va sz pa perm =
     (if va mod 4096 \<noteq> 0 then kpanic ''mappages: va not aligned''
      else if sz mod 4096 \<noteq> 0 then kpanic ''mappages: size not aligned''
      else if sz = 0 then kpanic ''mappages: size''
      else mappages_loop (unat sz div PGSIZE) pagetable va (va + sz - 4096) pa perm)"

definition kvmmap :: "nat \<Rightarrow> uint64 \<Rightarrow> uint64 \<Rightarrow> uint64 \<Rightarrow> uint64 \<Rightarrow> ('a kmem_scheme, unit) kfun" where
  "kvmmap kpgtbl va pa sz perm =
     kbind (mappages kpgtbl va sz pa perm) (\<lambda>r. if r \<noteq> 0 then kpanic ''kvmmap'' else kret ())"

fun uvmunmap_loop :: "nat \<Rightarrow> nat \<Rightarrow> uint64 \<Rightarrow> uint64 \<Rightarrow> bool \<Rightarrow> ('a kmem_scheme, unit) kfun" where
  "uvmunmap_loop 0 pagetable a end_va do_free = kret ()"
| "uvmunmap_loop (Suc n) pagetable a end_va do_free =
     (if \<not> a < end_va then kret ()
      else kbind (walk pagetable a False) (\<lambda>pte.
        if pte = 0 then kpanic ''uvmunmap: walk''
        else kbind (get_pte pte) (\<lambda>e.
          if e AND PTE_V = 0 then kpanic ''uvmunmap: not mapped''
          else if PTE_FLAGS e = PTE_V then kpanic ''uvmunmap: not a leaf''
          else kbind (if do_free then kfree (unat (PTE2PA e)) else kret ()) (\<lambda>_.
            kbind (set_pte pte 0) (\<lambda>_.
              uvmunmap_loop n pagetable (a + 4096) end_va do_free)))))"

definition uvmunmap :: "nat \<Rightarrow> uint64 \<Rightarrow> uint64 \<Rightarrow> bool \<Rightarrow> ('a kmem_scheme, unit) kfun" where
  "uvmunmap pagetable va npages do_free =
     (if va mod 4096 \<noteq> 0 then kpanic ''uvmunmap: not aligned''
      else uvmunmap_loop (unat npages) pagetable va (va + npages * 4096) do_free)"

definition memset_page :: "nat \<Rightarrow> uint32 \<Rightarrow> ('a kmem_scheme, unit) kfun" where
  "memset_page a c = kmodify (\<lambda>s. s\<lparr>mem := memset (mem s) a c PGSIZE\<rparr>)"

definition uvmcreate :: "('a kmem_scheme, nat) kfun" where
  "uvmcreate = kbind kalloc (\<lambda>pagetable.
     if pagetable = 0 then kret 0
     else kbind (memset_page pagetable 0) (\<lambda>_. kret pagetable))"

definition uvmfirst :: "nat \<Rightarrow> uint8 list \<Rightarrow> ('a kmem_scheme, unit) kfun" where
  "uvmfirst pagetable src =
     (if length src \<ge> PGSIZE then kpanic ''uvmfirst: more than a page''
      else kbind kalloc (\<lambda>pg.
        if pg = 0 then kpanic ''kerneltrap''
        else kbind (memset_page pg 0) (\<lambda>_.
        kbind (mappages pagetable 0 4096 (of_nat pg) (PTE_W OR PTE_R OR PTE_X OR PTE_U)) (\<lambda>_.
        kmodify (\<lambda>s. s\<lparr>mem := store_bytes (mem s) pg src\<rparr>)))))"

subsection \<open>Growing and shrinking user memory\<close>

definition uvmdealloc :: "nat \<Rightarrow> uint64 \<Rightarrow> uint64 \<Rightarrow> ('a kmem_scheme, uint64) kfun" where
  "uvmdealloc pagetable oldsz newsz =
     (if newsz \<ge> oldsz then kret oldsz
      else kbind
        (if PGROUNDUP newsz < PGROUNDUP oldsz
         then
           let npages = (ucast ((PGROUNDUP oldsz - PGROUNDUP newsz) div 4096) :: uint32)
           in uvmunmap pagetable (PGROUNDUP newsz) (scast npages) True
         else kret ())
        (\<lambda>_. kret newsz))"

fun uvmalloc_loop :: "nat \<Rightarrow> nat \<Rightarrow> uint64 \<Rightarrow> uint64 \<Rightarrow> uint64 \<Rightarrow> uint64 \<Rightarrow> ('a kmem_scheme, uint64) kfun" where
  "uvmalloc_loop 0 pagetable a oldsz newsz xperm = kret newsz"
| "uvmalloc_loop (Suc n) pagetable a oldsz newsz xperm =
     (if \<not> a < newsz then kret newsz
      else kbind kalloc (\<lambda>pg.
        if pg = 0 then kbind (uvmdealloc pagetable a oldsz) (\<lambda>_. kret 0)
        else kbind (memset_page pg 0) (\<lambda>_.
          kbind (mappages pagetable a 4096 (of_nat pg) (PTE_R OR PTE_U OR xperm)) (\<lambda>r.
            if r \<noteq> 0
            then kbind (kfree pg) (\<lambda>_. kbind (uvmdealloc pagetable a oldsz) (\<lambda>_. kret 0))
            else uvmalloc_loop n pagetable (a + 4096) oldsz newsz xperm))))"

definition uvmalloc :: "nat \<Rightarrow> uint64 \<Rightarrow> uint64 \<Rightarrow> uint64 \<Rightarrow> ('a kmem_scheme, uint64) kfun" where
  "uvmalloc pagetable oldsz newsz xperm =
     (if newsz < oldsz then kret oldsz
      else
        let oldsz' = PGROUNDUP oldsz
        in uvmalloc_loop ((unat newsz - unat oldsz' + 4095) div 4096) pagetable oldsz' oldsz' newsz xperm)"

subsection \<open>Freeing an address space\<close>

primrec freewalk :: "nat \<Rightarrow> nat \<Rightarrow> ('a kmem_scheme, unit) kfun" where
  "freewalk 0 pagetable = kpanic ''freewalk: fuel''"
| "freewalk (Suc depth) pagetable =
     kbind (kforeach [0..<512] (\<lambda>i.
       kbind (get_pte (pagetable + 8 * i)) (\<lambda>pte.
         if pte AND PTE_V \<noteq> 0 \<and> pte AND (PTE_R OR PTE_W OR PTE_X) = 0
         then kbind (freewalk depth (unat (PTE2PA pte))) (\<lambda>_. set_pte (pagetable + 8 * i) 0)
         else if pte AND PTE_V \<noteq> 0 then kpanic ''freewalk: leaf''
         else kret ())))
     (\<lambda>_. kfree pagetable)"

definition uvmfree :: "nat \<Rightarrow> uint64 \<Rightarrow> ('a kmem_scheme, unit) kfun" where
  "uvmfree pagetable sz =
     kbind (if sz > 0 then uvmunmap pagetable 0 (PGROUNDUP sz div 4096) True else kret ())
     (\<lambda>_. freewalk 3 pagetable)"

subsection \<open>Copying an address space\<close>

fun uvmcopy_loop :: "nat \<Rightarrow> nat \<Rightarrow> nat \<Rightarrow> uint64 \<Rightarrow> uint64 \<Rightarrow> ('a kmem_scheme, int) kfun" where
  "uvmcopy_loop 0 old new i sz = kret 0"
| "uvmcopy_loop (Suc n) old new i sz =
     (if \<not> i < sz then kret 0
      else kbind (walk old i False) (\<lambda>pte.
        if pte = 0 then kpanic ''uvmcopy: pte should exist''
        else kbind (get_pte pte) (\<lambda>e.
          if e AND PTE_V = 0 then kpanic ''uvmcopy: page not present''
          else
            let pa = PTE2PA e; flags = PTE_FLAGS e;
                err = kbind (uvmunmap new 0 (i div 4096) True) (\<lambda>_. kret (-1))
            in kbind kalloc (\<lambda>pg.
              if pg = 0 then err
              else kbind (kmodify (\<lambda>s. s\<lparr>mem := memmove (mem s) pg (unat pa) PGSIZE\<rparr>)) (\<lambda>_.
                kbind (mappages new i 4096 (of_nat pg) flags) (\<lambda>r.
                  if r \<noteq> 0 then kbind (kfree pg) (\<lambda>_. err)
                  else uvmcopy_loop n old new (i + 4096) sz))))))"

definition uvmcopy :: "nat \<Rightarrow> nat \<Rightarrow> uint64 \<Rightarrow> ('a kmem_scheme, int) kfun" where
  "uvmcopy old new sz = uvmcopy_loop ((unat sz + 4095) div 4096) old new 0 sz"

definition uvmclear :: "nat \<Rightarrow> uint64 \<Rightarrow> ('a kmem_scheme, unit) kfun" where
  "uvmclear pagetable va = kbind (walk pagetable va False) (\<lambda>pte.
     if pte = 0 then kpanic ''uvmclear''
     else kbind (get_pte pte) (\<lambda>e. set_pte pte (e AND NOT PTE_U)))"

subsection \<open>Moving data between kernel and user memory\<close>

definition page_room :: "uint64 \<Rightarrow> nat" where
  "page_room va = unat (4096 - (va - PGROUNDDOWN va))"

fun copyout_loop :: "nat \<Rightarrow> nat \<Rightarrow> uint64 \<Rightarrow> uint8 list \<Rightarrow> ('a kmem_scheme, int) kfun" where
  "copyout_loop 0 pagetable dstva src = kret 0"
| "copyout_loop (Suc k) pagetable dstva src =
     (if src = [] then kret 0
      else
        let va0 = PGROUNDDOWN dstva
        in if va0 \<ge> MAXVA then kret (-1)
           else kbind (walk pagetable va0 False) (\<lambda>pte.
             kbind (get_pte pte) (\<lambda>e.
               if pte = 0 \<or> e AND PTE_V = 0 \<or> e AND PTE_U = 0 \<or> e AND PTE_W = 0 then kret (-1)
               else
                 let pa0 = PTE2PA e; n = min (page_room dstva) (length src)
                 in kbind (kmodify (\<lambda>s. s\<lparr>mem := store_bytes (mem s) (unat pa0 + unat (dstva - va0))
                      (take n src)\<rparr>)) (\<lambda>_.
                    copyout_loop k pagetable (va0 + 4096) (drop n src)))))"

definition copyout :: "nat \<Rightarrow> uint64 \<Rightarrow> uint8 list \<Rightarrow> ('a kmem_scheme, int) kfun" where
  "copyout pagetable dstva src = copyout_loop (length src) pagetable dstva src"

fun copyin_loop :: "nat \<Rightarrow> nat \<Rightarrow> uint64 \<Rightarrow> nat \<Rightarrow> ('a kmem_scheme, int \<times> uint8 list) kfun" where
  "copyin_loop 0 pagetable srcva len = kret (0, [])"
| "copyin_loop (Suc k) pagetable srcva len =
     (if len = 0 then kret (0, [])
      else
        let va0 = PGROUNDDOWN srcva
        in kbind (walkaddr pagetable va0) (\<lambda>pa0.
             if pa0 = 0 then kret (-1, [])
             else
               let n = min (page_room srcva) len
               in kbind (kget (\<lambda>s. load_bytes (mem s) (unat pa0 + unat (srcva - va0)) n)) (\<lambda>bs.
                    kbind (copyin_loop k pagetable (va0 + 4096) (len - n)) (\<lambda>(r, rest).
                      kret (r, bs @ rest)))))"

definition copyin :: "nat \<Rightarrow> uint64 \<Rightarrow> nat \<Rightarrow> ('a kmem_scheme, int \<times> uint8 list) kfun" where
  "copyin pagetable srcva len = copyin_loop len pagetable srcva len"

fun copystr_page :: "memory \<Rightarrow> nat \<Rightarrow> nat \<Rightarrow> uint8 list \<times> bool" where
  "copystr_page m p 0 = ([], False)"
| "copystr_page m p (Suc n) =
     (if m p = 0 then ([0], True)
      else let (bs, got) = copystr_page m (p + 1) n in (m p # bs, got))"

fun copyinstr_loop :: "nat \<Rightarrow> nat \<Rightarrow> uint64 \<Rightarrow> nat \<Rightarrow> ('a kmem_scheme, int \<times> uint8 list) kfun" where
  "copyinstr_loop 0 pagetable srcva mx = kret (-1, [])"
| "copyinstr_loop (Suc k) pagetable srcva mx =
     (if mx = 0 then kret (-1, [])
      else
        let va0 = PGROUNDDOWN srcva
        in kbind (walkaddr pagetable va0) (\<lambda>pa0.
             if pa0 = 0 then kret (-1, [])
             else
               let n = min (page_room srcva) mx
               in kbind (kget (\<lambda>s. copystr_page (mem s) (unat pa0 + unat (srcva - va0)) n)) (\<lambda>(bs, got).
                    if got then kret (0, bs)
                    else kbind (copyinstr_loop k pagetable (va0 + 4096) (mx - n)) (\<lambda>(r, rest).
                      kret (r, bs @ rest)))))"

definition copyinstr :: "nat \<Rightarrow> uint64 \<Rightarrow> nat \<Rightarrow> ('a kmem_scheme, int \<times> uint8 list) kfun" where
  "copyinstr pagetable srcva mx = copyinstr_loop mx pagetable srcva mx"

subsection \<open>Copies with arbitrary user addresses\<close>

text \<open>
  The routines that take addresses from user programs always return: a walk that does not
  allocate changes nothing, and addresses beyond \<^verbatim>\<open>MAXVA\<close> are refused before \<^verbatim>\<open>walk\<close> would
  panic.
\<close>

lemma walk_level_lookup: "\<exists>pte. walk_level l pt va False s = Ok pte s"
  by (induction l arbitrary: pt) (simp_all add: Let_def)

lemma walk_lookup: "va < MAXVA \<Longrightarrow> \<exists>pte. walk pt va False s = Ok pte s"
  using walk_level_lookup [of 2 pt va s] by (simp add: walk_def not_le)

lemma walkaddr_total: "\<exists>pa. walkaddr pt va s = Ok pa s"
proof (cases "va \<ge> MAXVA")
  case False
  then obtain pte where "walk pt va False s = Ok pte s" using walk_lookup [of va pt s] by (auto simp: not_le)
  then show ?thesis using False by (simp add: walkaddr_def get_pte_def kbind_apply)
qed (simp add: walkaddr_def)

lemma unat_page_offset: "unat (va - PGROUNDDOWN va) = unat va mod 4096"
proof -
  have "PGROUNDDOWN va \<le> va" by (simp add: word_le_nat_alt unat_PGROUNDDOWN)
  then show ?thesis by (simp add: unat_sub unat_PGROUNDDOWN modulo_nat_def)
qed

lemma page_room_eq: "page_room va = 4096 - unat va mod 4096"
proof -
  have "va - PGROUNDDOWN va \<le> 4096" by (simp add: word_le_nat_alt unat_page_offset order_less_imp_le)
  then show ?thesis by (simp add: page_room_def unat_sub unat_page_offset)
qed

lemma page_room_pos: "0 < page_room va"
  by (simp add: page_room_eq)

lemma copyin_loop_total:
  "len \<le> k \<Longrightarrow> \<exists>r bs. copyin_loop k pt va len s = Ok (r, bs) s \<and> (r = 0 \<and> length bs = len \<or> r = -1 \<and> length bs < len)"
proof (induction k arbitrary: va len)
  case (Suc k)
  show ?case
  proof (cases "len = 0")
    case False
    let ?n = "min (page_room va) len"
    obtain pa where pa: "walkaddr pt (PGROUNDDOWN va) s = Ok pa s" using walkaddr_total by blast
    have n: "0 < ?n" "?n \<le> len" using False page_room_pos by auto
    then have "len - ?n \<le> k" using Suc.prems by linarith
    then obtain r bs where "copyin_loop k pt (PGROUNDDOWN va + 4096) (len - ?n) s = Ok (r, bs) s"
      "r = 0 \<and> length bs = len - ?n \<or> r = -1 \<and> length bs < len - ?n" using Suc.IH by blast
    then show ?thesis using False pa n by (auto simp: Let_def kbind_apply)
  qed simp
qed simp

lemma copyin_total:
  "\<exists>r bs. copyin pt va len s = Ok (r, bs) s \<and> (r = 0 \<and> length bs = len \<or> r = -1 \<and> length bs < len)"
  unfolding copyin_def by (rule copyin_loop_total) simp

lemma copyinstr_loop_total:
  "\<exists>r bs. copyinstr_loop k pt va mx s = Ok (r, bs) s \<and> (r = 0 \<and> bs \<noteq> [] \<and> length bs \<le> mx \<and>
      last bs = 0 \<and> 0 \<notin> set (butlast bs) \<or> r = -1 \<and> length bs \<le> mx)"
proof (induction k arbitrary: va mx)
  case (Suc k)
  have page: "length bs \<le> n \<and> (if got then bs \<noteq> [] \<and> last bs = 0 \<and> 0 \<notin> set (butlast bs) else 0 \<notin> set bs)"
    if "copystr_page m p n = (bs, got)" for m p n bs got
    using that by (induction m p n arbitrary: bs got rule: copystr_page.induct)
      (auto split: if_splits prod.splits)
  show ?case
  proof (cases "mx = 0")
    case False
    let ?n = "min (page_room va) mx"
    obtain pa where pa: "walkaddr pt (PGROUNDDOWN va) s = Ok pa s" using walkaddr_total by blast
    obtain bs got where c: "copystr_page (mem s) (unat pa + unat (va - PGROUNDDOWN va)) ?n = (bs, got)"
      by (cases "copystr_page (mem s) (unat pa + unat (va - PGROUNDDOWN va)) ?n")
    obtain r rest where r: "copyinstr_loop k pt (PGROUNDDOWN va + 4096) (mx - ?n) s = Ok (r, rest) s"
      "r = 0 \<and> rest \<noteq> [] \<and> length rest \<le> mx - ?n \<and> last rest = 0 \<and> 0 \<notin> set (butlast rest) \<or>
       r = -1 \<and> length rest \<le> mx - ?n" using Suc.IH by blast
    show ?thesis
      using False pa c r page [OF c]
      by (cases "pa = 0"; cases got) (auto simp: Let_def kbind_apply butlast_append)
  qed simp
qed simp

lemma copyout_loop_total:
  "length src \<le> k \<Longrightarrow> \<exists>r m. copyout_loop k pt va src s = Ok r (s\<lparr>mem := m\<rparr>) \<and> (r = 0 \<or> r = -1)"
proof (induction k arbitrary: va src s)
  case (Suc k)
  show ?case
  proof (cases "src = [] \<or> PGROUNDDOWN va \<ge> MAXVA")
    case False
    let ?n = "min (page_room va) (length src)"
    obtain pte where pte: "walk pt (PGROUNDDOWN va) False s = Ok pte s"
      using walk_lookup False by (meson not_le)
    have "length (drop ?n src) \<le> k" using Suc.prems page_room_pos [of va] False
      by (cases src) (auto simp: min_def)
    from Suc.IH [OF this, of "PGROUNDDOWN va + 4096" "s\<lparr>mem := store_bytes (mem s)
        (unat (PTE2PA (load64 (mem s) pte)) + unat (va - PGROUNDDOWN va)) (take ?n src)\<rparr>"]
    show ?thesis using False pte
      by (auto simp: Let_def kbind_apply get_pte_def intro: exI [of _ "mem s"])
  qed (auto simp: Let_def intro: exI [of _ "mem s"])
next
  case 0
  then show ?case by (auto intro: exI [of _ "mem s"])
qed

text \<open>
  C22: reading a string, reading bytes and writing bytes at any user addresses whatever, in any
  page table, always return 0 or -1 without a panic; the reads leave the kernel state as it is,
  a successful read delivers all the bytes asked for, or a string terminated within the limit.
\<close>

theorem user_copies_return:
  "(\<exists>r bs. copyin pt va len s = Ok (r, bs) s \<and> (r = 0 \<and> length bs = len \<or> r = -1)) \<and>
    (\<exists>r bs. copyinstr pt va mx s = Ok (r, bs) s \<and>
      (r = 0 \<and> length bs \<le> mx \<and> bs \<noteq> [] \<and> last bs = 0 \<and> 0 \<notin> set (butlast bs) \<or> r = -1)) \<and>
    (\<exists>r m. copyout pt va src s = Ok r (s\<lparr>mem := m\<rparr>) \<and> (r = 0 \<or> r = -1))"
proof (intro conjI)
  show "\<exists>r bs. copyin pt va len s = Ok (r, bs) s \<and> (r = 0 \<and> length bs = len \<or> r = -1)"
    using copyin_total [of pt va len s] by auto
  show "\<exists>r bs. copyinstr pt va mx s = Ok (r, bs) s \<and>
      (r = 0 \<and> length bs \<le> mx \<and> bs \<noteq> [] \<and> last bs = 0 \<and> 0 \<notin> set (butlast bs) \<or> r = -1)"
    using copyinstr_loop_total [of mx pt va mx s] by (auto simp: copyinstr_def)
  show "\<exists>r m. copyout pt va src s = Ok r (s\<lparr>mem := m\<rparr>) \<and> (r = 0 \<or> r = -1)"
    using copyout_loop_total [of src "length src"] by (simp add: copyout_def)
qed

end
