(* ===== verification/Proc.thy ===== *)
theory Proc
  imports Vm
begin

text \<open>
  The process table of \<^verbatim>\<open>kernel/proc.c\<close>: allocation and release of slots and their page
  tables, growing a process, sleeping and waking, killing, waiting for children, and the
  copies between kernel and user memory.  Operations that reach into the file system
  (\<^verbatim>\<open>fork\<close>, \<^verbatim>\<open>exit\<close>, \<^verbatim>\<open>userinit\<close>) are in theory \<open>Proclife\<close>.  Trapframes are read and written
  in physical memory at the offsets of \<^verbatim>\<open>struct trapframe\<close>.  A null process pointer that
  the code dereferences traps in the kernel, which panics.
\<close>

datatype procstate = UNUSED | USED | SLEEPING | RUNNABLE | RUNNING | ZOMBIE

record pcontext =
  ctx_ra :: uint64
  ctx_sp :: uint64
  ctx_s :: "uint64 list"

record proc =
  p_state :: procstate
  p_chan :: chan
  p_killed :: bool
  p_xstate :: int
  p_pid :: int
  p_parent :: "nat option"
  p_kstack :: uint64
  p_sz :: uint64
  p_pagetable :: nat
  p_trapframe :: nat
  p_context :: pcontext
  p_ofile :: "nat option list"
  p_cwd :: "nat option"
  p_name :: "uint8 list"

text \<open>
  \<open>curproc\<close> is \<^verbatim>\<open>mycpu()->proc\<close> of the processor that executes the code, \<open>trampoline\<close> and
  \<open>forkret_pc\<close> are the addresses of the symbols of those names, and \<open>kmsg\<close> is the sequence of
  characters handed to the UART's transmit register so far.
\<close>

record kproc = kmem +
  procs :: "proc list"
  nextpid :: int
  initproc :: "nat option"
  curproc :: "nat option"
  trampoline :: nat
  forkret_pc :: uint64
  kmsg :: string

subsection \<open>Access to the table\<close>

definition null_deref :: "('s, 'a) kfun" where
  "null_deref = kpanic ''kerneltrap''"

definition get_proc :: "nat \<Rightarrow> ('a kproc_scheme, proc) kfun" where
  "get_proc i = kget (\<lambda>s. procs s ! i)"

definition upd_proc :: "nat \<Rightarrow> (proc \<Rightarrow> proc) \<Rightarrow> ('a kproc_scheme, unit) kfun" where
  "upd_proc i f = kmodify (\<lambda>s. s\<lparr>procs := (procs s)[i := f (procs s ! i)]\<rparr>)"

definition myproc :: "('a kproc_scheme, nat) kfun" where
  "myproc = kbind (kget curproc) (\<lambda>c. case c of Some i \<Rightarrow> kret i | None \<Rightarrow> null_deref)"

definition kprint :: "string \<Rightarrow> ('a kproc_scheme, unit) kfun" where
  "kprint msg = kmodify (\<lambda>s. s\<lparr>kmsg := kmsg s @ msg\<rparr>)"

subsection \<open>Initialisation\<close>

definition proc_mapstacks :: "nat \<Rightarrow> ('a kproc_scheme, unit) kfun" where
  "proc_mapstacks kpgtbl = kforeach [0..<NPROC] (\<lambda>i.
     kbind kalloc (\<lambda>pa.
       if pa = 0 then kpanic ''kalloc''
       else kvmmap kpgtbl (KSTACK i) (of_nat pa) 4096 (PTE_R OR PTE_W)))"

definition procinit :: "('a kproc_scheme, unit) kfun" where
  "procinit = kforeach [0..<NPROC] (\<lambda>i.
     upd_proc i (\<lambda>p. p\<lparr>p_state := UNUSED, p_kstack := KSTACK i\<rparr>))"

subsection \<open>Allocating and freeing a process\<close>

definition allocpid :: "('a kproc_scheme, int) kfun" where
  "allocpid = kbind (kget nextpid) (\<lambda>p.
     kbind (kmodify (\<lambda>s. s\<lparr>nextpid := nextpid s + 1\<rparr>)) (\<lambda>_. kret p))"

definition proc_pagetable :: "nat \<Rightarrow> ('a kproc_scheme, nat) kfun" where
  "proc_pagetable i = kbind uvmcreate (\<lambda>pagetable.
     if pagetable = 0 then kret 0
     else kbind (kget trampoline) (\<lambda>tr.
       kbind (mappages pagetable TRAMPOLINE 4096 (of_nat tr) (PTE_R OR PTE_X)) (\<lambda>r.
       if r < 0 then kbind (uvmfree pagetable 0) (\<lambda>_. kret 0)
       else kbind (get_proc i) (\<lambda>p.
         kbind (mappages pagetable TRAPFRAME 4096 (of_nat (p_trapframe p)) (PTE_R OR PTE_W)) (\<lambda>r2.
         if r2 < 0 then
           kbind (uvmunmap pagetable TRAMPOLINE 1 False) (\<lambda>_.
           kbind (uvmfree pagetable 0) (\<lambda>_. kret 0))
         else kret pagetable)))))"

definition proc_freepagetable :: "nat \<Rightarrow> uint64 \<Rightarrow> ('a kproc_scheme, unit) kfun" where
  "proc_freepagetable pagetable sz =
     kbind (uvmunmap pagetable TRAMPOLINE 1 False) (\<lambda>_.
     kbind (uvmunmap pagetable TRAPFRAME 1 False) (\<lambda>_.
     uvmfree pagetable sz))"

definition freeproc :: "nat \<Rightarrow> ('a kproc_scheme, unit) kfun" where
  "freeproc i =
     kbind (get_proc i) (\<lambda>p.
     kbind (if p_trapframe p \<noteq> 0 then kfree (p_trapframe p) else kret ()) (\<lambda>_.
     kbind (upd_proc i (\<lambda>p. p\<lparr>p_trapframe := 0\<rparr>)) (\<lambda>_.
     kbind (if p_pagetable p \<noteq> 0 then proc_freepagetable (p_pagetable p) (p_sz p) else kret ()) (\<lambda>_.
     upd_proc i (\<lambda>p. p\<lparr>p_pagetable := 0, p_sz := 0, p_pid := 0, p_parent := None,
       p_name := (p_name p)[0 := 0], p_chan := ChNull, p_killed := False, p_xstate := 0,
       p_state := UNUSED\<rparr>)))))"

definition find_unused :: "proc list \<Rightarrow> nat option" where
  "find_unused ps = find (\<lambda>i. p_state (ps ! i) = UNUSED) [0..<NPROC]"

definition allocproc :: "('a kproc_scheme, nat option) kfun" where
  "allocproc = kbind (kget (\<lambda>s. find_unused (procs s))) (\<lambda>slot.
     case slot of
       None \<Rightarrow> kret None
     | Some i \<Rightarrow>
         kbind allocpid (\<lambda>pid.
         kbind (upd_proc i (\<lambda>p. p\<lparr>p_pid := pid, p_state := USED\<rparr>)) (\<lambda>_.
         kbind kalloc (\<lambda>tf.
         kbind (upd_proc i (\<lambda>p. p\<lparr>p_trapframe := tf\<rparr>)) (\<lambda>_.
         if tf = 0 then kbind (freeproc i) (\<lambda>_. kret None)
         else kbind (proc_pagetable i) (\<lambda>pt.
           kbind (upd_proc i (\<lambda>p. p\<lparr>p_pagetable := pt\<rparr>)) (\<lambda>_.
           if pt = 0 then kbind (freeproc i) (\<lambda>_. kret None)
           else kbind (kget forkret_pc) (\<lambda>pc.
             kbind (upd_proc i (\<lambda>p. p\<lparr>p_context :=
               \<lparr>ctx_ra = pc, ctx_sp = p_kstack p + 4096, ctx_s = replicate 12 0\<rparr>\<rparr>)) (\<lambda>_.
             kret (Some i))))))))))"

definition growproc :: "int \<Rightarrow> ('a kproc_scheme, int) kfun" where
  "growproc n = kbind myproc (\<lambda>i. kbind (get_proc i) (\<lambda>p.
     if n > 0 then
       kbind (uvmalloc (p_pagetable p) (p_sz p) (p_sz p + word_of_int n) PTE_W) (\<lambda>sz.
         if sz = 0 then kret (-1)
         else kbind (upd_proc i (\<lambda>p. p\<lparr>p_sz := sz\<rparr>)) (\<lambda>_. kret 0))
     else if n < 0 then
       kbind (uvmdealloc (p_pagetable p) (p_sz p) (p_sz p + word_of_int n)) (\<lambda>sz.
         kbind (upd_proc i (\<lambda>p. p\<lparr>p_sz := sz\<rparr>)) (\<lambda>_. kret 0))
     else kret 0))"

subsection \<open>Sleeping, waking, killing\<close>

text \<open>
  \<open>sleep\<close> records the channel, marks the process as sleeping and gives up the processor:
  the outcome is \<open>Blocked\<close>.  Every caller sleeps inside a loop that re-evaluates its condition,
  so resuming a sleeper means running the enclosing operation's loop again.
\<close>

definition sleep :: "chan \<Rightarrow> ('a kproc_scheme, 'b) kfun" where
  "sleep c = kbind myproc (\<lambda>i.
     kbind (upd_proc i (\<lambda>p. p\<lparr>p_chan := c, p_state := SLEEPING\<rparr>)) (\<lambda>_. kblock c))"

definition wake :: "chan \<Rightarrow> proc \<Rightarrow> proc" where
  "wake c p = (if p_state p = SLEEPING \<and> p_chan p = c then p\<lparr>p_state := RUNNABLE\<rparr> else p)"

definition wakeup :: "chan \<Rightarrow> ('a kproc_scheme, unit) kfun" where
  "wakeup c = kforeach [0..<NPROC] (\<lambda>i. kbind (kget curproc) (\<lambda>me.
     if me \<noteq> Some i then upd_proc i (wake c) else kret ()))"

definition kill :: "int \<Rightarrow> ('a kproc_scheme, int) kfun" where
  "kill pid = kbind (kget (\<lambda>s. find (\<lambda>i. p_pid (procs s ! i) = pid) [0..<NPROC])) (\<lambda>v.
     case v of
       None \<Rightarrow> kret (-1)
     | Some i \<Rightarrow> kbind (upd_proc i (\<lambda>p. p\<lparr>p_killed := True,
           p_state := (if p_state p = SLEEPING then RUNNABLE else p_state p)\<rparr>)) (\<lambda>_. kret 0))"

definition setkilled :: "nat \<Rightarrow> ('a kproc_scheme, unit) kfun" where
  "setkilled i = upd_proc i (\<lambda>p. p\<lparr>p_killed := True\<rparr>)"

definition killed :: "nat \<Rightarrow> ('a kproc_scheme, bool) kfun" where
  "killed i = kbind (get_proc i) (\<lambda>p. kret (p_killed p))"

definition yield :: "('a kproc_scheme, unit) kfun" where
  "yield = kbind myproc (\<lambda>i. upd_proc i (\<lambda>p. p\<lparr>p_state := RUNNABLE\<rparr>))"

definition reparent :: "nat \<Rightarrow> ('a kproc_scheme, unit) kfun" where
  "reparent p = kforeach [0..<NPROC] (\<lambda>i. kbind (get_proc i) (\<lambda>pp.
     if p_parent pp = Some p then
       kbind (kget initproc) (\<lambda>ini.
       kbind (upd_proc i (\<lambda>q. q\<lparr>p_parent := ini\<rparr>)) (\<lambda>_.
       wakeup (case ini of Some k \<Rightarrow> ChProc k | None \<Rightarrow> ChNull)))
     else kret ()))"

subsection \<open>Waiting for a child\<close>

fun wait_scan :: "nat \<Rightarrow> uint64 \<Rightarrow> nat list \<Rightarrow> bool \<Rightarrow> ('a kproc_scheme, int option \<times> bool) kfun" where
  "wait_scan me addr [] havekids = kret (None, havekids)"
| "wait_scan me addr (i # is) havekids = kbind (get_proc i) (\<lambda>pp.
     if p_parent pp = Some me then
       if p_state pp = ZOMBIE then
         kbind (if addr \<noteq> 0
                then kbind (get_proc me) (\<lambda>p.
                  copyout (p_pagetable p) addr (le_bytes 4 (word_of_int (p_xstate pp) :: uint32)))
                else kret 0) (\<lambda>r.
           if addr \<noteq> 0 \<and> r < 0 then kret (Some (-1), True)
           else kbind (freeproc i) (\<lambda>_. kret (Some (p_pid pp), True)))
       else wait_scan me addr is True
     else wait_scan me addr is havekids)"

definition wait :: "uint64 \<Rightarrow> ('a kproc_scheme, int) kfun" where
  "wait addr = kbind myproc (\<lambda>me.
     kbind (wait_scan me addr [0..<NPROC] False) (\<lambda>(found, havekids).
       case found of
         Some r \<Rightarrow> kret r
       | None \<Rightarrow> kbind (killed me) (\<lambda>k.
           if \<not> havekids \<or> k then kret (-1) else sleep (ChProc me))))"

subsection \<open>Copies to and from user or kernel memory\<close>

text \<open>
  The destination of a kernel-to-anywhere copy is a user address, a physical address, or
  a kernel object that is not part of the modelled memory; in the last case the caller
  takes the bytes from the result.  Sources are the same, with the bytes given.
\<close>

datatype dest = UserDst uint64 | KernDst nat | ObjDst
datatype source = UserSrc uint64 | ObjSrc "uint8 list"

definition either_copyout :: "dest \<Rightarrow> uint8 list \<Rightarrow> ('a kproc_scheme, int) kfun" where
  "either_copyout d bs = (case d of
       UserDst a \<Rightarrow> kbind myproc (\<lambda>i. kbind (get_proc i) (\<lambda>p. copyout (p_pagetable p) a bs))
     | KernDst a \<Rightarrow> kbind (kmodify (\<lambda>s. s\<lparr>mem := store_bytes (mem s) a bs\<rparr>)) (\<lambda>_. kret 0)
     | ObjDst \<Rightarrow> kret 0)"

definition either_copyin :: "source \<Rightarrow> nat \<Rightarrow> ('a kproc_scheme, int \<times> uint8 list) kfun" where
  "either_copyin src len = (case src of
       UserSrc a \<Rightarrow> kbind myproc (\<lambda>i. kbind (get_proc i) (\<lambda>p. copyin (p_pagetable p) a len))
     | ObjSrc bs \<Rightarrow> kret (0, take len bs))"

definition dest_add :: "dest \<Rightarrow> nat \<Rightarrow> dest" where
  "dest_add d k = (case d of UserDst a \<Rightarrow> UserDst (a + of_nat k) | KernDst a \<Rightarrow> KernDst (a + k) | ObjDst \<Rightarrow> ObjDst)"

definition source_add :: "source \<Rightarrow> nat \<Rightarrow> source" where
  "source_add s k = (case s of UserSrc a \<Rightarrow> UserSrc (a + of_nat k) | ObjSrc bs \<Rightarrow> ObjSrc (drop k bs))"

end
