(* ===== verification/Sleeplock.thy ===== *)
theory Sleeplock
  imports Proc
begin

text \<open>
  Sleep locks, \<^verbatim>\<open>kernel/sleeplock.c\<close>.  A sleep lock is a field of a buffer or of an inode, so
  the operations take the lock's read and update functions on the kernel state, and the
  channel that stands for its address.
\<close>

record sleeplock =
  sl_locked :: bool
  sl_name :: string
  sl_pid :: int

definition initsleeplock :: "string \<Rightarrow> sleeplock" where
  "initsleeplock nm = \<lparr>sl_locked = False, sl_name = nm, sl_pid = 0\<rparr>"

definition mypid :: "('a kproc_scheme, int) kfun" where
  "mypid = kbind myproc (\<lambda>i. kbind (get_proc i) (\<lambda>p. kret (p_pid p)))"

definition acquiresleep :: "chan \<Rightarrow> ('a kproc_scheme \<Rightarrow> sleeplock) \<Rightarrow>
    ((sleeplock \<Rightarrow> sleeplock) \<Rightarrow> 'a kproc_scheme \<Rightarrow> 'a kproc_scheme) \<Rightarrow> ('a kproc_scheme, unit) kfun" where
  "acquiresleep c get upd = kbind (kget get) (\<lambda>lk.
     if sl_locked lk then sleep c
     else kbind mypid (\<lambda>pid. kmodify (upd (\<lambda>lk. lk\<lparr>sl_locked := True, sl_pid := pid\<rparr>))))"

definition releasesleep :: "chan \<Rightarrow>
    ((sleeplock \<Rightarrow> sleeplock) \<Rightarrow> 'a kproc_scheme \<Rightarrow> 'a kproc_scheme) \<Rightarrow> ('a kproc_scheme, unit) kfun" where
  "releasesleep c upd =
     kbind (kmodify (upd (\<lambda>lk. lk\<lparr>sl_locked := False, sl_pid := 0\<rparr>))) (\<lambda>_. wakeup c)"

definition holdingsleep :: "('a kproc_scheme \<Rightarrow> sleeplock) \<Rightarrow> ('a kproc_scheme, bool) kfun" where
  "holdingsleep get = kbind (kget get) (\<lambda>lk.
     if sl_locked lk then kbind mypid (\<lambda>pid. kret (sl_pid lk = pid)) else kret False)"

subsection \<open>What wakeup does to the table\<close>

definition wake_all :: "chan \<Rightarrow> nat option \<Rightarrow> proc list \<Rightarrow> proc list" where
  "wake_all c me ps = map (\<lambda>i. if i < NPROC \<and> me \<noteq> Some i then wake c (ps ! i) else ps ! i) [0..<length ps]"

lemma length_wake_all [simp]: "length (wake_all c me ps) = length ps"
  by (simp add: wake_all_def)

lemma nth_wake_all [simp]: "i < length ps \<Longrightarrow>
    wake_all c me ps ! i = (if i < NPROC \<and> me \<noteq> Some i then wake c (ps ! i) else ps ! i)"
  by (simp add: wake_all_def)

lemma wake_fields [simp]: "p_pid (wake c p) = p_pid p" "p_pagetable (wake c p) = p_pagetable p"
    "p_killed (wake c p) = p_killed p" "p_parent (wake c p) = p_parent p" "p_sz (wake c p) = p_sz p"
    "p_trapframe (wake c p) = p_trapframe p" "p_ofile (wake c p) = p_ofile p" "p_cwd (wake c p) = p_cwd p"
    "p_xstate (wake c p) = p_xstate p" "p_chan (wake c p) = p_chan p" "p_kstack (wake c p) = p_kstack p"
    "p_name (wake c p) = p_name p" "p_context (wake c p) = p_context p"
  by (simp_all add: wake_def)

lemma wakeup_loop:
  "kforeach [0..<n] (\<lambda>i. kbind (kget curproc) (\<lambda>me.
     if me \<noteq> Some i then upd_proc i (wake c) else kret ())) s
   = Ok () (s\<lparr>procs := map (\<lambda>i. if i < n \<and> curproc s \<noteq> Some i then wake c (procs s ! i) else procs s ! i)
       [0..<length (procs s)]\<rparr>)"
proof (induction n)
  case 0
  show ?case by (simp add: map_nth)
next
  case (Suc n)
  define ps where "ps = map (\<lambda>i. if i < n \<and> curproc s \<noteq> Some i then wake c (procs s ! i) else procs s ! i)
       [0..<length (procs s)]"
  have "(if curproc s \<noteq> Some n then ps[n := wake c (ps ! n)] else ps)
      = map (\<lambda>i. if i < Suc n \<and> curproc s \<noteq> Some i then wake c (procs s ! i) else procs s ! i)
          [0..<length (procs s)]"
    by (rule nth_equalityI) (auto simp: ps_def nth_list_update less_Suc_eq)
  with Suc.IH show ?case
    by (auto simp: kforeach_append kbind_apply upd_proc_def ps_def [symmetric])
qed

lemma wakeup_Ok: "wakeup c s = Ok () (s\<lparr>procs := wake_all c (curproc s) (procs s)\<rparr>)"
  unfolding wakeup_def wakeup_loop wake_all_def ..

lemma mypid_eq: "curproc s = Some i \<Longrightarrow> mypid s = Ok (p_pid (procs s ! i)) s"
  by (simp add: mypid_def myproc_def get_proc_def kbind_apply)

subsection \<open>A lock embedded in the kernel state\<close>

text \<open>
  The contract of a lock field: its update function writes the field and leaves the process
  table and the running process alone, and the process table is separate from the field.
\<close>

locale sleeplock_field =
  fixes get :: "'a kproc_scheme \<Rightarrow> sleeplock"
    and upd :: "(sleeplock \<Rightarrow> sleeplock) \<Rightarrow> 'a kproc_scheme \<Rightarrow> 'a kproc_scheme"
    and present :: "'a kproc_scheme \<Rightarrow> bool"
    and c :: chan
  assumes get_upd: "present s \<Longrightarrow> get (upd f s) = f (get s)"
    and present_upd: "present s \<Longrightarrow> present (upd f s)"
    and procs_upd: "procs (upd f s) = procs s"
    and curproc_upd: "curproc (upd f s) = curproc s"
    and get_procs: "get (s\<lparr>procs := ps\<rparr>) = get s"
    and present_procs: "present s \<Longrightarrow> present (s\<lparr>procs := ps\<rparr>)"
begin

lemma acquire_free:
  assumes "curproc s = Some i" "\<not> sl_locked (get s)"
  shows "acquiresleep c get upd s =
    Ok () (upd (\<lambda>lk. lk\<lparr>sl_locked := True, sl_pid := p_pid (procs s ! i)\<rparr>) s)"
  using assms by (simp add: acquiresleep_def kbind_apply mypid_eq)

lemma acquire_taken:
  assumes "curproc s = Some i" "sl_locked (get s)"
  shows "acquiresleep c get upd s =
    Blocked c (s\<lparr>procs := (procs s)[i := (procs s ! i)\<lparr>p_chan := c, p_state := SLEEPING\<rparr>]\<rparr>)"
  using assms by (simp add: acquiresleep_def kbind_apply sleep_def myproc_def upd_proc_def)

lemma holding_eq:
  assumes "curproc s = Some i"
  shows "holdingsleep get s = Ok (sl_locked (get s) \<and> sl_pid (get s) = p_pid (procs s ! i)) s"
  using assms by (simp add: holdingsleep_def kbind_apply mypid_eq)

lemma acquire_then_holding:
  assumes "present s" "curproc s = Some i" "acquiresleep c get upd s = Ok u s'"
  shows "holdingsleep get s' = Ok True s'"
proof -
  have free: "\<not> sl_locked (get s)" using assms acquire_taken by fastforce
  then have "s' = upd (\<lambda>lk. lk\<lparr>sl_locked := True, sl_pid := p_pid (procs s ! i)\<rparr>) s"
    using assms acquire_free [OF assms(2) free] by simp
  then have "curproc s' = Some i" "procs s' = procs s"
      "get s' = (get s)\<lparr>sl_locked := True, sl_pid := p_pid (procs s ! i)\<rparr>"
    using assms(1,2) by (simp_all add: curproc_upd procs_upd get_upd)
  then show ?thesis by (simp add: holding_eq)
qed

lemma release_eq:
  "releasesleep c upd s =
    Ok () ((upd (\<lambda>lk. lk\<lparr>sl_locked := False, sl_pid := 0\<rparr>) s)\<lparr>procs := wake_all c (curproc s) (procs s)\<rparr>)"
  by (simp add: releasesleep_def kbind_apply wakeup_Ok procs_upd curproc_upd)

text \<open>A process asleep on the lock is made runnable by the holder's release.\<close>

lemma release_wakes:
  assumes "present s" "j < length (procs s)" "j < NPROC" "curproc s \<noteq> Some j"
    and "p_state (procs s ! j) = SLEEPING" "p_chan (procs s ! j) = c"
    and "releasesleep c upd s = Ok u s'"
  shows "p_state (procs s' ! j) = RUNNABLE \<and> \<not> sl_locked (get s')"
  using assms by (auto simp: release_eq wake_def get_upd get_procs)

end

end
