(* ===== verification/Bio.thy ===== *)
theory Bio
  imports Sleeplock
begin

text \<open>
  The buffer cache, \<^verbatim>\<open>kernel/bio.c\<close>.  Buffers are indices into a list whose last element
  is the list head \<^verbatim>\<open>bcache.head\<close>, and the least-recently-used list is threaded through
  their \<open>b_prev\<close> and \<open>b_next\<close> fields as in the source.  The disk is a map from block numbers to
  block contents; a transfer through \<^verbatim>\<open>virtio_disk_rw\<close> is one step (the buffer stays locked
  while the driver waits for completion, and the driver ignores \<^verbatim>\<open>b->dev\<close>).  The field
  \<open>dwrites\<close> records the writes in the order the disk receives them.
\<close>

abbreviation (input) BSIZE :: nat where "BSIZE \<equiv> 1024"

type_synonym block = "uint8 list"

record buf =
  b_valid :: bool
  b_disk :: bool
  b_dev :: uint32
  b_blockno :: uint32
  b_lock :: sleeplock
  b_refcnt :: uint32
  b_prev :: nat
  b_next :: nat
  b_data :: block

record kbio = kproc +
  bufs :: "buf list"
  disk :: "uint32 \<Rightarrow> block"
  dwrites :: "(uint32 \<times> block) list"

text \<open>\<open>HEAD\<close> is the index of \<^verbatim>\<open>bcache.head\<close>.\<close>

abbreviation (input) HEAD :: nat where "HEAD \<equiv> 30"

definition set_next :: "nat \<Rightarrow> nat \<Rightarrow> buf list \<Rightarrow> buf list" where
  "set_next b v bs = bs[b := (bs ! b)\<lparr>b_next := v\<rparr>]"

definition set_prev :: "nat \<Rightarrow> nat \<Rightarrow> buf list \<Rightarrow> buf list" where
  "set_prev b v bs = bs[b := (bs ! b)\<lparr>b_prev := v\<rparr>]"

definition upd_buf :: "nat \<Rightarrow> (buf \<Rightarrow> buf) \<Rightarrow> ('a kbio_scheme, unit) kfun" where
  "upd_buf b f = kmodify (\<lambda>s. s\<lparr>bufs := (bufs s)[b := f (bufs s ! b)]\<rparr>)"

definition get_buf :: "nat \<Rightarrow> ('a kbio_scheme, buf) kfun" where
  "get_buf b = kget (\<lambda>s. bufs s ! b)"

definition buf_data :: "nat \<Rightarrow> ('a kbio_scheme, block) kfun" where
  "buf_data b = kget (\<lambda>s. b_data (bufs s ! b))"

definition set_buf_data :: "nat \<Rightarrow> block \<Rightarrow> ('a kbio_scheme, unit) kfun" where
  "set_buf_data b d = upd_buf b (\<lambda>x. x\<lparr>b_data := d\<rparr>)"

subsection \<open>Initialisation\<close>

definition lru_push :: "nat \<Rightarrow> buf list \<Rightarrow> buf list" where
  "lru_push b bs =
     (let bs1 = set_next b (b_next (bs ! HEAD)) bs;
          bs2 = set_prev b HEAD bs1;
          bs3 = set_prev (b_next (bs2 ! HEAD)) b bs2
      in set_next HEAD b bs3)"

definition binit_step :: "nat \<Rightarrow> buf list \<Rightarrow> buf list" where
  "binit_step b bs =
     (let bs1 = set_next b (b_next (bs ! HEAD)) bs;
          bs2 = set_prev b HEAD bs1;
          bs3 = bs2[b := (bs2 ! b)\<lparr>b_lock := initsleeplock ''buffer''\<rparr>];
          bs4 = set_prev (b_next (bs3 ! HEAD)) b bs3
      in set_next HEAD b bs4)"

definition binit :: "('a kbio_scheme, unit) kfun" where
  "binit = kmodify (\<lambda>s. s\<lparr>bufs :=
     fold binit_step [0..<NBUF] (set_next HEAD HEAD (set_prev HEAD HEAD (bufs s)))\<rparr>)"

subsection \<open>The sleep lock of a buffer\<close>

definition buf_lock :: "nat \<Rightarrow> 'a kbio_scheme \<Rightarrow> sleeplock" where
  "buf_lock b s = b_lock (bufs s ! b)"

definition buf_lock_upd :: "nat \<Rightarrow> (sleeplock \<Rightarrow> sleeplock) \<Rightarrow> 'a kbio_scheme \<Rightarrow> 'a kbio_scheme" where
  "buf_lock_upd b f s = s\<lparr>bufs := (bufs s)[b := (bufs s ! b)\<lparr>b_lock := f (b_lock (bufs s ! b))\<rparr>]\<rparr>"

subsection \<open>Looking up and recycling buffers\<close>

text \<open>
  The two scans of \<^verbatim>\<open>bget\<close> follow the list until they are back at the head.  Their first
  argument bounds the number of steps; \<open>scan_next_dlist\<close> and \<open>scan_prev_dlist\<close> below show
  that the bound used is never reached on a well-formed list.
\<close>

fun scan_next :: "nat \<Rightarrow> buf list \<Rightarrow> (buf \<Rightarrow> bool) \<Rightarrow> nat \<Rightarrow> nat option" where
  "scan_next 0 bs P b = None"
| "scan_next (Suc n) bs P b =
     (if b = HEAD then None
      else if P (bs ! b) then Some b
      else scan_next n bs P (b_next (bs ! b)))"

fun scan_prev :: "nat \<Rightarrow> buf list \<Rightarrow> (buf \<Rightarrow> bool) \<Rightarrow> nat \<Rightarrow> nat option" where
  "scan_prev 0 bs P b = None"
| "scan_prev (Suc n) bs P b =
     (if b = HEAD then None
      else if P (bs ! b) then Some b
      else scan_prev n bs P (b_prev (bs ! b)))"

definition bget :: "uint32 \<Rightarrow> uint32 \<Rightarrow> ('a kbio_scheme, nat) kfun" where
  "bget dev blockno = kbind (kget bufs) (\<lambda>bs.
     case scan_next (length bs) bs (\<lambda>b. b_dev b = dev \<and> b_blockno b = blockno) (b_next (bs ! HEAD)) of
       Some b \<Rightarrow>
         kbind (upd_buf b (\<lambda>x. x\<lparr>b_refcnt := b_refcnt x + 1\<rparr>)) (\<lambda>_.
         kbind (acquiresleep (ChBufLock b) (buf_lock b) (buf_lock_upd b)) (\<lambda>_. kret b))
     | None \<Rightarrow>
         (case scan_prev (length bs) bs (\<lambda>b. b_refcnt b = 0) (b_prev (bs ! HEAD)) of
            Some b \<Rightarrow>
              kbind (upd_buf b (\<lambda>x. x\<lparr>b_dev := dev, b_blockno := blockno, b_valid := False, b_refcnt := 1\<rparr>)) (\<lambda>_.
              kbind (acquiresleep (ChBufLock b) (buf_lock b) (buf_lock_upd b)) (\<lambda>_. kret b))
          | None \<Rightarrow> kpanic ''bget: no buffers''))"

subsection \<open>Transfers\<close>

definition disk_rw :: "nat \<Rightarrow> bool \<Rightarrow> ('a kbio_scheme, unit) kfun" where
  "disk_rw b wr = (if wr
     then kmodify (\<lambda>s. let x = bufs s ! b in
       s\<lparr>disk := (disk s)(b_blockno x := b_data x), dwrites := dwrites s @ [(b_blockno x, b_data x)]\<rparr>)
     else kmodify (\<lambda>s. s\<lparr>bufs := (bufs s)[b := (bufs s ! b)\<lparr>b_data := disk s (b_blockno (bufs s ! b))\<rparr>]\<rparr>))"

definition bread :: "uint32 \<Rightarrow> uint32 \<Rightarrow> ('a kbio_scheme, nat) kfun" where
  "bread dev blockno = kbind (bget dev blockno) (\<lambda>b.
     kbind (get_buf b) (\<lambda>x.
     kbind (if \<not> b_valid x then kbind (disk_rw b False) (\<lambda>_. upd_buf b (\<lambda>x. x\<lparr>b_valid := True\<rparr>))
            else kret ()) (\<lambda>_. kret b)))"

definition bwrite :: "nat \<Rightarrow> ('a kbio_scheme, unit) kfun" where
  "bwrite b = kbind (holdingsleep (buf_lock b)) (\<lambda>h.
     if \<not> h then kpanic ''bwrite'' else disk_rw b True)"

definition lru_move_front :: "nat \<Rightarrow> buf list \<Rightarrow> buf list" where
  "lru_move_front b bs =
     (let bs1 = set_prev (b_next (bs ! b)) (b_prev (bs ! b)) bs;
          bs2 = set_next (b_prev (bs1 ! b)) (b_next (bs1 ! b)) bs1
      in lru_push b bs2)"

definition brelse :: "nat \<Rightarrow> ('a kbio_scheme, unit) kfun" where
  "brelse b = kbind (holdingsleep (buf_lock b)) (\<lambda>h.
     if \<not> h then kpanic ''brelse''
     else kbind (releasesleep (ChBufLock b) (buf_lock_upd b)) (\<lambda>_.
       kbind (upd_buf b (\<lambda>x. x\<lparr>b_refcnt := b_refcnt x - 1\<rparr>)) (\<lambda>_.
       kbind (get_buf b) (\<lambda>x.
         if b_refcnt x = 0 then kmodify (\<lambda>s. s\<lparr>bufs := lru_move_front b (bufs s)\<rparr>) else kret ()))))"

definition bpin :: "nat \<Rightarrow> ('a kbio_scheme, unit) kfun" where
  "bpin b = upd_buf b (\<lambda>x. x\<lparr>b_refcnt := b_refcnt x + 1\<rparr>)"

definition bunpin :: "nat \<Rightarrow> ('a kbio_scheme, unit) kfun" where
  "bunpin b = upd_buf b (\<lambda>x. x\<lparr>b_refcnt := b_refcnt x - 1\<rparr>)"

interpretation bl: sleeplock_field "buf_lock b" "buf_lock_upd b" "\<lambda>s. b < length (bufs s)" "ChBufLock b"
  by unfold_locales (simp_all add: buf_lock_def buf_lock_upd_def)

subsection \<open>The list of buffers in order of use\<close>

text \<open>
  \<open>seg nx pv x xs z\<close>: following \<open>nx\<close> from \<open>x\<close> visits \<open>xs\<close> and then \<open>z\<close>, and \<open>pv\<close> leads back.
\<close>

fun seg :: "(nat \<Rightarrow> nat) \<Rightarrow> (nat \<Rightarrow> nat) \<Rightarrow> nat \<Rightarrow> nat list \<Rightarrow> nat \<Rightarrow> bool" where
  "seg nx pv x [] z \<longleftrightarrow> nx x = z \<and> pv z = x"
| "seg nx pv x (y # ys) z \<longleftrightarrow> nx x = y \<and> pv y = x \<and> seg nx pv y ys z"

lemma seg_append: "seg nx pv x (ys @ b # zs) z \<longleftrightarrow> seg nx pv x ys b \<and> seg nx pv b zs z"
  by (induction ys arbitrary: x) auto

lemma seg_rev: "seg nx pv x xs z \<longleftrightarrow> seg pv nx z (rev xs) x"
  by (induction xs arbitrary: x) (auto simp: seg_append)

lemma seg_first: "seg nx pv x xs z \<Longrightarrow> nx x \<in> set (xs @ [z])"
  by (cases xs) auto

lemma seg_last: "seg nx pv x xs z \<Longrightarrow> pv z \<in> set (x # xs)"
  by (induction xs arbitrary: x) auto

lemma seg_frame:
  "seg nx pv x xs z \<Longrightarrow> a \<notin> set (x # xs) \<Longrightarrow> b \<notin> set (z # xs) \<Longrightarrow> seg (nx(a := u)) (pv(b := v)) x xs z"
  by (induction xs arbitrary: x) auto

lemma seg_unlink:
  assumes "seg nx pv x (ys @ b # zs) z" "distinct (x # ys @ b # zs)" "z \<notin> set (ys @ b # zs)"
  shows "seg (nx(pv b := nx b)) (pv(nx b := pv b)) x (ys @ zs) z"
  using assms
proof (induction ys arbitrary: x)
  case Nil
  then show ?case
  proof (cases zs)
    case (Cons c cs)
    with Nil have "seg nx pv c cs z" by simp
    then have "seg (nx(x := c)) (pv(c := x)) c cs z" by (rule seg_frame) (use Nil Cons in auto)
    with Nil Cons show ?thesis by (simp add: fun_upd_def)
  qed auto
next
  case (Cons y ys)
  have "y \<noteq> nx b"
  proof -
    have "seg nx pv b zs z" using Cons.prems(1) by (simp add: seg_append)
    then have "nx b \<in> set (zs @ [z])" by (rule seg_first)
    with Cons.prems(2,3) show ?thesis by auto
  qed
  moreover have "pv b \<noteq> x"
  proof -
    have "seg nx pv y ys b" using Cons.prems(1) by (simp add: seg_append)
    then have "pv b \<in> set (y # ys)" by (rule seg_last)
    with Cons.prems(2) show ?thesis by auto
  qed
  ultimately show ?case using Cons.prems Cons.IH [of y] by (auto simp: fun_upd_def)
qed

lemma seg_push:
  assumes "seg nx pv h xs h" "b \<notin> set (h # xs)" "distinct xs" "h \<notin> set xs"
  shows "seg (nx(b := nx h, h := b)) (pv(b := h, nx h := b)) h (b # xs) h"
proof (cases xs)
  case Nil
  with assms show ?thesis by auto
next
  case (Cons y ys)
  then have "seg nx pv y ys h" using assms by simp
  then have "seg (nx(b := y)) (pv(b := h)) y ys h" by (rule seg_frame) (use assms Cons in auto)
  then have "seg (nx(b := y, h := b)) (pv(b := h, y := b)) y ys h" by (rule seg_frame) (use assms Cons in auto)
  moreover have "nx h = y" using assms Cons by simp
  moreover have "b \<noteq> h" "b \<noteq> y" "h \<noteq> y" using assms Cons by auto
  ultimately show ?thesis unfolding Cons seg.simps by (intro conjI) (auto simp only: fun_upd_apply simp_thms if_True if_False split: if_split)
qed

definition dlist :: "buf list \<Rightarrow> nat list \<Rightarrow> bool" where
  "dlist bs xs \<longleftrightarrow> distinct xs \<and> HEAD \<notin> set xs \<and> (\<forall>x \<in> set (HEAD # xs). x < length bs) \<and>
     seg (\<lambda>i. b_next (bs ! i)) (\<lambda>i. b_prev (bs ! i)) HEAD xs HEAD"

lemma length_set_links [simp]: "length (set_next b v bs) = length bs" "length (set_prev b v bs) = length bs"
  by (simp_all add: set_next_def set_prev_def)

lemma links_set_next [simp]:
  "b < length bs \<Longrightarrow> b_next (set_next b v bs ! i) = (if i = b then v else b_next (bs ! i))"
  by (simp add: set_next_def nth_list_update)

lemma prev_set_next [simp]: "b_prev (set_next b v bs ! i) = b_prev (bs ! i)"
  by (cases "b < length bs") (simp_all add: set_next_def nth_list_update list_update_beyond)

lemma links_set_prev [simp]:
  "b < length bs \<Longrightarrow> b_prev (set_prev b v bs ! i) = (if i = b then v else b_prev (bs ! i))"
  by (simp add: set_prev_def nth_list_update)

lemma next_set_prev [simp]: "b_next (set_prev b v bs ! i) = b_next (bs ! i)"
  by (cases "b < length bs") (simp_all add: set_prev_def nth_list_update list_update_beyond)

lemma length_lru [simp]:
  "length (lru_push b bs) = length bs" "length (binit_step b bs) = length bs"
  "length (lru_move_front b bs) = length bs"
  by (simp_all add: lru_push_def binit_step_def lru_move_front_def Let_def)

lemma dlist_links_cong:
  assumes "dlist bs xs" "length bs' = length bs"
    and "\<And>i. b_next (bs' ! i) = b_next (bs ! i)" "\<And>i. b_prev (bs' ! i) = b_prev (bs ! i)"
  shows "dlist bs' xs"
  using assms by (simp add: dlist_def)

lemma dlist_push:
  assumes "dlist bs xs" "b \<notin> set (HEAD # xs)" "b < length bs"
  shows "dlist (lru_push b bs) (b # xs)"
proof -
  let ?nx = "\<lambda>i. b_next (bs ! i)" and ?pv = "\<lambda>i. b_prev (bs ! i)"
  have seg: "seg ?nx ?pv HEAD xs HEAD" and d: "distinct xs" "HEAD \<notin> set xs"
    and r: "\<forall>x \<in> set (HEAD # xs). x < length bs"
    using assms(1) by (simp_all add: dlist_def)
  have h: "?nx HEAD < length bs" using seg r by (cases xs) auto
  have nx: "(\<lambda>i. b_next (lru_push b bs ! i)) = ?nx(b := ?nx HEAD, HEAD := b)"
    using assms h r by (auto simp: lru_push_def Let_def fun_eq_iff)
  have pv: "(\<lambda>i. b_prev (lru_push b bs ! i)) = ?pv(b := HEAD, ?nx HEAD := b)"
    using assms h r by (auto simp: lru_push_def Let_def fun_eq_iff)
  have "seg (?nx(b := ?nx HEAD, HEAD := b)) (?pv(b := HEAD, ?nx HEAD := b)) HEAD (b # xs) HEAD"
    using seg assms(2) d by (rule seg_push)
  then show ?thesis unfolding dlist_def nx pv using d r assms by (intro conjI) auto
qed

lemma dlist_binit_step:
  assumes "dlist bs xs" "b \<notin> set (HEAD # xs)" "b < length bs"
  shows "dlist (binit_step b bs) (b # xs)"
proof -
  have h: "b_next (bs ! HEAD) < length bs" using assms(1) by (cases xs) (auto simp: dlist_def)
  have hd: "HEAD < length bs" using assms(1) by (simp add: dlist_def)
  show ?thesis
  proof (rule dlist_links_cong [OF dlist_push [OF assms]])
    fix i
    show "b_next (binit_step b bs ! i) = b_next (lru_push b bs ! i)"
      using assms h hd by (auto simp: binit_step_def lru_push_def Let_def nth_list_update)
    show "b_prev (binit_step b bs ! i) = b_prev (lru_push b bs ! i)"
      using assms h hd by (auto simp: binit_step_def lru_push_def Let_def nth_list_update)
  qed simp
qed

lemma dlist_unlink:
  assumes "dlist bs (ys @ b # zs)"
  shows "dlist (set_next (b_prev (bs ! b)) (b_next (bs ! b)) (set_prev (b_next (bs ! b)) (b_prev (bs ! b)) bs))
    (ys @ zs)"
proof -
  let ?nx = "\<lambda>i. b_next (bs ! i)" and ?pv = "\<lambda>i. b_prev (bs ! i)"
  have s: "seg ?nx ?pv HEAD (ys @ b # zs) HEAD" and d: "distinct (HEAD # ys @ b # zs)"
    and r: "\<forall>x \<in> set (HEAD # ys @ b # zs). x < length bs"
    using assms by (auto simp: dlist_def)
  have "seg ?nx ?pv HEAD ys b" "seg ?nx ?pv b zs HEAD" using s by (simp_all add: seg_append)
  then have "?nx b \<in> set (zs @ [HEAD])" "?pv b \<in> set (HEAD # ys)"
    by (blast dest: seg_first, blast dest: seg_last)
  then have h: "?nx b < length bs" "?pv b < length bs" using r by auto
  have "seg (?nx(?pv b := ?nx b)) (?pv(?nx b := ?pv b)) HEAD (ys @ zs) HEAD"
    using s d by (intro seg_unlink) auto
  moreover have "(\<lambda>i. b_next (set_next (?pv b) (?nx b) (set_prev (?nx b) (?pv b) bs) ! i)) = ?nx(?pv b := ?nx b)"
    using h by (auto simp: fun_eq_iff)
  moreover have "(\<lambda>i. b_prev (set_next (?pv b) (?nx b) (set_prev (?nx b) (?pv b) bs) ! i)) = ?pv(?nx b := ?pv b)"
    using h by (auto simp: fun_eq_iff)
  ultimately show ?thesis using d r unfolding dlist_def by (intro conjI) auto
qed

lemma dlist_move_front:
  assumes "dlist bs xs" "b \<in> set xs"
  shows "dlist (lru_move_front b bs) (b # remove1 b xs)"
proof -
  obtain ys zs where xs: "xs = ys @ b # zs" "b \<notin> set ys"
    using assms(2) by (meson split_list_first)
  have d: "distinct xs" "HEAD \<notin> set xs" "b < length bs" using assms by (auto simp: dlist_def)
  let ?bs1 = "set_prev (b_next (bs ! b)) (b_prev (bs ! b)) bs"
  have "b_next (bs ! b) \<noteq> b"
  proof -
    have "seg (\<lambda>i. b_next (bs ! i)) (\<lambda>i. b_prev (bs ! i)) b zs HEAD"
      using assms(1) xs by (simp add: dlist_def seg_append)
    then show ?thesis using d xs by (cases zs) auto
  qed
  then have "b_prev (?bs1 ! b) = b_prev (bs ! b)"
    by (cases "b_next (bs ! b) < length bs") (auto simp: set_prev_def list_update_beyond)
  then have "lru_move_front b bs = lru_push b (set_next (b_prev (bs ! b)) (b_next (bs ! b)) ?bs1)"
    by (simp add: lru_move_front_def Let_def)
  moreover have "remove1 b xs = ys @ zs" using xs by (simp add: remove1_append)
  ultimately show ?thesis
    using dlist_unlink [of bs ys b zs] assms(1) xs d
    by (simp only:) (intro dlist_push, auto)
qed

text \<open>The scans visit the buffers in list order, and the step bound is never reached.\<close>

lemma scan_next_seg:
  assumes "seg (\<lambda>i. b_next (bs ! i)) pv x xs HEAD" "HEAD \<notin> set xs" "length xs < n"
  shows "scan_next n bs P (b_next (bs ! x)) = find (\<lambda>i. P (bs ! i)) xs"
  using assms
proof (induction xs arbitrary: x n)
  case Nil
  then show ?case by (cases n) auto
next
  case (Cons y ys)
  then obtain m where "n = Suc m" by (cases n) auto
  with Cons show ?case by auto
qed

lemma scan_prev_seg:
  assumes "seg (\<lambda>i. b_prev (bs ! i)) nx x xs HEAD" "HEAD \<notin> set xs" "length xs < n"
  shows "scan_prev n bs P (b_prev (bs ! x)) = find (\<lambda>i. P (bs ! i)) xs"
  using assms
proof (induction xs arbitrary: x n)
  case Nil
  then show ?case by (cases n) auto
next
  case (Cons y ys)
  then obtain m where "n = Suc m" by (cases n) auto
  with Cons show ?case by auto
qed

lemma dlist_length:
  assumes "dlist bs xs"
  shows "length xs < length bs"
proof -
  have "set (HEAD # xs) \<subseteq> {..<length bs}" "distinct (HEAD # xs)" using assms by (auto simp: dlist_def)
  then have "length (HEAD # xs) \<le> length bs"
    by (metis card_lessThan card_mono distinct_card finite_lessThan)
  then show ?thesis by simp
qed

lemma scan_next_dlist:
  "dlist bs xs \<Longrightarrow> scan_next (length bs) bs P (b_next (bs ! HEAD)) = find (\<lambda>i. P (bs ! i)) xs"
  using dlist_length [of bs xs] by (auto simp: dlist_def intro!: scan_next_seg)

lemma scan_prev_dlist:
  "dlist bs xs \<Longrightarrow> scan_prev (length bs) bs P (b_prev (bs ! HEAD)) = find (\<lambda>i. P (bs ! i)) (rev xs)"
  using dlist_length [of bs xs]
  by (auto simp: dlist_def seg_rev [of "\<lambda>i. b_next (bs ! i)"] intro!: scan_prev_seg)

lemma dlist_fold_binit:
  assumes "dlist bs xs" "distinct (ys @ xs)" "HEAD \<notin> set ys" "\<forall>y \<in> set ys. y < length bs"
  shows "dlist (fold binit_step ys bs) (rev ys @ xs)"
  using assms
proof (induction ys arbitrary: bs xs)
  case Nil
  then show ?case by simp
next
  case (Cons y ys)
  have "dlist (binit_step y bs) (y # xs)" using Cons.prems by (intro dlist_binit_step) auto
  then have "dlist (fold binit_step ys (binit_step y bs)) (rev ys @ y # xs)"
    using Cons.prems by (intro Cons.IH) auto
  then show ?case by simp
qed

lemma binit_dlist:
  assumes "length (bufs s) = NBUF + 1"
  shows "\<exists>s'. binit s = Ok () s' \<and> dlist (bufs s') (rev [0..<NBUF]) \<and> length (bufs s') = NBUF + 1"
proof -
  let ?bs = "set_next HEAD HEAD (set_prev HEAD HEAD (bufs s))"
  have len: "length (fold binit_step ys bs) = length bs" for ys bs
    by (induction ys arbitrary: bs) simp_all
  have "dlist ?bs []" using assms by (simp add: dlist_def)
  then have "dlist (fold binit_step [0..<NBUF] ?bs) (rev [0..<NBUF] @ [])"
    using assms by (intro dlist_fold_binit) (auto simp del: upt_conv_Cons)
  then show ?thesis using assms by (simp add: binit_def len del: upt_conv_Cons)
qed

end
