(* ===== verification/Bcache.thy ===== *)
theory Bcache
  imports Bio
begin

text \<open>
  What the buffer cache promises.  The abstract state \<open>acache\<close> has, for every block of the root
  device, a reference count, the process that holds its lock, the current contents as seen
  through the cache, and the contents and write history of the disk.  The invariant \<open>binv\<close> and
  the abstraction \<open>babs\<close> relate it to the buffers and their list; the locale \<open>buffer_cache\<close> is the
  contract the log and the file system rely on.
\<close>

record acache =
  a_refs :: "uint32 \<Rightarrow> nat"
  a_lock :: "uint32 \<Rightarrow> int option"
  a_view :: "uint32 \<Rightarrow> block"
  a_disk :: "uint32 \<Rightarrow> block"
  a_writes :: "(uint32 \<times> block) list"
  a_pid :: int

subsection \<open>Abstraction and invariant\<close>

definition keyed :: "buf \<Rightarrow> uint32 \<Rightarrow> bool" where
  "keyed x b \<longleftrightarrow> b_dev x = ROOTDEV \<and> b_blockno x = b"

definition bidx :: "buf list \<Rightarrow> uint32 \<Rightarrow> nat option" where
  "bidx bs b = find (\<lambda>i. keyed (bs ! i) b) [0..<NBUF]"

definition lock_of :: "buf \<Rightarrow> int option" where
  "lock_of x = (if sl_locked (b_lock x) then Some (sl_pid (b_lock x)) else None)"

definition view_of :: "(uint32 \<Rightarrow> block) \<Rightarrow> buf \<Rightarrow> block" where
  "view_of d x = (if b_valid x then b_data x else d (b_blockno x))"

definition babs :: "'a kbio_scheme \<Rightarrow> acache" where
  "babs s = \<lparr>
     a_refs = (\<lambda>b. case bidx (bufs s) b of None \<Rightarrow> 0 | Some i \<Rightarrow> unat (b_refcnt (bufs s ! i))),
     a_lock = (\<lambda>b. case bidx (bufs s) b of None \<Rightarrow> None | Some i \<Rightarrow> lock_of (bufs s ! i)),
     a_view = (\<lambda>b. case bidx (bufs s) b of None \<Rightarrow> disk s b | Some i \<Rightarrow> view_of (disk s) (bufs s ! i)),
     a_disk = disk s,
     a_writes = dwrites s,
     a_pid = p_pid (procs s ! the (curproc s))\<rparr>"

definition buf_ok :: "(uint32 \<Rightarrow> block) \<Rightarrow> buf \<Rightarrow> bool" where
  "buf_ok d x \<longleftrightarrow>
     (sl_locked (b_lock x) \<longrightarrow> b_refcnt x \<noteq> 0 \<and> b_valid x) \<and>
     (b_dev x \<noteq> ROOTDEV \<longrightarrow> b_refcnt x = 0) \<and>
     (b_dev x = ROOTDEV \<and> b_valid x \<longrightarrow> length (b_data x) = BSIZE) \<and>
     (b_dev x = ROOTDEV \<and> b_valid x \<and> b_refcnt x = 0 \<longrightarrow> b_data x = d (b_blockno x))"

definition uniq_keys :: "buf list \<Rightarrow> bool" where
  "uniq_keys bs \<longleftrightarrow> (\<forall>i < NBUF. \<forall>j < NBUF. \<forall>b. keyed (bs ! i) b \<and> keyed (bs ! j) b \<longrightarrow> i = j)"

definition binv :: "'a kbio_scheme \<Rightarrow> bool" where
  "binv s \<longleftrightarrow> length (bufs s) = NBUF + 1 \<and> (\<exists>xs. dlist (bufs s) xs \<and> set xs = {..<NBUF}) \<and>
     uniq_keys (bufs s) \<and> (\<forall>i < NBUF. buf_ok (disk s) (bufs s ! i)) \<and>
     (\<forall>b. length (disk s b) = BSIZE) \<and> curproc s \<noteq> None \<and> the (curproc s) < length (procs s)"

text \<open>The parts of the kernel state outside the cache, the disk and the process states.\<close>

definition bframe :: "'a kbio_scheme \<Rightarrow> 'a kbio_scheme \<Rightarrow> bool" where
  "bframe s s' \<longleftrightarrow> s' = s\<lparr>bufs := bufs s', procs := procs s', disk := disk s', dwrites := dwrites s'\<rparr> \<and>
     length (procs s') = length (procs s)"

subsection \<open>Finding a block's buffer\<close>

lemma bidx_Some: "uniq_keys bs \<Longrightarrow> bidx bs b = Some i \<longleftrightarrow> i < NBUF \<and> keyed (bs ! i) b"
proof
  assume "bidx bs b = Some i"
  then show "i < NBUF \<and> keyed (bs ! i) b"
    unfolding bidx_def by (auto simp: find_Some_iff simp del: upt_conv_Cons upt_rec_numeral)
next
  assume u: "uniq_keys bs" and i: "i < NBUF \<and> keyed (bs ! i) b"
  obtain j where j: "bidx bs b = Some j"
    using i unfolding bidx_def by (cases "find (\<lambda>i. keyed (bs ! i) b) [0..<NBUF]")
      (auto simp: find_None_iff simp del: upt_conv_Cons upt_rec_numeral)
  then have "j < NBUF \<and> keyed (bs ! j) b"
    unfolding bidx_def by (auto simp: find_Some_iff simp del: upt_conv_Cons upt_rec_numeral)
  with u i j show "bidx bs b = Some i" unfolding uniq_keys_def by blast
qed

lemma bidx_None: "bidx bs b = None \<longleftrightarrow> (\<forall>i < NBUF. \<not> keyed (bs ! i) b)"
  unfolding bidx_def by (auto simp: find_None_iff simp del: upt_conv_Cons upt_rec_numeral)

lemma find_any_order:
  assumes "\<forall>i \<in> set xs. P i \<longrightarrow> (\<forall>j \<in> set xs. P j \<longrightarrow> j = i)"
  shows "find P xs = Some i \<longleftrightarrow> i \<in> set xs \<and> P i"
proof
  assume "find P xs = Some i"
  then show "i \<in> set xs \<and> P i" by (auto simp: find_Some_iff)
next
  assume i: "i \<in> set xs \<and> P i"
  then obtain j where "find P xs = Some j" by (cases "find P xs") (auto simp: find_None_iff)
  moreover from this have "j \<in> set xs \<and> P j" by (auto simp: find_Some_iff)
  ultimately show "find P xs = Some i" using assms i by blast
qed

lemma scan_finds:
  assumes "uniq_keys bs" "dlist bs xs" "set xs = {..<NBUF}"
  shows "scan_next (length bs) bs (\<lambda>x. b_dev x = ROOTDEV \<and> b_blockno x = b) (b_next (bs ! HEAD)) = bidx bs b"
proof -
  have "find (\<lambda>i. keyed (bs ! i) b) xs = Some i \<longleftrightarrow> bidx bs b = Some i" for i
  proof -
    have "find (\<lambda>i. keyed (bs ! i) b) xs = Some i \<longleftrightarrow> i \<in> set xs \<and> keyed (bs ! i) b"
      by (rule find_any_order) (use assms(1,3) in \<open>auto simp: uniq_keys_def\<close>)
    with assms show ?thesis by (simp add: bidx_Some)
  qed
  then have "find (\<lambda>i. keyed (bs ! i) b) xs = bidx bs b"
    by (metis not_None_eq option.inject)
  with scan_next_dlist [OF assms(2)] show ?thesis by (simp add: keyed_def)
qed

subsection \<open>Updating one buffer\<close>

lemma keyed_same_key: "keyed y = keyed (bs ! i) \<Longrightarrow> keyed (bs[i := y] ! j) = keyed (bs ! j)"
  by (cases "i < length bs") (auto simp: nth_list_update list_update_beyond)

lemma bidx_same_key: "keyed y = keyed (bs ! i) \<Longrightarrow> bidx (bs[i := y]) = bidx bs"
  unfolding bidx_def by (simp only: keyed_same_key)

lemma dlist_update:
  "dlist bs xs \<Longrightarrow> b_next y = b_next (bs ! i) \<Longrightarrow> b_prev y = b_prev (bs ! i) \<Longrightarrow> dlist (bs[i := y]) xs"
  by (rule dlist_links_cong, assumption)
    (cases "i < length bs"; simp add: nth_list_update list_update_beyond)+

lemma binv_update:
  assumes "binv s" "i < NBUF" "keyed y = keyed (bufs s ! i)" "buf_ok (disk s) y"
    and "b_next y = b_next (bufs s ! i)" "b_prev y = b_prev (bufs s ! i)"
  shows "binv (s\<lparr>bufs := (bufs s)[i := y]\<rparr>)"
proof -
  have "uniq_keys ((bufs s)[i := y])"
    using assms(1) by (simp add: binv_def uniq_keys_def keyed_same_key [OF assms(3)])
  moreover have "\<forall>j < NBUF. buf_ok (disk s) ((bufs s)[i := y] ! j)"
    using assms by (auto simp: binv_def nth_list_update)
  ultimately show ?thesis
    using assms by (auto simp: binv_def intro: dlist_update)
qed

lemma babs_update:
  assumes "binv s" "bidx (bufs s) b = Some i" "keyed y b"
  shows "babs (s\<lparr>bufs := (bufs s)[i := y]\<rparr>) = (babs s)\<lparr>
    a_refs := (a_refs (babs s))(b := unat (b_refcnt y)),
    a_lock := (a_lock (babs s))(b := lock_of y),
    a_view := (a_view (babs s))(b := view_of (disk s) y)\<rparr>"
proof -
  have u: "uniq_keys (bufs s)" and i: "i < length (bufs s)" "i < NBUF" "keyed (bufs s ! i) b"
    using assms by (auto simp: binv_def bidx_Some)
  then have k: "keyed y = keyed (bufs s ! i)" using assms(3) by (auto simp: keyed_def fun_eq_iff)
  have other: "bidx (bufs s) c = Some j \<Longrightarrow> c \<noteq> b \<Longrightarrow> j \<noteq> i" for c j
    using u i by (auto simp: bidx_Some keyed_def)
  show ?thesis
    using assms(2) i(1) other
    by (auto simp: babs_def bidx_same_key [OF k] fun_eq_iff nth_list_update split: option.splits)
qed

text \<open>Recycling an unused buffer for a block that is not cached.\<close>

lemma keyed_recycle:
  assumes "i < length bs" "keyed y b"
  shows "keyed (bs[i := y] ! j) c \<longleftrightarrow> (if j = i then c = b else keyed (bs ! j) c)"
  using assms by (auto simp: nth_list_update keyed_def)

lemma uniq_recycle:
  assumes "uniq_keys bs" "bidx bs b = None" "i < length bs" "keyed y b"
  shows "uniq_keys (bs[i := y])"
  using assms(1,2) unfolding uniq_keys_def keyed_recycle [OF assms(3,4)] bidx_None
  by (metis)

lemma binv_recycle:
  assumes "binv s" "i < NBUF" "bidx (bufs s) b = None" "keyed y b" "buf_ok (disk s) y"
    and "b_next y = b_next (bufs s ! i)" "b_prev y = b_prev (bufs s ! i)"
  shows "binv (s\<lparr>bufs := (bufs s)[i := y]\<rparr>)"
proof -
  have l: "i < length (bufs s)" using assms(1,2) by (simp add: binv_def)
  have "uniq_keys ((bufs s)[i := y])"
    using assms l by (intro uniq_recycle) (auto simp: binv_def)
  moreover have "\<forall>j < NBUF. buf_ok (disk s) ((bufs s)[i := y] ! j)"
    using assms l by (auto simp: binv_def nth_list_update)
  ultimately show ?thesis
    using assms by (auto simp: binv_def intro: dlist_update)
qed

lemma bidx_recycle:
  assumes "uniq_keys bs" "bidx bs b = None" "i < length bs" "i < NBUF" "keyed y b"
  shows "bidx (bs[i := y]) c = (if c = b then Some i else if bidx bs c = Some i then None else bidx bs c)"
proof -
  have u: "uniq_keys (bs[i := y])" using assms by (intro uniq_recycle)
  have "bidx (bs[i := y]) c = Some j \<longleftrightarrow>
      (if c = b then Some i else if bidx bs c = Some i then None else bidx bs c) = Some j" for j
    using assms(2,4) assms(1) [unfolded uniq_keys_def]
    by (simp add: bidx_Some [OF u] bidx_Some [OF assms(1)] keyed_recycle [OF assms(3,5)] bidx_None) metis
  then show ?thesis by (metis not_None_eq option.inject)
qed

lemma babs_recycle:
  assumes "binv s" "i < NBUF" "bidx (bufs s) b = None" "keyed y b" "b_refcnt (bufs s ! i) = 0"
    and "view_of (disk s) y = disk s b"
  shows "babs (s\<lparr>bufs := (bufs s)[i := y]\<rparr>) = (babs s)\<lparr>
    a_refs := (a_refs (babs s))(b := unat (b_refcnt y)),
    a_lock := (a_lock (babs s))(b := lock_of y)\<rparr>"
proof -
  have u: "uniq_keys (bufs s)" and l: "i < length (bufs s)" and ok: "buf_ok (disk s) (bufs s ! i)"
    using assms by (auto simp: binv_def)
  have old: "view_of (disk s) (bufs s ! i) = disk s c \<and> lock_of (bufs s ! i) = None"
    if "bidx (bufs s) c = Some i" for c
    using that ok assms(5) by (auto simp: bidx_Some [OF u] keyed_def buf_ok_def view_of_def lock_of_def)
  show ?thesis
    using assms(3,5,6) l old
    by (auto simp: babs_def bidx_recycle [OF u assms(3) l assms(2,4)] fun_eq_iff nth_list_update
      split: option.splits)
qed

lemma recyclable_exists:
  assumes "binv s" "card {b. a_refs (babs s) b > 0} < NBUF"
  shows "\<exists>i < NBUF. b_refcnt (bufs s ! i) = 0"
proof (rule ccontr)
  assume "\<not> ?thesis"
  then have nz: "\<forall>i < NBUF. b_refcnt (bufs s ! i) \<noteq> 0" by blast
  have u: "uniq_keys (bufs s)" using assms(1) by (simp add: binv_def)
  have k: "keyed (bufs s ! i) (b_blockno (bufs s ! i))" if "i < NBUF" for i
    using that nz assms(1) by (auto simp: binv_def buf_ok_def keyed_def)
  let ?f = "\<lambda>i. b_blockno (bufs s ! i)"
  have "inj_on ?f {..<NBUF}"
  proof (rule inj_onI)
    fix i j assume "i \<in> {..<NBUF}" "j \<in> {..<NBUF}" "?f i = ?f j"
    with k [of i] k [of j] u show "i = j" unfolding uniq_keys_def by auto
  qed
  moreover have "?f ` {..<NBUF} \<subseteq> {b. a_refs (babs s) b > 0}"
  proof
    fix b assume "b \<in> ?f ` {..<NBUF}"
    then obtain i where i: "i < NBUF" "b = ?f i" by auto
    then have "bidx (bufs s) b = Some i" using k u by (simp add: bidx_Some)
    with nz i show "b \<in> {b. a_refs (babs s) b > 0}" by (simp add: babs_def unat_gt_0)
  qed
  ultimately show False
    using assms(2) card_mono [of "{b. a_refs (babs s) b > 0}" "?f ` {..<NBUF}"] by (simp add: card_image)
qed

subsection \<open>The operations on the abstract state\<close>

definition locked_buf :: "acache \<Rightarrow> block \<Rightarrow> buf \<Rightarrow> buf" where
  "locked_buf a d x = x\<lparr>b_lock := (b_lock x)\<lparr>sl_locked := True, sl_pid := a_pid a\<rparr>, b_valid := True, b_data := d\<rparr>"

lemma bread_hit:
  assumes "binv s" "bidx (bufs s) b = Some i" "a_lock (babs s) b = None"
  shows "bread ROOTDEV b s = Ok i (s\<lparr>bufs := (bufs s)[i :=
    locked_buf (babs s) (a_view (babs s) b) ((bufs s ! i)\<lparr>b_refcnt := b_refcnt (bufs s ! i) + 1\<rparr>)]\<rparr>)"
proof -
  obtain xs where xs: "dlist (bufs s) xs" "set xs = {..<NBUF}" "uniq_keys (bufs s)"
    using assms(1) by (auto simp: binv_def)
  obtain p where p: "curproc s = Some p" using assms(1) by (auto simp: binv_def)
  have l: "i < length (bufs s)" "keyed (bufs s ! i) b" using assms xs by (auto simp: binv_def bidx_Some)
  have free: "\<not> sl_locked (b_lock (bufs s ! i))"
    using assms(2,3) by (simp add: babs_def lock_of_def split: if_splits)
  show ?thesis
    using assms(2) l free p
    by (simp add: bread_def bget_def kbind_apply scan_finds [OF xs(3,1,2)] upd_buf_def get_buf_def
      bl.acquire_free buf_lock_def buf_lock_upd_def disk_rw_def locked_buf_def babs_def view_of_def keyed_def)
      (cases "bufs s ! i"; simp)
qed

lemma bread_miss:
  assumes "binv s" "bidx (bufs s) b = None" "card {b. a_refs (babs s) b > 0} < NBUF"
  shows "\<exists>i < NBUF. b_refcnt (bufs s ! i) = 0 \<and> bread ROOTDEV b s = Ok i (s\<lparr>bufs := (bufs s)[i :=
    locked_buf (babs s) (disk s b) ((bufs s ! i)\<lparr>b_dev := ROOTDEV, b_blockno := b, b_refcnt := 1\<rparr>)]\<rparr>)"
proof -
  obtain xs where xs: "dlist (bufs s) xs" "set xs = {..<NBUF}" "uniq_keys (bufs s)"
    using assms(1) by (auto simp: binv_def)
  obtain p where p: "curproc s = Some p" using assms(1) by (auto simp: binv_def)
  obtain k where "k < NBUF" "b_refcnt (bufs s ! k) = 0" using recyclable_exists assms by blast
  then obtain i where i: "find (\<lambda>i. b_refcnt (bufs s ! i) = 0) (rev xs) = Some i"
    using xs(2) by (cases "find (\<lambda>i. b_refcnt (bufs s ! i) = 0) (rev xs)") (auto simp: find_None_iff)
  then have "i \<in> set (rev xs)" and z: "b_refcnt (bufs s ! i) = 0" by (auto dest!: find_SomeD)
  then have l: "i < NBUF" "i < length (bufs s)" using xs(2) assms(1) by (auto simp: binv_def)
  have "buf_ok (disk s) (bufs s ! i)" using l(1) assms(1) by (simp add: binv_def)
  then have free: "\<not> sl_locked (b_lock (bufs s ! i))" using z by (simp add: buf_ok_def)
  have "bread ROOTDEV b s = Ok i (s\<lparr>bufs := (bufs s)[i :=
      locked_buf (babs s) (disk s b) ((bufs s ! i)\<lparr>b_dev := ROOTDEV, b_blockno := b, b_refcnt := 1\<rparr>)]\<rparr>)"
    using assms(2) l free p i
    by (simp add: bread_def bget_def kbind_apply scan_finds [OF xs(3,1,2)] scan_prev_dlist [OF xs(1)]
      upd_buf_def get_buf_def bl.acquire_free buf_lock_def buf_lock_upd_def disk_rw_def
      locked_buf_def babs_def) (cases "bufs s ! i"; simp)
  with l z show ?thesis by blast
qed

lemma unat_inc: "unat w + 1 < 2 ^ 32 \<Longrightarrow> unat (w + 1 :: uint32) = unat w + 1"
  by (simp add: unat_word_ariths)

lemma inc_nonzero: "unat w + 1 < 2 ^ 32 \<Longrightarrow> w + 1 \<noteq> (0 :: uint32)"
  by (metis Suc_eq_plus1 nat.distinct(1) unat_inc unsigned_0)

lemma unat_dec: "w \<noteq> 0 \<Longrightarrow> unat (w - 1 :: uint32) = unat w - 1"
  by (simp add: unat_minus_one)

lemma bframe_iff: "bframe s s' \<longleftrightarrow> (\<exists>a b c d. s' = s\<lparr>bufs := a, procs := b, disk := c, dwrites := d\<rparr> \<and>
    length b = length (procs s))"
proof
  assume "bframe s s'"
  then show "\<exists>a b c d. s' = s\<lparr>bufs := a, procs := b, disk := c, dwrites := d\<rparr> \<and> length b = length (procs s)"
    unfolding bframe_def by metis
next
  assume "\<exists>a b c d. s' = s\<lparr>bufs := a, procs := b, disk := c, dwrites := d\<rparr> \<and> length b = length (procs s)"
  then show "bframe s s'" by (auto simp: bframe_def)
qed

lemma bframe_refl [simp]: "bframe s s"
  by (simp add: bframe_def)

lemma bframe_trans:
  assumes "bframe s s'" "bframe s' s''"
  shows "bframe s s''"
proof -
  obtain a b c d where 1: "s' = s\<lparr>bufs := a, procs := b, disk := c, dwrites := d\<rparr>" "length b = length (procs s)"
    using assms(1) by (auto simp: bframe_iff)
  obtain a' b' c' d' where 2: "s'' = s'\<lparr>bufs := a', procs := b', disk := c', dwrites := d'\<rparr>"
    "length b' = length (procs s')" using assms(2) by (auto simp: bframe_iff)
  from 1 2 show ?thesis by (simp add: bframe_def)
qed

lemma bframe_bufs [simp]: "bframe s (s\<lparr>bufs := bs\<rparr>)"
  by (simp add: bframe_def)

lemma disk_length: "binv s \<Longrightarrow> length (disk s b) = BSIZE"
  by (simp add: binv_def)

lemma view_length:
  assumes "binv s"
  shows "length (a_view (babs s) b) = BSIZE"
proof (cases "bidx (bufs s) b")
  case None
  with assms show ?thesis by (simp add: babs_def disk_length)
next
  case (Some i)
  with assms have "buf_ok (disk s) (bufs s ! i)" "keyed (bufs s ! i) b" by (auto simp: binv_def bidx_Some)
  with Some assms show ?thesis by (auto simp: babs_def view_of_def buf_ok_def keyed_def disk_length)
qed

lemma unref_view:
  assumes "binv s" "a_refs (babs s) b = 0"
  shows "a_view (babs s) b = a_disk (babs s) b"
proof (cases "bidx (bufs s) b")
  case None
  then show ?thesis by (simp add: babs_def)
next
  case (Some i)
  with assms have "buf_ok (disk s) (bufs s ! i)" "keyed (bufs s ! i) b" "b_refcnt (bufs s ! i) = 0"
    by (auto simp: binv_def bidx_Some babs_def unat_eq_0)
  with Some show ?thesis by (auto simp: babs_def view_of_def buf_ok_def keyed_def)
qed

lemma bread_law:
  assumes "binv s" "a_lock (babs s) b = None" "a_refs (babs s) b + 1 < 2 ^ 32"
    and "a_refs (babs s) b > 0 \<or> card {b. a_refs (babs s) b > 0} < NBUF"
  shows "\<exists>i s'. bread ROOTDEV b s = Ok i s' \<and> binv s' \<and> bframe s s' \<and> bidx (bufs s') b = Some i \<and>
    babs s' = (babs s)\<lparr>a_refs := (a_refs (babs s))(b := a_refs (babs s) b + 1),
      a_lock := (a_lock (babs s))(b := Some (a_pid (babs s)))\<rparr> \<and>
    (\<forall>c j. a_refs (babs s) c > 0 \<and> bidx (bufs s) c = Some j \<longrightarrow> bidx (bufs s') c = Some j)"
proof (cases "bidx (bufs s) b")
  case (Some i)
  define x where "x = bufs s ! i"
  define y where "y = locked_buf (babs s) (a_view (babs s) b) (x\<lparr>b_refcnt := b_refcnt x + 1\<rparr>)"
  have i: "i < NBUF" "keyed x b" "buf_ok (disk s) x"
    using Some assms(1) by (auto simp: binv_def bidx_Some x_def)
  have r: "unat (b_refcnt x) + 1 < 2 ^ 32" using Some assms(3) by (simp add: babs_def x_def)
  have same: "keyed y = keyed x" by (simp add: y_def locked_buf_def keyed_def fun_eq_iff)
  have "buf_ok (disk s) y"
    using i(2) r view_length [OF assms(1)]
    by (simp add: y_def locked_buf_def buf_ok_def inc_nonzero keyed_def)
  then have "binv (s\<lparr>bufs := (bufs s)[i := y]\<rparr>)"
    using assms(1) i(1) same by (intro binv_update) (simp_all add: y_def x_def locked_buf_def)
  moreover have "babs (s\<lparr>bufs := (bufs s)[i := y]\<rparr>) =
      (babs s)\<lparr>a_refs := (a_refs (babs s))(b := a_refs (babs s) b + 1),
      a_lock := (a_lock (babs s))(b := Some (a_pid (babs s)))\<rparr>"
    using Some i(2) r unat_inc [OF r] unfolding y_def
    by (subst babs_update [OF assms(1) Some])
      (auto simp: locked_buf_def keyed_def lock_of_def view_of_def babs_def x_def fun_eq_iff)
  moreover have "bread ROOTDEV b s = Ok i (s\<lparr>bufs := (bufs s)[i := y]\<rparr>)"
    using bread_hit [OF assms(1) Some assms(2)] by (simp add: y_def x_def)
  ultimately show ?thesis
    using Some same by (intro exI [of _ i] exI [of _ "s\<lparr>bufs := (bufs s)[i := y]\<rparr>"])
      (simp add: bidx_same_key x_def)
next
  case None
  then have "a_refs (babs s) b = 0" by (simp add: babs_def)
  with bread_miss [OF assms(1) None] assms(4) obtain i where i: "i < NBUF"
    "b_refcnt (bufs s ! i) = 0" and rd: "bread ROOTDEV b s = Ok i (s\<lparr>bufs := (bufs s)[i :=
    locked_buf (babs s) (disk s b) ((bufs s ! i)\<lparr>b_dev := ROOTDEV, b_blockno := b, b_refcnt := 1\<rparr>)]\<rparr>)" by auto
  define y where "y = locked_buf (babs s) (disk s b) ((bufs s ! i)\<lparr>b_dev := ROOTDEV, b_blockno := b, b_refcnt := 1\<rparr>)"
  have l: "i < length (bufs s)" "uniq_keys (bufs s)" using i(1) assms(1) by (simp_all add: binv_def)
  have y: "keyed y b" "buf_ok (disk s) y" "view_of (disk s) y = disk s b"
    using disk_length [OF assms(1)] by (simp_all add: y_def locked_buf_def keyed_def buf_ok_def view_of_def)
  have "binv (s\<lparr>bufs := (bufs s)[i := y]\<rparr>)"
    using assms(1) i(1) None y by (intro binv_recycle) (simp_all add: y_def locked_buf_def)
  moreover have "babs (s\<lparr>bufs := (bufs s)[i := y]\<rparr>) =
      (babs s)\<lparr>a_refs := (a_refs (babs s))(b := a_refs (babs s) b + 1),
      a_lock := (a_lock (babs s))(b := Some (a_pid (babs s)))\<rparr>"
    using babs_recycle [OF assms(1) i(1) None y(1) i(2) y(3)] \<open>a_refs (babs s) b = 0\<close>
    by (simp add: y_def locked_buf_def lock_of_def)
  moreover have "bidx ((bufs s)[i := y]) c = Some j" if "a_refs (babs s) c > 0" "bidx (bufs s) c = Some j" for c j
    using that None i(2) by (auto simp: bidx_recycle [OF l(2) None l(1) i(1) y(1)] babs_def)
  ultimately show ?thesis
    using rd by (intro exI [of _ i] exI [of _ "s\<lparr>bufs := (bufs s)[i := y]\<rparr>"])
      (auto simp: y_def [symmetric] bidx_recycle [OF l(2) None l(1) i(1) y(1)])
qed

lemma held_buf:
  assumes "binv s" "bidx (bufs s) b = Some i" "a_lock (babs s) b = Some (a_pid (babs s))"
  shows "i < NBUF \<and> keyed (bufs s ! i) b \<and> buf_ok (disk s) (bufs s ! i) \<and> sl_locked (b_lock (bufs s ! i)) \<and>
    sl_pid (b_lock (bufs s ! i)) = a_pid (babs s) \<and> b_valid (bufs s ! i) \<and> b_refcnt (bufs s ! i) \<noteq> 0 \<and>
    b_data (bufs s ! i) = a_view (babs s) b \<and> a_refs (babs s) b > 0"
proof -
  have i: "i < NBUF" "keyed (bufs s ! i) b" "buf_ok (disk s) (bufs s ! i)"
    using assms by (auto simp: binv_def bidx_Some)
  have l: "sl_locked (b_lock (bufs s ! i))" "sl_pid (b_lock (bufs s ! i)) = a_pid (babs s)"
    using assms(2,3) by (simp_all add: babs_def lock_of_def split: if_splits)
  with i have v: "b_valid (bufs s ! i)" "b_refcnt (bufs s ! i) \<noteq> 0" by (auto simp: buf_ok_def)
  have "b_data (bufs s ! i) = a_view (babs s) b" "a_refs (babs s) b > 0"
    using v assms(2) by (simp_all add: babs_def view_of_def unat_gt_0)
  with i l v show ?thesis by blast
qed

lemma holding_held:
  assumes "binv s" "bidx (bufs s) b = Some i" "a_lock (babs s) b = Some (a_pid (babs s))"
  shows "holdingsleep (buf_lock i) s = Ok True s"
proof -
  obtain p where p: "curproc s = Some p" using assms(1) by (auto simp: binv_def)
  show ?thesis
    using held_buf [OF assms] p by (simp add: bl.holding_eq [OF p] buf_lock_def babs_def)
qed

lemma bdata_law:
  assumes "binv s" "bidx (bufs s) b = Some i" "a_lock (babs s) b = Some (a_pid (babs s))"
  shows "b_data (bufs s ! i) = a_view (babs s) b"
  using held_buf [OF assms] by blast

lemma setdata_law:
  assumes "binv s" "bidx (bufs s) b = Some i" "a_lock (babs s) b = Some (a_pid (babs s))" "length d = BSIZE"
  shows "\<exists>s'. upd_buf i (\<lambda>x. x\<lparr>b_data := d\<rparr>) s = Ok () s' \<and> binv s' \<and> bframe s s' \<and>
    babs s' = (babs s)\<lparr>a_view := (a_view (babs s))(b := d)\<rparr> \<and> bidx (bufs s') = bidx (bufs s)"
proof -
  define y where "y = (bufs s ! i)\<lparr>b_data := d\<rparr>"
  note h = held_buf [OF assms(1-3)]
  have k: "keyed y = keyed (bufs s ! i)" by (simp add: y_def keyed_def fun_eq_iff)
  have "binv (s\<lparr>bufs := (bufs s)[i := y]\<rparr>)"
    using assms(1,4) h k by (intro binv_update) (auto simp: y_def buf_ok_def)
  moreover have "babs (s\<lparr>bufs := (bufs s)[i := y]\<rparr>) = (babs s)\<lparr>a_view := (a_view (babs s))(b := d)\<rparr>"
    using h k assms(2) by (subst babs_update [OF assms(1,2)])
      (auto simp: y_def lock_of_def view_of_def babs_def fun_eq_iff keyed_def)
  ultimately show ?thesis
    using k by (intro exI [of _ "s\<lparr>bufs := (bufs s)[i := y]\<rparr>"])
      (simp add: upd_buf_def y_def [symmetric] bidx_same_key)
qed

lemma bwrite_law:
  assumes "binv s" "bidx (bufs s) b = Some i" "a_lock (babs s) b = Some (a_pid (babs s))"
  shows "\<exists>s'. bwrite i s = Ok () s' \<and> binv s' \<and> bframe s s' \<and>
    babs s' = (babs s)\<lparr>a_disk := (a_disk (babs s))(b := a_view (babs s) b),
      a_writes := a_writes (babs s) @ [(b, a_view (babs s) b)]\<rparr> \<and> bidx (bufs s') = bidx (bufs s)"
proof -
  note h = held_buf [OF assms]
  let ?d = "(disk s)(b := a_view (babs s) b)"
  define s' where "s' = s\<lparr>disk := ?d, dwrites := dwrites s @ [(b, a_view (babs s) b)]\<rparr>"
  have f: "bufs s' = bufs s" "disk s' = ?d" "dwrites s' = dwrites s @ [(b, a_view (babs s) b)]"
      "procs s' = procs s" "curproc s' = curproc s" by (simp_all add: s'_def)
  have u: "uniq_keys (bufs s)" using assms(1) by (simp add: binv_def)
  have "buf_ok ?d (bufs s ! j)" if "j < NBUF" for j
  proof (cases "j = i")
    case True
    with h show ?thesis by (auto simp: buf_ok_def)
  next
    case False
    then have "\<not> keyed (bufs s ! j) b" using u h that by (auto simp: uniq_keys_def)
    moreover have "buf_ok (disk s) (bufs s ! j)" using that assms(1) by (simp add: binv_def)
    ultimately show ?thesis by (auto simp: buf_ok_def keyed_def)
  qed
  then have "binv s'" using assms(1) view_length [OF assms(1)] by (auto simp: binv_def s'_def)
  moreover have "babs s' = (babs s)\<lparr>a_disk := ?d, a_writes := dwrites s @ [(b, a_view (babs s) b)]\<rparr>"
  proof -
    have "a_view (babs s') c = a_view (babs s) c" for c
    proof (cases "c = b")
      case True
      with assms(2) h show ?thesis by (simp add: babs_def s'_def view_of_def)
    next
      case False
      then have "j \<noteq> i" "b_blockno (bufs s ! j) \<noteq> b" if "bidx (bufs s) c = Some j" for j
        using that h u by (auto simp: bidx_Some keyed_def)
      with False show ?thesis by (auto simp: babs_def s'_def view_of_def split: option.splits)
    qed
    then have "a_view (babs s') = a_view (babs s)" by blast
    moreover have "a_refs (babs s') = a_refs (babs s)" "a_lock (babs s') = a_lock (babs s)"
        "a_disk (babs s') = ?d" "a_writes (babs s') = dwrites s @ [(b, a_view (babs s) b)]"
        "a_pid (babs s') = a_pid (babs s)"
      unfolding babs_def f by simp_all
    ultimately show ?thesis by (intro acache.equality) simp_all
  qed
  moreover have "bwrite i s = Ok () s'"
    using holding_held [OF assms] h
    by (simp add: bwrite_def disk_rw_def Let_def s'_def keyed_def)
  moreover have "a_disk (babs s) = disk s" "a_writes (babs s) = dwrites s" by (simp_all add: babs_def)
  ultimately show ?thesis by (intro exI [of _ s']) (simp add: s'_def bframe_def)
qed

text \<open>Buffers that differ only in their list links have the same abstract state.\<close>

definition core :: "buf \<Rightarrow> buf" where
  "core x = x\<lparr>b_prev := 0, b_next := 0\<rparr>"

lemma core_links [simp]: "core (set_next b v bs ! i) = core (bs ! i)" "core (set_prev b v bs ! i) = core (bs ! i)"
  by (cases "b < length bs"; simp add: core_def set_next_def set_prev_def nth_list_update list_update_beyond)+

lemma core_move_front: "core (lru_move_front b bs ! i) = core (bs ! i)"
  by (simp add: lru_move_front_def lru_push_def Let_def)

lemma core_fields:
  assumes "core x = core y"
  shows "b_valid x = b_valid y \<and> b_dev x = b_dev y \<and> b_blockno x = b_blockno y \<and> b_lock x = b_lock y \<and>
    b_refcnt x = b_refcnt y \<and> b_data x = b_data y"
  using assms by (cases x, cases y) (simp add: core_def)

lemma core_preds:
  assumes "core x = core y"
  shows "keyed x = keyed y" "buf_ok d x = buf_ok d y" "lock_of x = lock_of y" "view_of d x = view_of d y"
    "b_refcnt x = b_refcnt y"
  using core_fields [OF assms] by (auto simp: keyed_def buf_ok_def lock_of_def view_of_def fun_eq_iff)

lemma relink_same:
  assumes "binv s" "\<And>i. core (bs ! i) = core (bufs s ! i)" "length bs = length (bufs s)"
    and "dlist bs xs" "set xs = {..<NBUF}"
  shows "binv (s\<lparr>bufs := bs\<rparr>) \<and> babs (s\<lparr>bufs := bs\<rparr>) = babs s \<and> bidx bs = bidx (bufs s)"
proof -
  note c = core_preds [OF assms(2)]
  have "bidx bs = bidx (bufs s)" unfolding bidx_def c ..
  moreover have "babs (s\<lparr>bufs := bs\<rparr>) = babs s"
    using calculation unfolding babs_def by (simp add: c cong: option.case_cong)
  moreover have "binv (s\<lparr>bufs := bs\<rparr>)"
    using assms unfolding binv_def uniq_keys_def by (auto simp: c)
  ultimately show ?thesis by blast
qed

lemma wake_same:
  assumes "binv s"
  shows "binv (s\<lparr>procs := wake_all c (curproc s) (procs s)\<rparr>) \<and>
    babs (s\<lparr>procs := wake_all c (curproc s) (procs s)\<rparr>) = babs s"
  using assms by (auto simp: binv_def babs_def cong: option.case_cong)

lemma brelse_law:
  assumes "binv s" "bidx (bufs s) b = Some i" "a_lock (babs s) b = Some (a_pid (babs s))"
    and "a_refs (babs s) b = 1 \<Longrightarrow> a_view (babs s) b = a_disk (babs s) b"
  shows "\<exists>s'. brelse i s = Ok () s' \<and> binv s' \<and> bframe s s' \<and>
    babs s' = (babs s)\<lparr>a_refs := (a_refs (babs s))(b := a_refs (babs s) b - 1),
      a_lock := (a_lock (babs s))(b := None)\<rparr> \<and> bidx (bufs s') = bidx (bufs s)"
proof -
  note h = held_buf [OF assms(1-3)]
  define x where "x = bufs s ! i"
  define y where "y = x\<lparr>b_lock := (b_lock x)\<lparr>sl_locked := False, sl_pid := 0\<rparr>, b_refcnt := b_refcnt x - 1\<rparr>"
  define s1 where "s1 = s\<lparr>bufs := (bufs s)[i := y]\<rparr>"
  define s2 where "s2 = s1\<lparr>procs := wake_all (ChBufLock i) (curproc s1) (procs s1)\<rparr>"
  have k: "keyed y = keyed x" by (simp add: y_def keyed_def fun_eq_iff)
  have l: "i < length (bufs s)" using h assms(1) by (simp add: binv_def)
  have rc: "a_refs (babs s) b = unat (b_refcnt x)" "a_disk (babs s) = disk s"
    using assms(2) by (simp_all add: babs_def x_def)
  have ur: "unat (b_refcnt y) = a_refs (babs s) b - 1" using h rc by (simp add: y_def x_def unat_dec)
  have one: "a_refs (babs s) b = 1" if "b_refcnt y = 0" using that ur h by simp
  have "buf_ok (disk s) y"
    using h one assms(4) rc by (auto simp: buf_ok_def y_def x_def keyed_def)
  then have "binv s1"
    using assms(1) h k unfolding s1_def by (intro binv_update) (auto simp: y_def x_def)
  moreover have "babs s1 = (babs s)\<lparr>a_refs := (a_refs (babs s))(b := a_refs (babs s) b - 1),
      a_lock := (a_lock (babs s))(b := None)\<rparr>"
    using h k ur unfolding s1_def
    by (subst babs_update [OF assms(1,2)])
      (auto simp: y_def x_def lock_of_def view_of_def fun_eq_iff keyed_def)
  ultimately have 2: "binv s2" "babs s2 = (babs s)\<lparr>a_refs := (a_refs (babs s))(b := a_refs (babs s) b - 1),
      a_lock := (a_lock (babs s))(b := None)\<rparr>"
    using wake_same [of s1 "ChBufLock i"] by (simp_all add: s2_def)
  have bi: "bidx (bufs s2) = bidx (bufs s)" using k by (simp add: s2_def s1_def bidx_same_key x_def)
  have run: "brelse i s = (if b_refcnt y = 0 then Ok () (s2\<lparr>bufs := lru_move_front i (bufs s2)\<rparr>) else Ok () s2)"
    using holding_held [OF assms(1-3)] l
    by (simp add: brelse_def kbind_apply bl.release_eq upd_buf_def get_buf_def buf_lock_upd_def
      s2_def s1_def y_def x_def)
  have fr: "bframe s s2" by (simp add: bframe_def s2_def s1_def)
  obtain xs where xs: "dlist (bufs s2) xs" "set xs = {..<NBUF}" using 2(1) by (auto simp: binv_def)
  define s3 where "s3 = s2\<lparr>bufs := lru_move_front i (bufs s2)\<rparr>"
  have "dlist (lru_move_front i (bufs s2)) (i # remove1 i xs)" using xs h by (intro dlist_move_front) auto
  moreover have "distinct xs" "i \<in> set xs" using xs h by (auto simp: dlist_def)
  then have "set (i # remove1 i xs) = {..<NBUF}" using xs(2) by (auto simp: set_remove1_eq)
  ultimately have 3: "binv s3 \<and> babs s3 = babs s2 \<and> bidx (bufs s3) = bidx (bufs s2)"
    using relink_same [OF 2(1), of "lru_move_front i (bufs s2)"] by (simp add: s3_def core_move_front)
  have "bframe s s3" by (simp add: bframe_def s3_def s2_def s1_def)
  with 3 2 bi fr run show ?thesis by (cases "b_refcnt y = 0") (auto simp: s3_def [symmetric])
qed

lemma bpin_law:
  assumes "binv s" "bidx (bufs s) b = Some i" "0 < a_refs (babs s) b" "a_refs (babs s) b + 1 < 2 ^ 32"
  shows "\<exists>s'. bpin i s = Ok () s' \<and> binv s' \<and> bframe s s' \<and>
    babs s' = (babs s)\<lparr>a_refs := (a_refs (babs s))(b := a_refs (babs s) b + 1)\<rparr> \<and>
    bidx (bufs s') = bidx (bufs s)"
proof -
  define x where "x = bufs s ! i"
  define y where "y = x\<lparr>b_refcnt := b_refcnt x + 1\<rparr>"
  have i: "i < NBUF" "keyed x b" "buf_ok (disk s) x" using assms by (auto simp: binv_def bidx_Some x_def)
  have r: "unat (b_refcnt x) + 1 < 2 ^ 32" using assms(2,4) by (simp add: babs_def x_def)
  have k: "keyed y = keyed x" by (simp add: y_def keyed_def fun_eq_iff)
  have "binv (s\<lparr>bufs := (bufs s)[i := y]\<rparr>)"
    using assms(1) i k r inc_nonzero by (intro binv_update) (auto simp: y_def x_def buf_ok_def keyed_def)
  moreover have "babs (s\<lparr>bufs := (bufs s)[i := y]\<rparr>) =
      (babs s)\<lparr>a_refs := (a_refs (babs s))(b := a_refs (babs s) b + 1)\<rparr>"
    using i k unat_inc [OF r] assms(2) by (subst babs_update [OF assms(1,2)])
      (auto simp: y_def x_def lock_of_def view_of_def fun_eq_iff babs_def)
  ultimately show ?thesis
    using k by (intro exI [of _ "s\<lparr>bufs := (bufs s)[i := y]\<rparr>"])
      (simp add: bpin_def upd_buf_def y_def x_def bidx_same_key)
qed

lemma bunpin_law:
  assumes "binv s" "bidx (bufs s) b = Some i" "a_lock (babs s) b = Some (a_pid (babs s))"
    and "1 < a_refs (babs s) b"
  shows "\<exists>s'. bunpin i s = Ok () s' \<and> binv s' \<and> bframe s s' \<and>
    babs s' = (babs s)\<lparr>a_refs := (a_refs (babs s))(b := a_refs (babs s) b - 1)\<rparr> \<and>
    bidx (bufs s') = bidx (bufs s)"
proof -
  note h = held_buf [OF assms(1-3)]
  define x where "x = bufs s ! i"
  define y where "y = x\<lparr>b_refcnt := b_refcnt x - 1\<rparr>"
  have r: "unat (b_refcnt y) = a_refs (babs s) b - 1" "a_refs (babs s) b = unat (b_refcnt x)"
    using h assms(2) by (simp_all add: y_def x_def unat_dec babs_def)
  have nz: "b_refcnt y \<noteq> 0" using r assms(4) by auto
  have k: "keyed y = keyed x" by (simp add: y_def keyed_def fun_eq_iff)
  have "binv (s\<lparr>bufs := (bufs s)[i := y]\<rparr>)"
    using assms(1) h k nz by (intro binv_update) (auto simp: y_def x_def buf_ok_def keyed_def)
  moreover have "babs (s\<lparr>bufs := (bufs s)[i := y]\<rparr>) =
      (babs s)\<lparr>a_refs := (a_refs (babs s))(b := a_refs (babs s) b - 1)\<rparr>"
    using h k r assms(2) by (subst babs_update [OF assms(1,2)])
      (auto simp: y_def x_def lock_of_def view_of_def fun_eq_iff babs_def)
  ultimately show ?thesis
    using k by (intro exI [of _ "s\<lparr>bufs := (bufs s)[i := y]\<rparr>"])
      (simp add: bunpin_def upd_buf_def y_def x_def bidx_same_key)
qed

subsection \<open>The contract of the cache\<close>

definition grab :: "uint32 \<Rightarrow> acache \<Rightarrow> acache" where
  "grab b a = a\<lparr>a_refs := (a_refs a)(b := a_refs a b + 1), a_lock := (a_lock a)(b := Some (a_pid a))\<rparr>"

definition letgo :: "uint32 \<Rightarrow> acache \<Rightarrow> acache" where
  "letgo b a = a\<lparr>a_refs := (a_refs a)(b := a_refs a b - 1), a_lock := (a_lock a)(b := None)\<rparr>"

definition modify :: "uint32 \<Rightarrow> block \<Rightarrow> acache \<Rightarrow> acache" where
  "modify b d a = a\<lparr>a_view := (a_view a)(b := d)\<rparr>"

definition flush :: "uint32 \<Rightarrow> acache \<Rightarrow> acache" where
  "flush b a = a\<lparr>a_disk := (a_disk a)(b := a_view a b), a_writes := a_writes a @ [(b, a_view a b)]\<rparr>"

definition pin :: "uint32 \<Rightarrow> acache \<Rightarrow> acache" where
  "pin b a = a\<lparr>a_refs := (a_refs a)(b := a_refs a b + 1)\<rparr>"

definition unpin :: "uint32 \<Rightarrow> acache \<Rightarrow> acache" where
  "unpin b a = a\<lparr>a_refs := (a_refs a)(b := a_refs a b - 1)\<rparr>"

definition held :: "acache \<Rightarrow> uint32 \<Rightarrow> bool" where
  "held a b \<longleftrightarrow> a_lock a b = Some (a_pid a)"

definition room :: "acache \<Rightarrow> uint32 \<Rightarrow> bool" where
  "room a b \<longleftrightarrow> a_lock a b = None \<and> a_refs a b + 1 < 2 ^ 32 \<and> (a_refs a b > 0 \<or> card {c. a_refs a c > 0} < NBUF)"

definition keeps :: "acache \<Rightarrow> (uint32 \<Rightarrow> nat option) \<Rightarrow> (uint32 \<Rightarrow> nat option) \<Rightarrow> bool" where
  "keeps a h h' \<longleftrightarrow> (\<forall>c j. a_refs a c > 0 \<and> h c = Some j \<longrightarrow> h' c = Some j)"

lemmas acache_ops = grab_def letgo_def modify_def flush_def pin_def unpin_def

lemma keeps_refl [simp]: "keeps a h h"
  by (simp add: keeps_def)

locale buffer_cache =
  fixes rd :: "uint32 \<Rightarrow> ('s, nat) kfun"
    and wr :: "nat \<Rightarrow> ('s, unit) kfun"
    and rel :: "nat \<Rightarrow> ('s, unit) kfun"
    and pinb :: "nat \<Rightarrow> ('s, unit) kfun"
    and unpinb :: "nat \<Rightarrow> ('s, unit) kfun"
    and data :: "nat \<Rightarrow> ('s, block) kfun"
    and set_data :: "nat \<Rightarrow> block \<Rightarrow> ('s, unit) kfun"
    and inv :: "'s \<Rightarrow> bool"
    and abs :: "'s \<Rightarrow> acache"
    and handle :: "'s \<Rightarrow> uint32 \<Rightarrow> nat option"
    and frame :: "'s \<Rightarrow> 's \<Rightarrow> bool"
  assumes read_spec: "inv s \<Longrightarrow> room (abs s) b \<Longrightarrow> kspec (rd b) s (\<lambda>i s'. inv s' \<and> frame s s' \<and>
      handle s' b = Some i \<and> abs s' = grab b (abs s) \<and> keeps (abs s) (handle s) (handle s'))"
    and write_spec: "inv s \<Longrightarrow> handle s b = Some i \<Longrightarrow> held (abs s) b \<Longrightarrow> kspec (wr i) s (\<lambda>_ s'.
      inv s' \<and> frame s s' \<and> abs s' = flush b (abs s) \<and> handle s' = handle s)"
    and release_spec: "inv s \<Longrightarrow> handle s b = Some i \<Longrightarrow> held (abs s) b \<Longrightarrow>
      (a_refs (abs s) b = 1 \<Longrightarrow> a_view (abs s) b = a_disk (abs s) b) \<Longrightarrow> kspec (rel i) s (\<lambda>_ s'.
      inv s' \<and> frame s s' \<and> abs s' = letgo b (abs s) \<and> handle s' = handle s)"
    and pin_spec: "inv s \<Longrightarrow> handle s b = Some i \<Longrightarrow> 0 < a_refs (abs s) b \<Longrightarrow> a_refs (abs s) b + 1 < 2 ^ 32 \<Longrightarrow>
      kspec (pinb i) s (\<lambda>_ s'. inv s' \<and> frame s s' \<and> abs s' = pin b (abs s) \<and> handle s' = handle s)"
    and unpin_spec: "inv s \<Longrightarrow> handle s b = Some i \<Longrightarrow> held (abs s) b \<Longrightarrow> 1 < a_refs (abs s) b \<Longrightarrow>
      kspec (unpinb i) s (\<lambda>_ s'. inv s' \<and> frame s s' \<and> abs s' = unpin b (abs s) \<and> handle s' = handle s)"
    and data_spec: "inv s \<Longrightarrow> handle s b = Some i \<Longrightarrow> held (abs s) b \<Longrightarrow>
      kspec (data i) s (\<lambda>d s'. s' = s \<and> d = a_view (abs s) b)"
    and set_data_spec: "inv s \<Longrightarrow> handle s b = Some i \<Longrightarrow> held (abs s) b \<Longrightarrow> length d = BSIZE \<Longrightarrow>
      kspec (set_data i d) s (\<lambda>_ s'. inv s' \<and> frame s s' \<and> abs s' = modify b d (abs s) \<and> handle s' = handle s)"
    and view_size: "inv s \<Longrightarrow> length (a_view (abs s) b) = BSIZE"
    and unref_clean: "inv s \<Longrightarrow> a_refs (abs s) b = 0 \<Longrightarrow> a_view (abs s) b = a_disk (abs s) b"
    and frame_trans: "frame s s' \<Longrightarrow> frame s' s'' \<Longrightarrow> frame s s''"
begin

text \<open>Reading a block and releasing it leaves the abstract state as it was.\<close>

lemma read_block:
  assumes "inv s" "room (abs s) b"
  shows "kspec (kbind (rd b) (\<lambda>i. kbind (data i) (\<lambda>d. kbind (rel i) (\<lambda>_. kret (f d))))) s
    (\<lambda>r s'. r = f (a_view (abs s) b) \<and> inv s' \<and> frame s s' \<and> abs s' = abs s \<and> keeps (abs s) (handle s) (handle s'))"
proof -
  from read_spec [OF assms] obtain i s1 where 1: "rd b s = Ok i s1" "inv s1" "frame s s1"
    "handle s1 b = Some i" "abs s1 = grab b (abs s)" "keeps (abs s) (handle s) (handle s1)" by (auto simp: kspec_def)
  have h: "held (abs s1) b" by (simp add: 1 held_def grab_def)
  from data_spec [OF 1(2,4) h] have 2: "data i s1 = Ok (a_view (abs s) b) s1"
    by (auto simp: kspec_def 1 grab_def)
  have "a_view (abs s1) b = a_disk (abs s1) b" if "a_refs (abs s1) b = 1"
    using that unref_clean [OF assms(1), of b] by (simp add: 1 grab_def)
  from release_spec [OF 1(2,4) h this] obtain s2 where 3: "rel i s1 = Ok () s2" "inv s2" "frame s1 s2"
    "abs s2 = letgo b (abs s1)" "handle s2 = handle s1" by (auto simp: kspec_def)
  have "abs s2 = abs s"
    using assms(2) by (auto simp: 3 1 grab_def letgo_def room_def fun_eq_iff intro!: acache.equality)
  with 1 2 3 show ?thesis
    by (auto simp: kspec_def kbind_apply intro: frame_trans)
qed

text \<open>Changing a block in the cache and writing it to the disk.\<close>

lemma rewrite_block:
  assumes "inv s" "room (abs s) b" and len: "\<And>d. length d = BSIZE \<Longrightarrow> length (f d) = BSIZE"
  shows "kspec (kbind (rd b) (\<lambda>i. kbind (data i) (\<lambda>d. kbind (set_data i (f d)) (\<lambda>_.
      kbind (wr i) (\<lambda>_. rel i))))) s
    (\<lambda>_ s'. inv s' \<and> frame s s' \<and> abs s' = flush b (modify b (f (a_view (abs s) b)) (abs s)) \<and>
      keeps (abs s) (handle s) (handle s'))"
proof -
  from read_spec [OF assms(1,2)] obtain i s1 where 1: "rd b s = Ok i s1" "inv s1" "frame s s1"
    "handle s1 b = Some i" "abs s1 = grab b (abs s)" "keeps (abs s) (handle s) (handle s1)" by (auto simp: kspec_def)
  have h: "held (abs s1) b" by (simp add: 1 held_def grab_def)
  let ?d = "f (a_view (abs s) b)"
  from data_spec [OF 1(2,4) h] have 2: "data i s1 = Ok (a_view (abs s) b) s1"
    by (auto simp: kspec_def 1 grab_def)
  from set_data_spec [OF 1(2,4) h, of ?d] obtain s2 where 3: "set_data i ?d s1 = Ok () s2" "inv s2"
    "frame s1 s2" "abs s2 = modify b ?d (abs s1)" "handle s2 = handle s1"
    using len view_size [OF assms(1)] by (auto simp: kspec_def)
  have h2: "held (abs s2) b" "handle s2 b = Some i" using h 1 by (simp_all add: 3 held_def modify_def)
  from write_spec [OF 3(2) h2(2,1)] obtain s3 where 4: "wr i s2 = Ok () s3" "inv s3" "frame s2 s3"
    "abs s3 = flush b (abs s2)" "handle s3 = handle s2" by (auto simp: kspec_def)
  have h3: "held (abs s3) b" "handle s3 b = Some i" using h2 by (simp_all add: 4 held_def flush_def)
  have "a_view (abs s3) b = a_disk (abs s3) b" by (simp add: 4 flush_def)
  from release_spec [OF 4(2) h3(2,1) this] obtain s4 where 5: "rel i s3 = Ok () s4" "inv s4" "frame s3 s4"
    "abs s4 = letgo b (abs s3)" "handle s4 = handle s3" by (auto simp: kspec_def)
  have "abs s4 = flush b (modify b ?d (abs s))"
    using assms(2) by (auto simp: 1 3 4 5 acache_ops room_def fun_eq_iff intro!: acache.equality)
  with 1 2 3 4 5 show ?thesis
    by (auto simp: kspec_def kbind_apply intro: frame_trans)
qed

text \<open>Copying a cached block into another one and writing that one to the disk.\<close>

lemma copy_out:
  assumes "inv s" "room (abs s) a" "a \<noteq> b" "0 < a_refs (abs s) b" "a_refs (abs s) b + 1 < 2 ^ 32"
    and "a_lock (abs s) b = None"
  shows "kspec (kbind (rd a) (\<lambda>to. kbind (rd b) (\<lambda>from. kbind (data from) (\<lambda>d.
      kbind (set_data to d) (\<lambda>_. kbind (wr to) (\<lambda>_. kbind (rel from) (\<lambda>_. rel to))))))) s
    (\<lambda>_ s'. inv s' \<and> frame s s' \<and> abs s' = flush a (modify a (a_view (abs s) b) (abs s)))"
proof -
  let ?d = "a_view (abs s) b"
  from read_spec [OF assms(1,2)] obtain i s1 where 1: "rd a s = Ok i s1" "inv s1" "frame s s1"
    "handle s1 a = Some i" "abs s1 = grab a (abs s)" by (auto simp: kspec_def)
  have "room (abs s1) b" using assms by (simp add: 1 room_def grab_def)
  from read_spec [OF 1(2) this] obtain j s2 where 2: "rd b s1 = Ok j s2" "inv s2" "frame s1 s2"
    "handle s2 b = Some j" "abs s2 = grab b (abs s1)" "keeps (abs s1) (handle s1) (handle s2)" by (auto simp: kspec_def)
  have h2: "held (abs s2) a" "held (abs s2) b" "handle s2 a = Some i"
    using 1 2(6) assms(3) by (simp_all add: 2(5) held_def grab_def keeps_def)
  from data_spec [OF 2(2,4) h2(2)] have 3: "data j s2 = Ok ?d s2"
    by (auto simp: kspec_def 1 2 grab_def)
  from set_data_spec [OF 2(2) h2(3,1), of ?d] obtain s3 where 4: "set_data i ?d s2 = Ok () s3" "inv s3"
    "frame s2 s3" "abs s3 = modify a ?d (abs s2)" "handle s3 = handle s2"
    using view_size [OF assms(1)] by (auto simp: kspec_def)
  have h4: "held (abs s3) a" "handle s3 a = Some i" using h2 by (simp_all add: 4 held_def modify_def)
  from write_spec [OF 4(2) h4(2,1)] obtain s4 where 5: "wr i s3 = Ok () s4" "inv s4" "frame s3 s4"
    "abs s4 = flush a (abs s3)" "handle s4 = handle s3" by (auto simp: kspec_def)
  have h5: "held (abs s4) b" "handle s4 b = Some j" "a_refs (abs s4) b \<noteq> 1"
    using h2 2(4) assms(3,4) by (simp_all add: 1 2(5) 4 5 held_def acache_ops)
  from release_spec [OF 5(2) h5(2,1)] h5(3) obtain s5 where 6: "rel j s4 = Ok () s5" "inv s5" "frame s4 s5"
    "abs s5 = letgo b (abs s4)" "handle s5 = handle s4" by (auto simp: kspec_def)
  have h6: "held (abs s5) a" "handle s5 a = Some i" "a_view (abs s5) a = a_disk (abs s5) a"
    using h4 assms(3) by (simp_all add: 5 6 held_def acache_ops)
  from release_spec [OF 6(2) h6(2,1,3)] obtain s6 where 7: "rel i s5 = Ok () s6" "inv s6" "frame s5 s6"
    "abs s6 = letgo a (abs s5)" by (auto simp: kspec_def)
  have "abs s6 = flush a (modify a ?d (abs s))"
    using assms by (auto simp: 1 2(5) 4 5 6 7 acache_ops room_def fun_eq_iff intro!: acache.equality)
  moreover have "frame s s6" using 1(3) 2(3) 4(3) 5(3) 6(3) 7(3) by (metis frame_trans)
  ultimately show ?thesis using 1 2 3 4 5 6 7 by (auto simp: kspec_def kbind_apply)
qed

lemma install_block:
  assumes "inv s" "room (abs s) l" "room (grab l (abs s)) d" "l \<noteq> d" "u \<Longrightarrow> 0 < a_refs (abs s) d"
  shows "kspec (kbind (rd l) (\<lambda>lb. kbind (rd d) (\<lambda>db. kbind (data lb) (\<lambda>x. kbind (set_data db x) (\<lambda>_.
      kbind (wr db) (\<lambda>_. kbind (if u then unpinb db else kret ()) (\<lambda>_. kbind (rel lb) (\<lambda>_. rel db)))))))) s
    (\<lambda>_ s'. inv s' \<and> frame s s' \<and>
      abs s' = (let a = flush d (modify d (a_view (abs s) l) (abs s)) in if u then unpin d a else a))"
proof -
  let ?x = "a_view (abs s) l"
  from read_spec [OF assms(1,2)] obtain i s1 where 1: "rd l s = Ok i s1" "inv s1" "frame s s1"
    "handle s1 l = Some i" "abs s1 = grab l (abs s)" by (auto simp: kspec_def)
  have "room (abs s1) d" using assms(3) by (simp add: 1)
  from read_spec [OF 1(2) this] obtain j s2 where 2: "rd d s1 = Ok j s2" "inv s2" "frame s1 s2"
    "handle s2 d = Some j" "abs s2 = grab d (abs s1)" "keeps (abs s1) (handle s1) (handle s2)" by (auto simp: kspec_def)
  have h2: "held (abs s2) l" "held (abs s2) d" "handle s2 l = Some i"
    using 1 2(6) assms(4) by (simp_all add: 2(5) held_def grab_def keeps_def)
  from data_spec [OF 2(2) h2(3,1)] have 3: "data i s2 = Ok ?x s2"
    by (auto simp: kspec_def 1 2 grab_def)
  from set_data_spec [OF 2(2,4) h2(2), of ?x] obtain s3 where 4: "set_data j ?x s2 = Ok () s3" "inv s3"
    "frame s2 s3" "abs s3 = modify d ?x (abs s2)" "handle s3 = handle s2"
    using view_size [OF assms(1)] by (auto simp: kspec_def)
  have h4: "held (abs s3) d" "handle s3 d = Some j" using h2 2(4) by (simp_all add: 4 held_def modify_def)
  from write_spec [OF 4(2) h4(2,1)] obtain s4 where 5: "wr j s3 = Ok () s4" "inv s4" "frame s3 s4"
    "abs s4 = flush d (abs s3)" "handle s4 = handle s3" by (auto simp: kspec_def)
  have h5: "held (abs s4) d" "handle s4 d = Some j" using h4 by (simp_all add: 5 held_def flush_def)
  have "\<exists>s5. (if u then unpinb j else kret ()) s4 = Ok () s5 \<and> inv s5 \<and> frame s s5 \<and>
      abs s5 = (if u then unpin d (abs s4) else abs s4) \<and> handle s5 = handle s4"
  proof (cases u)
    case True
    have "1 < a_refs (abs s4) d" using assms(4,5) True by (simp add: 1 2(5) 4 5 acache_ops)
    from unpin_spec [OF 5(2) h5(2,1) this] True show ?thesis
      using 1(3) 2(3) 4(3) 5(3) by (auto simp: kspec_def) (metis frame_trans)
  next
    case False
    with 1(3) 2(3) 4(3) 5(2,3) show ?thesis by auto (metis frame_trans)
  qed
  then obtain s5 where 6: "(if u then unpinb j else kret ()) s4 = Ok () s5" "inv s5" "frame s s5"
      "abs s5 = (if u then unpin d (abs s4) else abs s4)" "handle s5 = handle s4" by blast
  have h6: "held (abs s5) l" "handle s5 l = Some i" "a_refs (abs s5) l = 1 \<Longrightarrow> a_view (abs s5) l = a_disk (abs s5) l"
    using h2 assms(4) unref_clean [OF assms(1), of l]
    by (cases u; simp add: 1 2(5) 4 5 6 held_def acache_ops)+
  from release_spec [OF 6(2) h6(2,1,3)] obtain s6 where 7: "rel i s5 = Ok () s6" "inv s6" "frame s5 s6"
    "abs s6 = letgo l (abs s5)" "handle s6 = handle s5" by (auto simp: kspec_def)
  have h7: "held (abs s6) d" "handle s6 d = Some j" "a_view (abs s6) d = a_disk (abs s6) d"
    using h5 assms(4) by (cases u; simp add: 6 7 held_def 5 acache_ops)+
  from release_spec [OF 7(2) h7(2,1,3)] obtain s7 where 8: "rel j s6 = Ok () s7" "inv s7" "frame s6 s7"
    "abs s7 = letgo d (abs s6)" by (auto simp: kspec_def)
  have "abs s7 = (let a = flush d (modify d ?x (abs s)) in if u then unpin d a else a)"
    using assms(2-5) by (auto simp: 1 2(5) 4 5 6 7 8 acache_ops room_def fun_eq_iff intro!: acache.equality)
  moreover have "frame s s7" using 6(3) 7(3) 8(3) by (metis frame_trans)
  ultimately show ?thesis using 1 2 3 4 5 6 7 8 by (auto simp: kspec_def kbind_apply)
qed

end

interpretation bc: buffer_cache "bread ROOTDEV" bwrite brelse bpin bunpin buf_data set_buf_data
  binv babs "\<lambda>s. bidx (bufs s)" bframe
proof
  fix s :: "'a kbio_scheme" and b
  assume "binv s" "room (babs s) b"
  then show "kspec (bread ROOTDEV b) s (\<lambda>i s'. binv s' \<and> bframe s s' \<and> bidx (bufs s') b = Some i \<and>
      babs s' = grab b (babs s) \<and> keeps (babs s) (bidx (bufs s)) (bidx (bufs s')))"
    using bread_law [of s b] unfolding kspec_def room_def grab_def keeps_def by blast
next
  fix s :: "'a kbio_scheme" and b i
  assume "binv s" "bidx (bufs s) b = Some i" "held (babs s) b"
  then show "kspec (bwrite i) s (\<lambda>_ s'. binv s' \<and> bframe s s' \<and> babs s' = flush b (babs s) \<and>
      bidx (bufs s') = bidx (bufs s))"
    using bwrite_law [of s b i] unfolding kspec_def held_def flush_def by blast
next
  fix s :: "'a kbio_scheme" and b i
  assume "binv s" "bidx (bufs s) b = Some i" "held (babs s) b"
    "a_refs (babs s) b = 1 \<Longrightarrow> a_view (babs s) b = a_disk (babs s) b"
  then show "kspec (brelse i) s (\<lambda>_ s'. binv s' \<and> bframe s s' \<and> babs s' = letgo b (babs s) \<and>
      bidx (bufs s') = bidx (bufs s))"
    using brelse_law [of s b i] unfolding kspec_def held_def letgo_def by blast
next
  fix s :: "'a kbio_scheme" and b i
  assume "binv s" "bidx (bufs s) b = Some i" "0 < a_refs (babs s) b" "a_refs (babs s) b + 1 < 2 ^ 32"
  then show "kspec (bpin i) s (\<lambda>_ s'. binv s' \<and> bframe s s' \<and> babs s' = pin b (babs s) \<and>
      bidx (bufs s') = bidx (bufs s))"
    using bpin_law [of s b i] unfolding kspec_def pin_def by blast
next
  fix s :: "'a kbio_scheme" and b i
  assume "binv s" "bidx (bufs s) b = Some i" "held (babs s) b" "1 < a_refs (babs s) b"
  then show "kspec (bunpin i) s (\<lambda>_ s'. binv s' \<and> bframe s s' \<and> babs s' = unpin b (babs s) \<and>
      bidx (bufs s') = bidx (bufs s))"
    using bunpin_law [of s b i] unfolding kspec_def held_def unpin_def by blast
next
  fix s :: "'a kbio_scheme" and b i
  assume "binv s" "bidx (bufs s) b = Some i" "held (babs s) b"
  then show "kspec (buf_data i) s (\<lambda>d s'. s' = s \<and> d = a_view (babs s) b)"
    using bdata_law [of s b i] by (simp add: buf_data_def held_def)
next
  fix s :: "'a kbio_scheme" and b i and d :: block
  assume "binv s" "bidx (bufs s) b = Some i" "held (babs s) b" "length d = BSIZE"
  then show "kspec (set_buf_data i d) s (\<lambda>_ s'. binv s' \<and> bframe s s' \<and> babs s' = modify b d (babs s) \<and>
      bidx (bufs s') = bidx (bufs s))"
    using setdata_law [of s b i d] unfolding kspec_def held_def modify_def set_buf_data_def by blast
qed (auto intro: view_length bframe_trans unref_view)

subsection \<open>Boot\<close>

text \<open>Static storage is zeroed at boot: no buffer belongs to a device or is referenced.\<close>

definition zeroed_bufs :: "buf list \<Rightarrow> bool" where
  "zeroed_bufs bs \<longleftrightarrow> length bs = NBUF + 1 \<and> (\<forall>x \<in> set bs. b_dev x = 0 \<and> b_refcnt x = 0 \<and> \<not> sl_locked (b_lock x))"

lemma zeroed_links: "zeroed_bufs bs \<Longrightarrow> zeroed_bufs (set_next b v bs)" "zeroed_bufs bs \<Longrightarrow> zeroed_bufs (set_prev b v bs)"
  unfolding zeroed_bufs_def set_next_def set_prev_def
  by (cases "b < length bs"; auto simp: list_update_beyond dest!: set_update_subset_insert [THEN subsetD])+

lemma zeroed_binit_step: "zeroed_bufs bs \<Longrightarrow> b < length bs \<Longrightarrow> zeroed_bufs (binit_step b bs)"
proof -
  assume z: "zeroed_bufs bs" "b < length bs"
  have "zeroed_bufs (cs[b := (cs ! b)\<lparr>b_lock := initsleeplock ''buffer''\<rparr>])" if "zeroed_bufs cs" "b < length cs" for cs
    using that unfolding zeroed_bufs_def
    by (auto simp: initsleeplock_def dest!: set_update_subset_insert [THEN subsetD])
  with z show ?thesis by (simp add: binit_step_def Let_def zeroed_links)
qed

lemma zeroed_fold_binit:
  "zeroed_bufs bs \<Longrightarrow> \<forall>b \<in> set ys. b < length bs \<Longrightarrow> zeroed_bufs (fold binit_step ys bs)"
  by (induction ys arbitrary: bs) (auto simp: zeroed_binit_step)

lemma zeroed_bidx:
  assumes "zeroed_bufs bs"
  shows "bidx bs b = None"
proof -
  have "\<not> keyed (bs ! i) b" if "i < NBUF" for i
  proof -
    have "bs ! i \<in> set bs" using that assms by (simp add: zeroed_bufs_def)
    then show ?thesis using assms by (auto simp: zeroed_bufs_def keyed_def)
  qed
  then show ?thesis by (simp add: bidx_None)
qed

lemma binit_boots:
  assumes "zeroed_bufs (bufs s)" "\<forall>b. length (disk s b) = BSIZE" "curproc s \<noteq> None" "the (curproc s) < length (procs s)"
  shows "\<exists>bs. binit s = Ok () (s\<lparr>bufs := bs\<rparr>) \<and> binv (s\<lparr>bufs := bs\<rparr>) \<and>
    (\<forall>b. a_refs (babs (s\<lparr>bufs := bs\<rparr>)) b = 0 \<and> a_lock (babs (s\<lparr>bufs := bs\<rparr>)) b = None)"
proof -
  define bs where "bs = fold binit_step [0..<NBUF] (set_next HEAD HEAD (set_prev HEAD HEAD (bufs s)))"
  have l: "length (bufs s) = NBUF + 1" using assms(1) by (simp add: zeroed_bufs_def)
  have z: "zeroed_bufs bs"
    unfolding bs_def using assms(1) l by (intro zeroed_fold_binit zeroed_links) (auto simp del: upt_conv_Cons)
  have run: "binit s = Ok () (s\<lparr>bufs := bs\<rparr>)" by (simp add: binit_def bs_def)
  from binit_dlist [OF l] run have dl: "dlist bs (rev [0..<NBUF])" by auto
  have k: "\<not> keyed (bs ! i) b" if "i < NBUF" for i b
    using zeroed_bidx [OF z, of b] that by (simp add: bidx_None)
  have ok: "buf_ok d (bs ! i)" if "i < NBUF" for i d
  proof -
    have "bs ! i \<in> set bs" using that z by (simp add: zeroed_bufs_def)
    then show ?thesis using z by (simp add: zeroed_bufs_def buf_ok_def)
  qed
  have "set (rev [0..<NBUF]) = {..<NBUF}" by (auto simp del: upt_conv_Cons upt_rec_numeral)
  then have "binv (s\<lparr>bufs := bs\<rparr>)"
    using assms dl k ok z by (auto simp: binv_def uniq_keys_def zeroed_bufs_def simp del: upt_conv_Cons upt_rec_numeral)
  moreover have "a_refs (babs (s\<lparr>bufs := bs\<rparr>)) b = 0 \<and> a_lock (babs (s\<lparr>bufs := bs\<rparr>)) b = None" for b
    by (simp add: babs_def zeroed_bidx [OF z])
  ultimately show ?thesis using run by blast
qed

end
