(* ===== verification/Log.thy ===== *)
theory Log
  imports Bcache
begin

text \<open>
  The write-ahead log, \<^verbatim>\<open>kernel/log.c\<close>.  The on-disk header is encoded in the bytes of block
  \<open>log_start\<close>: the count, then the home block numbers, four bytes each.  \<^verbatim>\<open>begin_op\<close> either
  reserves space or sleeps on the log.  An index beyond \<^verbatim>\<open>log.lh.block\<close>, which the C code would
  write out of bounds, is a panic of the model.
\<close>

record klog = kbio +
  log_start :: uint32
  log_size :: int
  log_outstanding :: int
  log_committing :: bool
  log_dev :: uint32
  lh_n :: int
  lh_block :: "uint32 list"

record superblock =
  sb_magic :: uint32
  sb_size :: uint32
  sb_nblocks :: uint32
  sb_ninodes :: uint32
  sb_nlog :: uint32
  sb_logstart :: uint32
  sb_inodestart :: uint32
  sb_bmapstart :: uint32

subsection \<open>The header block\<close>

definition head_n :: "block \<Rightarrow> int" where
  "head_n d = sint (le_word (get_bytes 0 4 d) :: uint32)"

definition head_block :: "block \<Rightarrow> nat \<Rightarrow> uint32" where
  "head_block d i = le_word (get_bytes (4 + 4 * i) 4 d)"

definition put_head :: "int \<Rightarrow> uint32 list \<Rightarrow> block \<Rightarrow> block" where
  "put_head n bl d =
     fold (\<lambda>i d. put_bytes (4 + 4 * i) (le_bytes 4 (bl ! i)) d) [0..<nat n]
       (put_bytes 0 (le_bytes 4 (word_of_int n :: uint32)) d)"

definition log_block_no :: "uint32 \<Rightarrow> nat \<Rightarrow> uint32" where
  "log_block_no start tail = start + of_nat tail + 1"

subsection \<open>Recovery and commit\<close>

definition install_block :: "bool \<Rightarrow> nat \<Rightarrow> ('a klog_scheme, unit) kfun" where
  "install_block recovering tail =
     kbind (kget (\<lambda>s. (log_dev s, log_block_no (log_start s) tail, lh_block s ! tail))) (\<lambda>(dev, lb, db).
     kbind (bread dev lb) (\<lambda>lbuf.
     kbind (bread dev db) (\<lambda>dbuf.
     kbind (buf_data lbuf) (\<lambda>d.
     kbind (set_buf_data dbuf d) (\<lambda>_.
     kbind (bwrite dbuf) (\<lambda>_.
     kbind (if \<not> recovering then bunpin dbuf else kret ()) (\<lambda>_.
     kbind (brelse lbuf) (\<lambda>_.
     brelse dbuf))))))))"

definition install_trans :: "bool \<Rightarrow> ('a klog_scheme, unit) kfun" where
  "install_trans recovering = kbind (kget lh_n) (\<lambda>n. kforeach [0..<nat n] (install_block recovering))"

definition read_head :: "('a klog_scheme, unit) kfun" where
  "read_head = kbind (kget (\<lambda>s. (log_dev s, log_start s))) (\<lambda>(dev, start).
     kbind (bread dev start) (\<lambda>b.
     kbind (buf_data b) (\<lambda>d.
     kbind (kmodify (\<lambda>s. s\<lparr>lh_n := head_n d\<rparr>)) (\<lambda>_.
     kbind (kforeach [0..<nat (head_n d)] (\<lambda>i.
       if i < LOGSIZE then kmodify (\<lambda>s. s\<lparr>lh_block := (lh_block s)[i := head_block d i]\<rparr>)
       else kpanic ''lh.block out of bounds'')) (\<lambda>_.
     brelse b)))))"

definition write_head :: "('a klog_scheme, unit) kfun" where
  "write_head = kbind (kget (\<lambda>s. (log_dev s, log_start s, lh_n s, lh_block s))) (\<lambda>(dev, start, n, bl).
     kbind (bread dev start) (\<lambda>b.
     kbind (buf_data b) (\<lambda>d.
     kbind (set_buf_data b (put_head n bl d)) (\<lambda>_.
     kbind (bwrite b) (\<lambda>_.
     brelse b)))))"

definition recover_from_log :: "('a klog_scheme, unit) kfun" where
  "recover_from_log =
     kbind read_head (\<lambda>_.
     kbind (install_trans True) (\<lambda>_.
     kbind (kmodify (\<lambda>s. s\<lparr>lh_n := 0\<rparr>)) (\<lambda>_.
     write_head)))"

definition initlog :: "uint32 \<Rightarrow> superblock \<Rightarrow> ('a klog_scheme, unit) kfun" where
  "initlog dev sb =
     (if 4 + 4 * LOGSIZE \<ge> BSIZE then kpanic ''initlog: too big logheader''
      else kbind (kmodify (\<lambda>s. s\<lparr>log_start := sb_logstart sb, log_size := sint (sb_nlog sb), log_dev := dev\<rparr>)) (\<lambda>_.
        recover_from_log))"

definition write_log_block :: "nat \<Rightarrow> ('a klog_scheme, unit) kfun" where
  "write_log_block tail =
     kbind (kget (\<lambda>s. (log_dev s, log_block_no (log_start s) tail, lh_block s ! tail))) (\<lambda>(dev, lb, db).
     kbind (bread dev lb) (\<lambda>to.
     kbind (bread dev db) (\<lambda>from.
     kbind (buf_data from) (\<lambda>d.
     kbind (set_buf_data to d) (\<lambda>_.
     kbind (bwrite to) (\<lambda>_.
     kbind (brelse from) (\<lambda>_.
     brelse to)))))))"

definition write_log :: "('a klog_scheme, unit) kfun" where
  "write_log = kbind (kget lh_n) (\<lambda>n. kforeach [0..<nat n] write_log_block)"

definition commit :: "('a klog_scheme, unit) kfun" where
  "commit = kbind (kget lh_n) (\<lambda>n.
     if n > 0 then
       kbind write_log (\<lambda>_.
       kbind write_head (\<lambda>_.
       kbind (install_trans False) (\<lambda>_.
       kbind (kmodify (\<lambda>s. s\<lparr>lh_n := 0\<rparr>)) (\<lambda>_.
       write_head))))
     else kret ())"

subsection \<open>Operations\<close>

definition begin_op :: "('a klog_scheme, unit) kfun" where
  "begin_op = (\<lambda>s.
     if log_committing s then sleep ChLog s
     else if lh_n s + (log_outstanding s + 1) * int MAXOPBLOCKS > int LOGSIZE then sleep ChLog s
     else Ok () (s\<lparr>log_outstanding := log_outstanding s + 1\<rparr>))"

definition end_op :: "('a klog_scheme, unit) kfun" where
  "end_op =
     kbind (kmodify (\<lambda>s. s\<lparr>log_outstanding := log_outstanding s - 1\<rparr>)) (\<lambda>_.
     kbind (kget (\<lambda>s. (log_committing s, log_outstanding s))) (\<lambda>(c, out).
       if c then kpanic ''log.committing''
       else if out = 0 then
         kbind (kmodify (\<lambda>s. s\<lparr>log_committing := True\<rparr>)) (\<lambda>_.
         kbind commit (\<lambda>_.
         kbind (kmodify (\<lambda>s. s\<lparr>log_committing := False\<rparr>)) (\<lambda>_.
         wakeup ChLog)))
       else wakeup ChLog))"

definition find_logged :: "nat \<Rightarrow> uint32 list \<Rightarrow> uint32 \<Rightarrow> nat" where
  "find_logged n bl b = (case find (\<lambda>i. bl ! i = b) [0..<n] of Some i \<Rightarrow> i | None \<Rightarrow> n)"

definition log_write :: "nat \<Rightarrow> ('a klog_scheme, unit) kfun" where
  "log_write b = kbind (kget (\<lambda>s. s)) (\<lambda>s.
     if lh_n s \<ge> int LOGSIZE \<or> lh_n s \<ge> log_size s - 1 then kpanic ''too big a transaction''
     else if log_outstanding s < 1 then kpanic ''log_write outside of trans''
     else
       let i = find_logged (nat (lh_n s)) (lh_block s) (b_blockno (bufs s ! b))
       in kbind (kmodify (\<lambda>s. s\<lparr>lh_block := (lh_block s)[i := b_blockno (bufs s ! b)]\<rparr>)) (\<lambda>_.
          if int i = lh_n s then
            kbind (bpin b) (\<lambda>_. kmodify (\<lambda>s. s\<lparr>lh_n := lh_n s + 1\<rparr>))
          else kret ()))"

subsection \<open>Encoding of the header\<close>

lemma put_block_nums:
  assumes "length d = BSIZE" "n \<le> LOGSIZE"
  shows "length (fold (\<lambda>i d. put_bytes (4 + 4 * i) (le_bytes 4 (bl ! i :: uint32)) d) [0..<n] d) = BSIZE \<and>
    get_bytes 0 4 (fold (\<lambda>i d. put_bytes (4 + 4 * i) (le_bytes 4 (bl ! i :: uint32)) d) [0..<n] d) = get_bytes 0 4 d \<and>
    (\<forall>j < n. get_bytes (4 + 4 * j) 4 (fold (\<lambda>i d. put_bytes (4 + 4 * i) (le_bytes 4 (bl ! i :: uint32)) d) [0..<n] d)
      = le_bytes 4 (bl ! j))"
  using assms(2)
proof (induction n)
  case 0
  with assms(1) show ?case by simp
next
  case (Suc n)
  let ?e = "fold (\<lambda>i d. put_bytes (4 + 4 * i) (le_bytes 4 (bl ! i :: uint32)) d) [0..<n] d"
  from Suc have IH: "length ?e = BSIZE" "get_bytes 0 4 ?e = get_bytes 0 4 d"
    "\<forall>j < n. get_bytes (4 + 4 * j) 4 ?e = le_bytes 4 (bl ! j)" by simp_all
  have "get_bytes (4 + 4 * j) 4 (put_bytes (4 + 4 * n) (le_bytes 4 (bl ! n)) ?e) = le_bytes 4 (bl ! j)"
    if "j < Suc n" for j
    using that IH Suc.prems by (cases "j = n") (auto simp: byte_simps)
  moreover have "get_bytes 0 4 (put_bytes (4 + 4 * n) (le_bytes 4 (bl ! n)) ?e) = get_bytes 0 4 d"
    using IH Suc.prems by (simp add: byte_simps)
  moreover have "length (put_bytes (4 + 4 * n) (le_bytes 4 (bl ! n)) ?e) = BSIZE"
    using IH Suc.prems by (simp add: byte_simps)
  ultimately show ?case by simp
qed

lemma put_head_props:
  assumes "length d = BSIZE" "n \<le> LOGSIZE"
  shows "length (put_head (int n) bl d) = BSIZE" "head_n (put_head (int n) bl d) = int n"
    "\<And>i. i < n \<Longrightarrow> head_block (put_head (int n) bl d) i = bl ! i"
proof -
  let ?d = "put_bytes 0 (le_bytes 4 (word_of_int (int n) :: uint32)) d"
  have l: "length ?d = BSIZE" using assms by (simp add: byte_simps)
  note p = put_block_nums [OF l assms(2), of bl]
  have "sint (word_of_int (int n) :: uint32) = int n"
    using assms(2) by (intro sint_small) simp
  then show "length (put_head (int n) bl d) = BSIZE" "head_n (put_head (int n) bl d) = int n"
    "\<And>i. i < n \<Longrightarrow> head_block (put_head (int n) bl d) i = bl ! i"
    using p assms by (simp_all add: put_head_def head_n_def head_block_def byte_simps)
qed

end
