(* ===== verification/Fs.thy ===== *)
theory Fs
  imports Log
begin

text \<open>
  Blocks, inodes and file contents, \<^verbatim>\<open>kernel/fs.c\<close> up to the directory layer.  On-disk inodes are
  encoded in the bytes of the inode blocks at the offsets of \<^verbatim>\<open>struct dinode\<close>; the free map is
  the bits of the bitmap blocks.  In-memory inodes are indices into \<^verbatim>\<open>itable.inode\<close>.
\<close>

abbreviation (input) ROOTINO :: uint32 where "ROOTINO \<equiv> 1"
abbreviation (input) FSMAGIC :: uint32 where "FSMAGIC \<equiv> 0x10203040"
abbreviation (input) NDIRECT :: nat where "NDIRECT \<equiv> 12"
abbreviation (input) NINDIRECT :: nat where "NINDIRECT \<equiv> 256"
abbreviation (input) MAXFILE :: nat where "MAXFILE \<equiv> 268"
abbreviation (input) IPB :: nat where "IPB \<equiv> 16"
abbreviation (input) BPB :: nat where "BPB \<equiv> 8192"
abbreviation (input) DIRSIZ :: nat where "DIRSIZ \<equiv> 14"
abbreviation (input) T_DIR :: uint16 where "T_DIR \<equiv> 1"
abbreviation (input) T_FILE :: uint16 where "T_FILE \<equiv> 2"
abbreviation (input) T_DEVICE :: uint16 where "T_DEVICE \<equiv> 3"

record dinode =
  d_type :: uint16
  d_major :: uint16
  d_minor :: uint16
  d_nlink :: uint16
  d_size :: uint32
  d_addrs :: "uint32 list"

record inode =
  i_dev :: uint32
  i_inum :: uint32
  i_ref :: int
  i_lock :: sleeplock
  i_valid :: bool
  i_type :: uint16
  i_major :: uint16
  i_minor :: uint16
  i_nlink :: uint16
  i_size :: uint32
  i_addrs :: "uint32 list"

record kfs = klog +
  sb :: superblock
  inodes :: "inode list"

definition IBLOCK :: "uint32 \<Rightarrow> superblock \<Rightarrow> uint32" where
  "IBLOCK i b = i div 16 + sb_inodestart b"

definition BBLOCK :: "uint32 \<Rightarrow> superblock \<Rightarrow> uint32" where
  "BBLOCK b B = b div 8192 + sb_bmapstart B"

subsection \<open>Encodings\<close>

definition superblock_of :: "block \<Rightarrow> superblock" where
  "superblock_of d = (let f = (\<lambda>i. le_word (get_bytes (4 * i) 4 d)) in
     \<lparr>sb_magic = f 0, sb_size = f 1, sb_nblocks = f 2, sb_ninodes = f 3, sb_nlog = f 4, sb_logstart = f 5,
      sb_inodestart = f 6, sb_bmapstart = f 7\<rparr>)"

definition dinode_at :: "nat \<Rightarrow> block \<Rightarrow> dinode" where
  "dinode_at k d = (let o0 = 64 * k in
     \<lparr>d_type = le_word (get_bytes o0 2 d), d_major = le_word (get_bytes (o0 + 2) 2 d),
      d_minor = le_word (get_bytes (o0 + 4) 2 d), d_nlink = le_word (get_bytes (o0 + 6) 2 d),
      d_size = le_word (get_bytes (o0 + 8) 4 d),
      d_addrs = map (\<lambda>i. le_word (get_bytes (o0 + 12 + 4 * i) 4 d)) [0..<NDIRECT + 1]\<rparr>)"

definition dinode_bytes :: "dinode \<Rightarrow> uint8 list" where
  "dinode_bytes x = le_bytes 2 (d_type x) @ le_bytes 2 (d_major x) @ le_bytes 2 (d_minor x) @
     le_bytes 2 (d_nlink x) @ le_bytes 4 (d_size x) @ concat (map (le_bytes 4) (d_addrs x))"

definition put_dinode :: "nat \<Rightarrow> dinode \<Rightarrow> block \<Rightarrow> block" where
  "put_dinode k x d = put_bytes (64 * k) (dinode_bytes x) d"

definition dip_index :: "uint32 \<Rightarrow> nat" where
  "dip_index inum = unat (inum mod 16)"

subsection \<open>The superblock\<close>

definition readsb :: "uint32 \<Rightarrow> ('a kfs_scheme, unit) kfun" where
  "readsb dev = kbind (bread dev 1) (\<lambda>bp.
     kbind (buf_data bp) (\<lambda>d.
     kbind (kmodify (\<lambda>s. s\<lparr>sb := superblock_of d\<rparr>)) (\<lambda>_.
     brelse bp)))"

definition fsinit :: "uint32 \<Rightarrow> ('a kfs_scheme, unit) kfun" where
  "fsinit dev = kbind (readsb dev) (\<lambda>_.
     kbind (kget sb) (\<lambda>b.
     if sb_magic b \<noteq> FSMAGIC then kpanic ''invalid file system''
     else initlog dev b))"

subsection \<open>Disk blocks\<close>

definition bzero :: "uint32 \<Rightarrow> uint32 \<Rightarrow> ('a kfs_scheme, unit) kfun" where
  "bzero dev bno = kbind (bread dev bno) (\<lambda>bp.
     kbind (set_buf_data bp (replicate BSIZE 0)) (\<lambda>_.
     kbind (log_write bp) (\<lambda>_.
     brelse bp)))"

definition bit_mask :: "nat \<Rightarrow> uint8" where
  "bit_mask bi = push_bit (bi mod 8) 1"

definition bit_used :: "block \<Rightarrow> nat \<Rightarrow> bool" where
  "bit_used d bi \<longleftrightarrow> d ! (bi div 8) AND bit_mask bi \<noteq> 0"

definition set_used :: "nat \<Rightarrow> block \<Rightarrow> block" where
  "set_used bi d = d[bi div 8 := d ! (bi div 8) OR bit_mask bi]"

definition clear_used :: "nat \<Rightarrow> block \<Rightarrow> block" where
  "clear_used bi d = d[bi div 8 := d ! (bi div 8) AND NOT (bit_mask bi)]"

fun balloc_loop :: "uint32 \<Rightarrow> nat list \<Rightarrow> ('a kfs_scheme, uint32) kfun" where
  "balloc_loop dev [] = kbind (kprint (''balloc: out of blocks'' @ [CHR 0x0A])) (\<lambda>_. kret 0)"
| "balloc_loop dev (b # bs) = kbind (kget sb) (\<lambda>sb.
     kbind (bread dev (BBLOCK (of_nat b) sb)) (\<lambda>bp.
     kbind (buf_data bp) (\<lambda>d.
     case find (\<lambda>bi. \<not> bit_used d bi) [0..<min BPB (unat (sb_size sb) - b)] of
       Some bi \<Rightarrow>
         kbind (set_buf_data bp (set_used bi d)) (\<lambda>_.
         kbind (log_write bp) (\<lambda>_.
         kbind (brelse bp) (\<lambda>_.
         kbind (bzero dev (of_nat (b + bi))) (\<lambda>_.
         kret (of_nat (b + bi))))))
     | None \<Rightarrow> kbind (brelse bp) (\<lambda>_. balloc_loop dev bs))))"

definition bitmap_starts :: "superblock \<Rightarrow> nat list" where
  "bitmap_starts b = map (\<lambda>k. k * BPB) [0..<(unat (sb_size b) + (BPB - 1)) div BPB]"

definition balloc :: "uint32 \<Rightarrow> ('a kfs_scheme, uint32) kfun" where
  "balloc dev = kbind (kget sb) (\<lambda>sb. balloc_loop dev (bitmap_starts sb))"

definition bfree :: "uint32 \<Rightarrow> uint32 \<Rightarrow> ('a kfs_scheme, unit) kfun" where
  "bfree dev b = kbind (kget sb) (\<lambda>sb.
     kbind (bread dev (BBLOCK b sb)) (\<lambda>bp.
     kbind (buf_data bp) (\<lambda>d.
     let bi = unat (b mod 8192) in
     if \<not> bit_used d bi then kpanic ''freeing free block''
     else kbind (set_buf_data bp (clear_used bi d)) (\<lambda>_.
       kbind (log_write bp) (\<lambda>_.
       brelse bp)))))"

subsection \<open>The inode table\<close>

definition get_inode :: "nat \<Rightarrow> ('a kfs_scheme, inode) kfun" where
  "get_inode ip = kget (\<lambda>s. inodes s ! ip)"

definition upd_inode :: "nat \<Rightarrow> (inode \<Rightarrow> inode) \<Rightarrow> ('a kfs_scheme, unit) kfun" where
  "upd_inode ip f = kmodify (\<lambda>s. s\<lparr>inodes := (inodes s)[ip := f (inodes s ! ip)]\<rparr>)"

definition inode_lock :: "nat \<Rightarrow> 'a kfs_scheme \<Rightarrow> sleeplock" where
  "inode_lock ip s = i_lock (inodes s ! ip)"

definition inode_lock_upd :: "nat \<Rightarrow> (sleeplock \<Rightarrow> sleeplock) \<Rightarrow> 'a kfs_scheme \<Rightarrow> 'a kfs_scheme" where
  "inode_lock_upd ip f s = s\<lparr>inodes := (inodes s)[ip := (inodes s ! ip)\<lparr>i_lock := f (i_lock (inodes s ! ip))\<rparr>]\<rparr>"

definition iinit :: "('a kfs_scheme, unit) kfun" where
  "iinit = kforeach [0..<NINODE] (\<lambda>i. upd_inode i (\<lambda>x. x\<lparr>i_lock := initsleeplock ''inode''\<rparr>))"

definition iget_find :: "inode list \<Rightarrow> uint32 \<Rightarrow> uint32 \<Rightarrow> nat option" where
  "iget_find is dev inum =
     find (\<lambda>i. i_ref (is ! i) > 0 \<and> i_dev (is ! i) = dev \<and> i_inum (is ! i) = inum) [0..<NINODE]"

definition iget_empty :: "inode list \<Rightarrow> nat option" where
  "iget_empty is = find (\<lambda>i. i_ref (is ! i) = 0) [0..<NINODE]"

definition iget :: "uint32 \<Rightarrow> uint32 \<Rightarrow> ('a kfs_scheme, nat) kfun" where
  "iget dev inum = kbind (kget inodes) (\<lambda>is.
     case iget_find is dev inum of
       Some ip \<Rightarrow> kbind (upd_inode ip (\<lambda>x. x\<lparr>i_ref := i_ref x + 1\<rparr>)) (\<lambda>_. kret ip)
     | None \<Rightarrow>
         (case iget_empty is of
            None \<Rightarrow> kpanic ''iget: no inodes''
          | Some ip \<Rightarrow>
              kbind (upd_inode ip (\<lambda>x. x\<lparr>i_dev := dev, i_inum := inum, i_ref := 1, i_valid := False\<rparr>)) (\<lambda>_.
              kret ip)))"

fun ialloc_loop :: "uint32 \<Rightarrow> uint16 \<Rightarrow> uint32 list \<Rightarrow> ('a kfs_scheme, nat option) kfun" where
  "ialloc_loop dev ty [] = kbind (kprint (''ialloc: no inodes'' @ [CHR 0x0A])) (\<lambda>_. kret None)"
| "ialloc_loop dev ty (inum # rest) = kbind (kget sb) (\<lambda>sb.
     kbind (bread dev (IBLOCK inum sb)) (\<lambda>bp.
     kbind (buf_data bp) (\<lambda>d.
     if d_type (dinode_at (dip_index inum) d) = 0 then
       kbind (set_buf_data bp (put_dinode (dip_index inum)
         \<lparr>d_type = ty, d_major = 0, d_minor = 0, d_nlink = 0, d_size = 0, d_addrs = replicate (NDIRECT + 1) 0\<rparr> d)) (\<lambda>_.
       kbind (log_write bp) (\<lambda>_.
       kbind (brelse bp) (\<lambda>_.
       kbind (iget dev inum) (\<lambda>ip. kret (Some ip)))))
     else kbind (brelse bp) (\<lambda>_. ialloc_loop dev ty rest))))"

definition ialloc :: "uint32 \<Rightarrow> uint16 \<Rightarrow> ('a kfs_scheme, nat option) kfun" where
  "ialloc dev ty = kbind (kget sb) (\<lambda>sb.
     ialloc_loop dev ty (map of_nat [1..<unat (sb_ninodes sb)]))"

definition dinode_of :: "inode \<Rightarrow> dinode" where
  "dinode_of x = \<lparr>d_type = i_type x, d_major = i_major x, d_minor = i_minor x, d_nlink = i_nlink x,
     d_size = i_size x, d_addrs = i_addrs x\<rparr>"

definition iupdate :: "nat \<Rightarrow> ('a kfs_scheme, unit) kfun" where
  "iupdate ip = kbind (kget (\<lambda>s. (sb s, inodes s ! ip))) (\<lambda>(sb, x).
     kbind (bread (i_dev x) (IBLOCK (i_inum x) sb)) (\<lambda>bp.
     kbind (buf_data bp) (\<lambda>d.
     kbind (set_buf_data bp (put_dinode (dip_index (i_inum x)) (dinode_of x) d)) (\<lambda>_.
     kbind (log_write bp) (\<lambda>_.
     brelse bp)))))"

definition idup :: "nat \<Rightarrow> ('a kfs_scheme, nat) kfun" where
  "idup ip = kbind (upd_inode ip (\<lambda>x. x\<lparr>i_ref := i_ref x + 1\<rparr>)) (\<lambda>_. kret ip)"

definition load_dinode :: "dinode \<Rightarrow> inode \<Rightarrow> inode" where
  "load_dinode d x = x\<lparr>i_type := d_type d, i_major := d_major d, i_minor := d_minor d, i_nlink := d_nlink d,
     i_size := d_size d, i_addrs := d_addrs d\<rparr>"

definition ilock :: "nat \<Rightarrow> ('a kfs_scheme, unit) kfun" where
  "ilock ip = kbind (get_inode ip) (\<lambda>x0.
     if i_ref x0 < 1 then kpanic ''ilock''
     else kbind (acquiresleep (ChInodeLock ip) (inode_lock ip) (inode_lock_upd ip)) (\<lambda>_.
       kbind (get_inode ip) (\<lambda>x.
       if \<not> i_valid x then
         kbind (kget sb) (\<lambda>sb.
         kbind (bread (i_dev x) (IBLOCK (i_inum x) sb)) (\<lambda>bp.
         kbind (buf_data bp) (\<lambda>d.
         let dip = dinode_at (dip_index (i_inum x)) d in
         kbind (upd_inode ip (load_dinode dip)) (\<lambda>_.
         kbind (brelse bp) (\<lambda>_.
         kbind (upd_inode ip (\<lambda>x. x\<lparr>i_valid := True\<rparr>)) (\<lambda>_.
         if d_type dip = 0 then kpanic ''ilock: no type'' else kret ()))))))
       else kret ())))"

definition iunlock :: "nat \<Rightarrow> ('a kfs_scheme, unit) kfun" where
  "iunlock ip = kbind (holdingsleep (inode_lock ip)) (\<lambda>h.
     kbind (get_inode ip) (\<lambda>x.
     if \<not> h \<or> i_ref x < 1 then kpanic ''iunlock''
     else releasesleep (ChInodeLock ip) (inode_lock_upd ip)))"

subsection \<open>File contents\<close>

definition bmap :: "nat \<Rightarrow> nat \<Rightarrow> ('a kfs_scheme, uint32) kfun" where
  "bmap ip bn = kbind (get_inode ip) (\<lambda>x.
     if bn < NDIRECT then
       if i_addrs x ! bn = 0 then
         kbind (balloc (i_dev x)) (\<lambda>addr.
         if addr = 0 then kret 0
         else kbind (upd_inode ip (\<lambda>x. x\<lparr>i_addrs := (i_addrs x)[bn := addr]\<rparr>)) (\<lambda>_. kret addr))
       else kret (i_addrs x ! bn)
     else if bn - NDIRECT < NINDIRECT then
       kbind (if i_addrs x ! NDIRECT = 0 then
           kbind (balloc (i_dev x)) (\<lambda>addr.
           if addr = 0 then kret 0
           else kbind (upd_inode ip (\<lambda>x. x\<lparr>i_addrs := (i_addrs x)[NDIRECT := addr]\<rparr>)) (\<lambda>_. kret addr))
         else kret (i_addrs x ! NDIRECT)) (\<lambda>ind.
       if ind = 0 then kret 0
       else kbind (bread (i_dev x) ind) (\<lambda>bp.
         kbind (buf_data bp) (\<lambda>d.
         let addr = le_word (get_bytes (4 * (bn - NDIRECT)) 4 d) in
         kbind (if addr = 0 then
             kbind (balloc (i_dev x)) (\<lambda>addr'.
             if addr' \<noteq> 0 then
               kbind (set_buf_data bp (put_bytes (4 * (bn - NDIRECT)) (le_bytes 4 addr') d)) (\<lambda>_.
               kbind (log_write bp) (\<lambda>_. kret addr'))
             else kret 0)
           else kret addr) (\<lambda>res.
         kbind (brelse bp) (\<lambda>_. kret res)))))
     else kpanic ''bmap: out of range'')"

definition itrunc :: "nat \<Rightarrow> ('a kfs_scheme, unit) kfun" where
  "itrunc ip =
     kbind (kforeach [0..<NDIRECT] (\<lambda>i. kbind (get_inode ip) (\<lambda>x.
       if i_addrs x ! i \<noteq> 0 then
         kbind (bfree (i_dev x) (i_addrs x ! i)) (\<lambda>_.
         upd_inode ip (\<lambda>x. x\<lparr>i_addrs := (i_addrs x)[i := 0]\<rparr>))
       else kret ()))) (\<lambda>_.
     kbind (get_inode ip) (\<lambda>x.
     kbind (if i_addrs x ! NDIRECT \<noteq> 0 then
         kbind (bread (i_dev x) (i_addrs x ! NDIRECT)) (\<lambda>bp.
         kbind (buf_data bp) (\<lambda>d.
         kbind (kforeach [0..<NINDIRECT] (\<lambda>j.
           let a = le_word (get_bytes (4 * j) 4 d) in
           if a \<noteq> 0 then bfree (i_dev x) a else kret ())) (\<lambda>_.
         kbind (brelse bp) (\<lambda>_.
         kbind (bfree (i_dev x) (i_addrs x ! NDIRECT)) (\<lambda>_.
         upd_inode ip (\<lambda>x. x\<lparr>i_addrs := (i_addrs x)[NDIRECT := 0]\<rparr>))))))
       else kret ()) (\<lambda>_.
     kbind (upd_inode ip (\<lambda>x. x\<lparr>i_size := 0\<rparr>)) (\<lambda>_.
     iupdate ip))))"

definition iput :: "nat \<Rightarrow> ('a kfs_scheme, unit) kfun" where
  "iput ip = kbind (get_inode ip) (\<lambda>x.
     kbind (if i_ref x = 1 \<and> i_valid x \<and> i_nlink x = 0 then
         kbind (acquiresleep (ChInodeLock ip) (inode_lock ip) (inode_lock_upd ip)) (\<lambda>_.
         kbind (itrunc ip) (\<lambda>_.
         kbind (upd_inode ip (\<lambda>x. x\<lparr>i_type := 0\<rparr>)) (\<lambda>_.
         kbind (iupdate ip) (\<lambda>_.
         kbind (upd_inode ip (\<lambda>x. x\<lparr>i_valid := False\<rparr>)) (\<lambda>_.
         releasesleep (ChInodeLock ip) (inode_lock_upd ip))))))
       else kret ()) (\<lambda>_.
     upd_inode ip (\<lambda>x. x\<lparr>i_ref := i_ref x - 1\<rparr>)))"

definition iunlockput :: "nat \<Rightarrow> ('a kfs_scheme, unit) kfun" where
  "iunlockput ip = kbind (iunlock ip) (\<lambda>_. iput ip)"

record stat =
  st_dev :: uint32
  st_ino :: uint32
  st_type :: uint16
  st_nlink :: uint16
  st_size :: uint64

definition stati :: "nat \<Rightarrow> ('a kfs_scheme, stat) kfun" where
  "stati ip = kbind (get_inode ip) (\<lambda>x. kret \<lparr>st_dev = i_dev x, st_ino = i_inum x, st_type = i_type x,
     st_nlink = i_nlink x, st_size = ucast (i_size x)\<rparr>)"

subsection \<open>Reading and writing\<close>

text \<open>
  The loops move at least one byte per iteration, so the number of bytes left bounds the
  number of iterations.  \<open>readi\<close> returns the count and the bytes it copied.
\<close>

fun readi_loop :: "nat \<Rightarrow> nat \<Rightarrow> dest \<Rightarrow> nat \<Rightarrow> nat \<Rightarrow> ('a kfs_scheme, int \<times> uint8 list) kfun" where
  "readi_loop 0 ip dst off n = kret (0, [])"
| "readi_loop (Suc k) ip dst off n =
     (if n = 0 then kret (0, [])
      else kbind (bmap ip (off div BSIZE)) (\<lambda>addr.
        if addr = 0 then kret (0, [])
        else kbind (get_inode ip) (\<lambda>x.
          kbind (bread (i_dev x) addr) (\<lambda>bp.
          kbind (buf_data bp) (\<lambda>d.
          let m = min n (BSIZE - off mod BSIZE); bs = get_bytes (off mod BSIZE) m d in
          kbind (either_copyout dst bs) (\<lambda>r.
          kbind (brelse bp) (\<lambda>_.
          if r = -1 then kret (-1, [])
          else kbind (readi_loop k ip (dest_add dst m) (off + m) (n - m)) (\<lambda>(t, rest).
            kret (if t = -1 then -1 else int m + t, bs @ rest)))))))))"

definition readi :: "nat \<Rightarrow> dest \<Rightarrow> uint32 \<Rightarrow> uint32 \<Rightarrow> ('a kfs_scheme, int \<times> uint8 list) kfun" where
  "readi ip dst off n = kbind (get_inode ip) (\<lambda>x.
     if off > i_size x \<or> off + n < off then kret (0, [])
     else
       let n' = (if off + n > i_size x then i_size x - off else n)
       in readi_loop (unat n') ip dst (unat off) (unat n'))"

fun writei_loop :: "nat \<Rightarrow> nat \<Rightarrow> source \<Rightarrow> nat \<Rightarrow> nat \<Rightarrow> ('a kfs_scheme, nat) kfun" where
  "writei_loop 0 ip src off n = kret 0"
| "writei_loop (Suc k) ip src off n =
     (if n = 0 then kret 0
      else kbind (bmap ip (off div BSIZE)) (\<lambda>addr.
        if addr = 0 then kret 0
        else kbind (get_inode ip) (\<lambda>x.
          kbind (bread (i_dev x) addr) (\<lambda>bp.
          kbind (buf_data bp) (\<lambda>d.
          let m = min n (BSIZE - off mod BSIZE) in
          kbind (either_copyin src m) (\<lambda>(r, bs).
          kbind (set_buf_data bp (put_bytes (off mod BSIZE) bs d)) (\<lambda>_.
          if r = -1 then kbind (brelse bp) (\<lambda>_. kret 0)
          else kbind (log_write bp) (\<lambda>_.
            kbind (brelse bp) (\<lambda>_.
            kbind (writei_loop k ip (source_add src m) (off + m) (n - m)) (\<lambda>t.
            kret (m + t)))))))))))"

definition writei :: "nat \<Rightarrow> source \<Rightarrow> uint32 \<Rightarrow> uint32 \<Rightarrow> ('a kfs_scheme, int) kfun" where
  "writei ip src off n = kbind (get_inode ip) (\<lambda>x.
     if off > i_size x \<or> off + n < off then kret (-1)
     else if unat (off + n) > MAXFILE * BSIZE then kret (-1)
     else kbind (writei_loop (unat n) ip src (unat off) (unat n)) (\<lambda>tot.
       kbind (upd_inode ip (\<lambda>x. if off + of_nat tot > i_size x then x\<lparr>i_size := off + of_nat tot\<rparr> else x)) (\<lambda>_.
       kbind (iupdate ip) (\<lambda>_.
       kret (int tot)))))"

end
