(* ===== verification/Dir.thy ===== *)
theory Dir
  imports Fs
begin

text \<open>
  Directories and path names, the last part of \<^verbatim>\<open>kernel/fs.c\<close>.  A path is the list of its bytes
  without the terminator; a name buffer is its \<^verbatim>\<open>DIRSIZ\<close> bytes.
\<close>

abbreviation (input) SLASH :: uint8 where "SLASH \<equiv> 47"

record dirent =
  de_inum :: uint16
  de_name :: "uint8 list"

definition dirent_of :: "uint8 list \<Rightarrow> dirent" where
  "dirent_of bs = \<lparr>de_inum = le_word (get_bytes 0 2 bs), de_name = get_bytes 2 DIRSIZ bs\<rparr>"

definition dirent_bytes :: "dirent \<Rightarrow> uint8 list" where
  "dirent_bytes e = le_bytes 2 (de_inum e) @ de_name e"

definition namecmp :: "uint8 list \<Rightarrow> uint8 list \<Rightarrow> int" where
  "namecmp s t = strncmp (two_strings s t) 0 4096 DIRSIZ"

definition strncpy_name :: "uint8 list \<Rightarrow> uint8 list \<Rightarrow> uint8 list" where
  "strncpy_name old nm = load_bytes (strncpy (two_strings old nm) 0 4096 (int DIRSIZ)) 0 DIRSIZ"

subsection \<open>Directory entries\<close>

fun dirlookup_loop :: "nat \<Rightarrow> nat \<Rightarrow> uint8 list \<Rightarrow> uint32 \<Rightarrow> ('a kfs_scheme, (nat \<times> uint32) option) kfun" where
  "dirlookup_loop 0 dp nm off = kret None"
| "dirlookup_loop (Suc k) dp nm off = kbind (get_inode dp) (\<lambda>x.
     if \<not> off < i_size x then kret None
     else kbind (readi dp ObjDst off 16) (\<lambda>(r, bs).
       if r \<noteq> 16 then kpanic ''dirlookup read''
       else
         let de = dirent_of bs in
         if de_inum de = 0 then dirlookup_loop k dp nm (off + 16)
         else if namecmp nm (de_name de) = 0 then
           kbind (iget (i_dev x) (ucast (de_inum de))) (\<lambda>ip. kret (Some (ip, off)))
         else dirlookup_loop k dp nm (off + 16)))"

definition dirent_slots :: "uint32 \<Rightarrow> nat" where
  "dirent_slots sz = (unat sz + 15) div 16"

definition dirlookup :: "nat \<Rightarrow> uint8 list \<Rightarrow> ('a kfs_scheme, (nat \<times> uint32) option) kfun" where
  "dirlookup dp nm = kbind (get_inode dp) (\<lambda>x.
     if i_type x \<noteq> T_DIR then kpanic ''dirlookup not DIR''
     else dirlookup_loop (dirent_slots (i_size x)) dp nm 0)"

fun dirlink_slot :: "nat \<Rightarrow> nat \<Rightarrow> uint32 \<Rightarrow> uint8 list \<Rightarrow> ('a kfs_scheme, uint32 \<times> uint8 list) kfun" where
  "dirlink_slot 0 dp off old = kret (off, old)"
| "dirlink_slot (Suc k) dp off old = kbind (get_inode dp) (\<lambda>x.
     if \<not> off < i_size x then kret (off, old)
     else kbind (readi dp ObjDst off 16) (\<lambda>(r, bs).
       if r \<noteq> 16 then kpanic ''dirlink read''
       else if de_inum (dirent_of bs) = 0 then kret (off, bs)
       else dirlink_slot k dp (off + 16) bs))"

text \<open>The entry buffer keeps what was last read into it; every byte of it is overwritten.\<close>

definition dirlink :: "nat \<Rightarrow> uint8 list \<Rightarrow> uint32 \<Rightarrow> ('a kfs_scheme, int) kfun" where
  "dirlink dp nm inum = kbind (dirlookup dp nm) (\<lambda>found.
     case found of
       Some (ip, off) \<Rightarrow> kbind (iput ip) (\<lambda>_. kret (-1))
     | None \<Rightarrow> kbind (get_inode dp) (\<lambda>x.
         kbind (dirlink_slot (dirent_slots (i_size x)) dp 0 (replicate 16 0)) (\<lambda>(off, old).
         let de = \<lparr>de_inum = ucast inum, de_name = strncpy_name (de_name (dirent_of old)) nm\<rparr> in
         kbind (writei dp (ObjSrc (dirent_bytes de)) off 16) (\<lambda>r.
         kret (if r \<noteq> 16 then -1 else 0)))))"

subsection \<open>Path elements\<close>

definition skipelem :: "uint8 list \<Rightarrow> uint8 list \<Rightarrow> (uint8 list \<times> uint8 list) option" where
  "skipelem path nm =
     (let p = dropWhile (\<lambda>c. c = SLASH) path in
      if p = [] then None
      else
        let s = takeWhile (\<lambda>c. c \<noteq> SLASH) p; rest = dropWhile (\<lambda>c. c \<noteq> SLASH) p;
            nm' = (if length s \<ge> DIRSIZ then take DIRSIZ s else put_bytes 0 (s @ [0]) nm)
        in Some (dropWhile (\<lambda>c. c = SLASH) rest, nm'))"

fun namex_loop :: "nat \<Rightarrow> nat \<Rightarrow> uint8 list \<Rightarrow> bool \<Rightarrow> uint8 list \<Rightarrow> ('a kfs_scheme, (nat \<times> uint8 list) option) kfun" where
  "namex_loop 0 ip path parent nm = kpanic ''namex: fuel''"
| "namex_loop (Suc k) ip path parent nm =
     (case skipelem path nm of
        None \<Rightarrow> if parent then kbind (iput ip) (\<lambda>_. kret None) else kret (Some (ip, nm))
      | Some (path', nm') \<Rightarrow>
          kbind (ilock ip) (\<lambda>_.
          kbind (get_inode ip) (\<lambda>x.
          if i_type x \<noteq> T_DIR then kbind (iunlockput ip) (\<lambda>_. kret None)
          else if parent \<and> path' = [] then kbind (iunlock ip) (\<lambda>_. kret (Some (ip, nm')))
          else kbind (dirlookup ip nm') (\<lambda>nxt.
            case nxt of
              None \<Rightarrow> kbind (iunlockput ip) (\<lambda>_. kret None)
            | Some (ip', _) \<Rightarrow> kbind (iunlockput ip) (\<lambda>_. namex_loop k ip' path' parent nm')))))"

definition namex :: "uint8 list \<Rightarrow> bool \<Rightarrow> uint8 list \<Rightarrow> ('a kfs_scheme, (nat \<times> uint8 list) option) kfun" where
  "namex path parent nm =
     kbind (if path \<noteq> [] \<and> hd path = SLASH then iget ROOTDEV ROOTINO
            else kbind myproc (\<lambda>i. kbind (get_proc i) (\<lambda>p.
              case p_cwd p of Some c \<Rightarrow> idup c | None \<Rightarrow> null_deref))) (\<lambda>ip.
     namex_loop (length path + 1) ip path parent nm)"

definition namei :: "uint8 list \<Rightarrow> ('a kfs_scheme, nat option) kfun" where
  "namei path = kbind (namex path False (replicate DIRSIZ 0)) (\<lambda>r. kret (map_option fst r))"

definition nameiparent :: "uint8 list \<Rightarrow> uint8 list \<Rightarrow> ('a kfs_scheme, (nat \<times> uint8 list) option) kfun" where
  "nameiparent path nm = namex path True nm"

end
