(* ===== verification/Log_Crash.thy ===== *)
theory Log_Crash
  imports Log
begin

text \<open>
  What commit and recovery write, and atomicity under crashes.  A crash loses memory and
  leaves the disk as some prefix of the writes made it; \<open>apply_writes\<close> is that disk.
\<close>

definition apply_writes :: "(uint32 \<times> block) list \<Rightarrow> (uint32 \<Rightarrow> block) \<Rightarrow> uint32 \<Rightarrow> block" where
  "apply_writes ws d = fold (\<lambda>(b, x) d. d(b := x)) ws d"

definition awrite :: "(uint32 \<times> block) list \<Rightarrow> acache \<Rightarrow> acache" where
  "awrite ws a = a\<lparr>a_view := apply_writes ws (a_view a), a_disk := apply_writes ws (a_disk a),
     a_writes := a_writes a @ ws\<rparr>"

definition unpins :: "uint32 set \<Rightarrow> acache \<Rightarrow> acache" where
  "unpins ds a = a\<lparr>a_refs := (\<lambda>b. a_refs a b - (if b \<in> ds then 1 else 0))\<rparr>"

lemma apply_writes_simps [simp]:
  "apply_writes [] d = d" "apply_writes ((b, x) # ws) d = apply_writes ws (d(b := x))"
  "apply_writes (ws @ ws') d = apply_writes ws' (apply_writes ws d)"
  by (simp_all add: apply_writes_def)

lemma apply_writes_other: "b \<notin> fst ` set ws \<Longrightarrow> apply_writes ws d b = d b"
  by (induction ws arbitrary: d) auto

lemma apply_writes_map:
  assumes "b \<in> f ` set xs" "\<And>x. x \<in> set xs \<Longrightarrow> f x = b \<Longrightarrow> g x = v"
  shows "apply_writes (map (\<lambda>i. (f i, g i)) xs) d b = v"
  using assms
proof (induction xs arbitrary: d)
  case (Cons x xs)
  then show ?case
    by (cases "b \<in> f ` set xs") (auto simp: apply_writes_other image_iff)
qed simp

lemma flush_modify: "flush b (modify b d a) = awrite [(b, d)] a"
  by (simp add: flush_def modify_def awrite_def)

lemma awrite_append: "awrite ws' (awrite ws a) = awrite (ws @ ws') a"
  by (simp add: awrite_def)

lemma awrite_nil [simp]: "awrite [] a = a"
  by (simp add: awrite_def)

lemma awrite_fields [simp]: "a_refs (awrite ws a) = a_refs a" "a_lock (awrite ws a) = a_lock a"
    "a_pid (awrite ws a) = a_pid a" "a_view (awrite ws a) = apply_writes ws (a_view a)"
    "a_disk (awrite ws a) = apply_writes ws (a_disk a)" "a_writes (awrite ws a) = a_writes a @ ws"
  by (simp_all add: awrite_def)

lemma unpins_fields [simp]: "a_lock (unpins ds a) = a_lock a" "a_pid (unpins ds a) = a_pid a"
    "a_view (unpins ds a) = a_view a" "a_disk (unpins ds a) = a_disk a" "a_writes (unpins ds a) = a_writes a"
    "a_refs (unpins ds a) b = a_refs a b - (if b \<in> ds then 1 else 0)"
  by (simp_all add: unpins_def)

lemma unpins_empty [simp]: "unpins {} a = a"
  by (simp add: unpins_def)

lemma awrite_unpins: "awrite ws (unpins ds a) = unpins ds (awrite ws a)"
  by (simp add: awrite_def unpins_def)

lemma unpin_unpins: "b \<notin> ds \<Longrightarrow> unpin b (unpins ds a) = unpins (insert b ds) a"
  by (auto simp: unpin_def unpins_def fun_eq_iff intro!: acache.equality)

lemma room_awrite [simp]: "room (awrite ws a) b = room a b"
  by (simp add: room_def)

lemma grab_awrite: "grab b (awrite ws a) = awrite ws (grab b a)"
  by (simp add: grab_def awrite_def)

lemma bframe_log:
  assumes "bframe s (s' :: 'a klog_scheme)"
  shows "log_dev s' = log_dev s \<and> log_start s' = log_start s \<and> lh_n s' = lh_n s \<and> lh_block s' = lh_block s \<and>
    log_size s' = log_size s \<and> log_outstanding s' = log_outstanding s \<and> log_committing s' = log_committing s"
  using assms by (auto simp: bframe_iff)

lemma log_fields_bio [simp]:
  "binv (s\<lparr>lh_n := n\<rparr>) = binv s" "babs (s\<lparr>lh_n := n\<rparr>) = babs s"
  "binv (s\<lparr>lh_block := bl\<rparr>) = binv s" "babs (s\<lparr>lh_block := bl\<rparr>) = babs s"
  by (simp_all add: binv_def babs_def cong: option.case_cong)

subsection \<open>The log region\<close>

definition home :: "uint32 \<Rightarrow> uint32 \<Rightarrow> bool" where
  "home start b \<longleftrightarrow> b \<noteq> start \<and> (\<forall>i < LOGSIZE. b \<noteq> log_block_no start i)"

lemma log_block_no_inject:
  assumes "log_block_no start i = log_block_no start j" "i \<le> LOGSIZE" "j \<le> LOGSIZE"
  shows "i = j"
proof -
  have "(of_nat i :: uint32) = of_nat j" using assms(1) by (simp add: log_block_no_def)
  then have "unat (of_nat i :: uint32) = unat (of_nat j :: uint32)" by simp
  with assms(2,3) show ?thesis by (simp add: unat_of_nat_less)
qed

lemma log_block_no_neq_start: "i < LOGSIZE \<Longrightarrow> log_block_no start i \<noteq> start"
proof
  assume i: "i < LOGSIZE" and "log_block_no start i = start"
  then have "(of_nat (i + 1) :: uint32) = 0" by (simp add: log_block_no_def add.assoc add.commute)
  then have "unat (of_nat (i + 1) :: uint32) = 0" by (simp only: unsigned_0)
  with i show False by (simp add: unat_of_nat_less del: of_nat_add of_nat_Suc)
qed

subsection \<open>What the phases of a commit write\<close>

lemma write_log_spec:
  fixes s :: "'a klog_scheme"
  defines "lb \<equiv> log_block_no (log_start s)" and "hb \<equiv> \<lambda>i. lh_block s ! i"
  assumes "binv s" "log_dev s = ROOTDEV" "lh_n s = int n"
    and "\<And>i. i < n \<Longrightarrow> room (babs s) (lb i)"
    and "\<And>i. i < n \<Longrightarrow> 0 < a_refs (babs s) (hb i) \<and> a_refs (babs s) (hb i) + 1 < 2 ^ 32 \<and> a_lock (babs s) (hb i) = None"
    and "\<And>i j. i < n \<Longrightarrow> j < n \<Longrightarrow> lb i \<noteq> hb j"
  shows "kspec write_log s (\<lambda>_ s'. binv s' \<and> bframe s s' \<and>
    babs s' = awrite (map (\<lambda>i. (lb i, a_view (babs s) (hb i))) [0..<n]) (babs s))"
proof -
  define W where "W = (\<lambda>k. map (\<lambda>i. (lb i, a_view (babs s) (hb i))) [0..<k])"
  define I where "I = (\<lambda>k s'. binv s' \<and> bframe s s' \<and> babs s' = awrite (W k) (babs s))"
  have "kspec write_log s (\<lambda>_ s'. I (length [0..<nat (lh_n s)]) s')"
    unfolding write_log_def kspec_kget_bind
  proof (rule kspec_foreach)
    show "I 0 s" using assms(3) by (simp add: I_def W_def)
  next
    fix k s1
    assume "k < length [0..<nat (lh_n s)]" and inv: "I k s1"
    then have k: "k < n" "[0..<nat (lh_n s)] ! k = k" using assms(5) by auto
    note f = bframe_log [of s s1]
    have fr: "bframe s s1" "binv s1" "babs s1 = awrite (W k) (babs s)" using inv by (simp_all add: I_def)
    have "lb x \<noteq> hb k" if "x < k" for x using assms(8) that k(1) by simp
    then have "hb k \<notin> fst ` set (W k)" by (force simp: W_def)
    then have v: "a_view (babs s1) (hb k) = a_view (babs s) (hb k)"
      by (simp add: fr(3) apply_writes_other)
    have "write_log_block k s1 = kbind (bread ROOTDEV (lb k)) (\<lambda>to. kbind (bread ROOTDEV (hb k)) (\<lambda>from.
        kbind (buf_data from) (\<lambda>d. kbind (set_buf_data to d) (\<lambda>_. kbind (bwrite to) (\<lambda>_.
        kbind (brelse from) (\<lambda>_. brelse to)))))) s1"
      using f [OF fr(1)] assms(4) by (simp add: write_log_block_def lb_def hb_def kbind_apply [of "kget _"])
    moreover have "kspec (kbind (bread ROOTDEV (lb k)) (\<lambda>to. kbind (bread ROOTDEV (hb k)) (\<lambda>from.
        kbind (buf_data from) (\<lambda>d. kbind (set_buf_data to d) (\<lambda>_. kbind (bwrite to) (\<lambda>_.
        kbind (brelse from) (\<lambda>_. brelse to))))))) s1
      (\<lambda>_ s'. binv s' \<and> bframe s1 s' \<and>
        babs s' = flush (lb k) (modify (lb k) (a_view (babs s1) (hb k)) (babs s1)))"
      using assms(6-8) k fr by (intro bc.copy_out) auto
    moreover have "flush (lb k) (modify (lb k) (a_view (babs s1) (hb k)) (babs s1)) = awrite (W (Suc k)) (babs s)"
      unfolding flush_modify v unfolding fr(3) awrite_append by (simp add: W_def)
    ultimately show "kspec (write_log_block ([0..<nat (lh_n s)] ! k)) s1 (\<lambda>_ s'. I (Suc k) s')"
      unfolding k(2) kspec_def by (auto simp: I_def intro: bframe_trans [OF fr(1)])
  qed
  then show ?thesis using assms(5) by (simp add: I_def W_def)
qed

lemma write_head_spec:
  fixes s :: "'a klog_scheme"
  assumes "binv s" "log_dev s = ROOTDEV" "lh_n s = int n" "n \<le> LOGSIZE" "room (babs s) (log_start s)"
  shows "kspec write_head s (\<lambda>_ s'. binv s' \<and> bframe s s' \<and>
    babs s' = awrite [(log_start s, put_head (int n) (lh_block s) (a_view (babs s) (log_start s)))] (babs s))"
proof -
  have "kspec (kbind (bread ROOTDEV (log_start s)) (\<lambda>b. kbind (buf_data b) (\<lambda>d.
      kbind (set_buf_data b (put_head (int n) (lh_block s) d)) (\<lambda>_. kbind (bwrite b) (\<lambda>_. brelse b))))) s
    (\<lambda>_ s'. binv s' \<and> bframe s s' \<and> babs s' = flush (log_start s) (modify (log_start s)
      (put_head (int n) (lh_block s) (a_view (babs s) (log_start s))) (babs s)) \<and>
      keeps (babs s) (bidx (bufs s)) (bidx (bufs s')))"
    using assms by (intro bc.rewrite_block) (auto simp: put_head_props)
  then show ?thesis
    unfolding write_head_def kspec_kget_bind using assms(2,3)
    by (auto simp: flush_modify elim!: kspec_mono)
qed

text \<open>
  Installation, during commit (the blocks are pinned and lose their pin) or recovery.
\<close>

lemma install_trans_spec:
  fixes s :: "'a klog_scheme"
  defines "lb \<equiv> log_block_no (log_start s)" and "hb \<equiv> \<lambda>i. lh_block s ! i"
  assumes "binv s" "log_dev s = ROOTDEV" "lh_n s = int n"
    and rl: "\<And>i ds. i < n \<Longrightarrow> ds \<subseteq> hb ` {..<i} \<Longrightarrow> (rec \<longrightarrow> ds = {}) \<Longrightarrow>
      room (unpins ds (babs s)) (lb i) \<and> room (grab (lb i) (unpins ds (babs s))) (hb i)"
    and pinned: "\<And>i. i < n \<Longrightarrow> \<not> rec \<Longrightarrow> 0 < a_refs (babs s) (hb i)"
    and dist: "\<not> rec \<Longrightarrow> inj_on hb {..<n}"
    and ne: "\<And>i j. i < n \<Longrightarrow> j < n \<Longrightarrow> lb i \<noteq> hb j"
  shows "kspec (install_trans rec) s (\<lambda>_ s'. binv s' \<and> bframe s s' \<and>
    babs s' = unpins (if rec then {} else hb ` {..<n})
      (awrite (map (\<lambda>i. (hb i, a_view (babs s) (lb i))) [0..<n]) (babs s)))"
proof -
  define W where "W = (\<lambda>k. map (\<lambda>i. (hb i, a_view (babs s) (lb i))) [0..<k])"
  define D where "D = (\<lambda>k. if rec then {} else hb ` {..<k})"
  define I where "I = (\<lambda>k s'. binv s' \<and> bframe s s' \<and> babs s' = unpins (D k) (awrite (W k) (babs s)))"
  have "kspec (install_trans rec) s (\<lambda>_ s'. I (length [0..<nat (lh_n s)]) s')"
    unfolding install_trans_def kspec_kget_bind
  proof (rule kspec_foreach)
    show "I 0 s" using assms(3) by (simp add: I_def W_def D_def)
  next
    fix k s1
    assume "k < length [0..<nat (lh_n s)]" and inv: "I k s1"
    then have k: "k < n" "[0..<nat (lh_n s)] ! k = k" using assms(5) by auto
    have fr: "bframe s s1" "binv s1" "babs s1 = unpins (D k) (awrite (W k) (babs s))" using inv by (simp_all add: I_def)
    have "lb k \<noteq> hb x" if "x < k" for x using ne that k(1) by simp
    then have "lb k \<notin> fst ` set (W k)" by (force simp: W_def)
    then have v: "a_view (babs s1) (lb k) = a_view (babs s) (lb k)"
      by (simp add: fr(3) apply_writes_other)
    have room: "room (babs s1) (lb k)" "room (grab (lb k) (babs s1)) (hb k)"
      using rl [OF k(1), of "D k"] unfolding fr(3) awrite_unpins [symmetric] grab_awrite room_awrite
      by (auto simp: D_def)
    have fresh: "hb k \<notin> D k"
    proof
      assume "hb k \<in> D k"
      then obtain x where x: "\<not> rec" "x < k" "hb k = hb x" by (auto simp: D_def split: if_splits)
      from inj_onD [OF dist [OF x(1)] x(3)] x(2) k(1) show False by simp
    qed
    have pin: "0 < a_refs (babs s1) (hb k)" if "\<not> rec"
      using pinned [OF k(1) that] fresh by (simp add: fr(3))
    have "install_block rec k s1 = kbind (bread ROOTDEV (lb k)) (\<lambda>l. kbind (bread ROOTDEV (hb k)) (\<lambda>d.
        kbind (buf_data l) (\<lambda>x. kbind (set_buf_data d x) (\<lambda>_. kbind (bwrite d) (\<lambda>_.
        kbind (if \<not> rec then bunpin d else kret ()) (\<lambda>_. kbind (brelse l) (\<lambda>_. brelse d))))))) s1"
      using bframe_log [OF fr(1)] assms(4) by (simp add: install_block_def lb_def hb_def kbind_apply [of "kget _"])
    moreover have "kspec (kbind (bread ROOTDEV (lb k)) (\<lambda>l. kbind (bread ROOTDEV (hb k)) (\<lambda>d.
        kbind (buf_data l) (\<lambda>x. kbind (set_buf_data d x) (\<lambda>_. kbind (bwrite d) (\<lambda>_.
        kbind (if \<not> rec then bunpin d else kret ()) (\<lambda>_. kbind (brelse l) (\<lambda>_. brelse d)))))))) s1
      (\<lambda>_ s'. binv s' \<and> bframe s1 s' \<and> babs s' = (let a = flush (hb k) (modify (hb k) (a_view (babs s1) (lb k)) (babs s1))
        in if \<not> rec then unpin (hb k) a else a))"
      using fr(2) room ne [OF k(1,1)] pin by (intro bc.install_block) auto
    moreover have "(let a = flush (hb k) (modify (hb k) (a_view (babs s1) (lb k)) (babs s1))
        in if \<not> rec then unpin (hb k) a else a) = unpins (D (Suc k)) (awrite (W (Suc k)) (babs s))"
      using fresh unfolding flush_modify v unfolding fr(3)
      by (auto simp: awrite_unpins awrite_append unpin_unpins W_def D_def lessThan_Suc)
    ultimately show "kspec (install_block rec ([0..<nat (lh_n s)] ! k)) s1 (\<lambda>_ s'. I (Suc k) s')"
      unfolding k(2) kspec_def by (auto simp: I_def intro: bframe_trans [OF fr(1)])
  qed
  then show ?thesis using assms(5) by (simp add: I_def W_def D_def)
qed

subsection \<open>Commit\<close>

definition txn :: "'a klog_scheme \<Rightarrow> uint32 list" where
  "txn s = take (nat (lh_n s)) (lh_block s)"

text \<open>
  The state in which \<^verbatim>\<open>end_op\<close> commits: the blocks of the transaction are distinct home blocks,
  pinned and unlocked, and at least one buffer is free.
\<close>

definition txn_ready :: "'a klog_scheme \<Rightarrow> bool" where
  "txn_ready s \<longleftrightarrow> binv s \<and> log_dev s = ROOTDEV \<and> 0 \<le> lh_n s \<and> lh_n s < int NBUF \<and>
     length (lh_block s) = LOGSIZE \<and> distinct (txn s) \<and>
     (\<forall>b \<in> set (txn s). home (log_start s) b \<and> 0 < a_refs (babs s) b \<and> a_lock (babs s) b = None) \<and>
     (\<forall>b. \<not> home (log_start s) b \<longrightarrow> a_lock (babs s) b = None) \<and>
     (\<forall>b. a_refs (babs s) b + 1 < 2 ^ 32) \<and> card {b. 0 < a_refs (babs s) b} < NBUF"

definition log_writes :: "'a klog_scheme \<Rightarrow> (uint32 \<times> block) list" where
  "log_writes s = map (\<lambda>i. (log_block_no (log_start s) i, a_view (babs s) (txn s ! i))) [0..<length (txn s)]"

definition home_writes :: "'a klog_scheme \<Rightarrow> (uint32 \<times> block) list" where
  "home_writes s = map (\<lambda>i. (txn s ! i, a_view (babs s) (txn s ! i))) [0..<length (txn s)]"

definition head_data :: "'a klog_scheme \<Rightarrow> block" where
  "head_data s = put_head (lh_n s) (lh_block s) (a_view (babs s) (log_start s))"

definition commit_writes :: "'a klog_scheme \<Rightarrow> (uint32 \<times> block) list" where
  "commit_writes s = log_writes s @ [(log_start s, head_data s)] @ home_writes s @
     [(log_start s, put_head 0 (lh_block s) (head_data s))]"

lemma card_unpins: "card {b. 0 < a_refs (unpins ds a) b} \<le> card {b. 0 < a_refs a b}"
  by (rule card_mono) (auto split: if_splits)

lemma txn_readyD:
  assumes "txn_ready s"
  defines "n \<equiv> nat (lh_n s)"
  shows "lh_n s = int n" "n < NBUF" "length (txn s) = n"
    "\<And>i. i < n \<Longrightarrow> txn s ! i = lh_block s ! i"
    "\<And>i. i < n \<Longrightarrow> home (log_start s) (lh_block s ! i) \<and> 0 < a_refs (babs s) (lh_block s ! i) \<and>
      a_lock (babs s) (lh_block s ! i) = None"
    "inj_on (\<lambda>i. lh_block s ! i) {..<n}" "(\<lambda>i. lh_block s ! i) ` {..<n} = set (txn s)"
    "\<And>i j. i < n \<Longrightarrow> j < n \<Longrightarrow> log_block_no (log_start s) i \<noteq> lh_block s ! j"
    "\<And>i. i < n \<Longrightarrow> room (babs s) (log_block_no (log_start s) i)" "room (babs s) (log_start s)"
proof -
  have r: "binv s" "0 \<le> lh_n s" "lh_n s < int NBUF" "length (lh_block s) = LOGSIZE" "distinct (txn s)"
    "\<forall>b \<in> set (txn s). home (log_start s) b \<and> 0 < a_refs (babs s) b \<and> a_lock (babs s) b = None"
    "\<forall>b. \<not> home (log_start s) b \<longrightarrow> a_lock (babs s) b = None"
    "\<forall>b. a_refs (babs s) b + 1 < 2 ^ 32" "card {b. 0 < a_refs (babs s) b} < NBUF"
    using assms(1) by (simp_all add: txn_ready_def)
  show n: "lh_n s = int n" "n < NBUF" using r(2,3) by (auto simp: n_def)
  show l: "length (txn s) = n" using n r(4) by (simp add: txn_def n_def)
  show nth: "txn s ! i = lh_block s ! i" if "i < n" for i using that by (simp add: txn_def n_def)
  show h: "home (log_start s) (lh_block s ! i) \<and> 0 < a_refs (babs s) (lh_block s ! i) \<and>
      a_lock (babs s) (lh_block s ! i) = None" if "i < n" for i
  proof -
    have "lh_block s ! i \<in> set (txn s)" using that l nth by (metis nth_mem)
    with r(6) show ?thesis by blast
  qed
  show "inj_on (\<lambda>i. lh_block s ! i) {..<n}"
    using r(5) l nth by (metis (mono_tags, lifting) inj_onI lessThan_iff nth_eq_iff_index_eq)
  show "(\<lambda>i. lh_block s ! i) ` {..<n} = set (txn s)"
    using l nth by (force simp: set_conv_nth)
  show "log_block_no (log_start s) i \<noteq> lh_block s ! j" if "i < n" "j < n" for i j
    using h [OF that(2)] less_trans [OF that(1) n(2)] unfolding home_def by metis
  show "room (babs s) (log_block_no (log_start s) i)" if "i < n" for i
  proof -
    have "\<not> home (log_start s) (log_block_no (log_start s) i)"
      using less_trans [OF that n(2)] by (auto simp: home_def)
    with r(7-9) show ?thesis by (auto simp: room_def)
  qed
  have "\<not> home (log_start s) (log_start s)" by (simp add: home_def)
  with r(7-9) show "room (babs s) (log_start s)" by (auto simp: room_def)
qed

lemma logged_blocks: "fst ` set (log_writes s) = log_block_no (log_start s) ` {..<length (txn s)}"
  by (force simp: log_writes_def image_image)

lemma start_not_logged:
  assumes "txn_ready s"
  shows "log_start s \<notin> fst ` set (log_writes s)"
proof
  assume "log_start s \<in> fst ` set (log_writes s)"
  then obtain i where "i < length (txn s)" "log_start s = log_block_no (log_start s) i"
    unfolding logged_blocks by auto
  with txn_readyD(2,3) [OF assms] log_block_no_neq_start [of i "log_start s"] show False by simp
qed

lemma home_not_logged:
  assumes "txn_ready s" "home (log_start s) b"
  shows "b \<notin> fst ` set (log_writes s)"
  using txn_readyD(2,3) [OF assms(1)] assms(2) unfolding logged_blocks home_def
  by (metis imageE lessThan_iff less_trans)

lemma commit_logs:
  fixes s :: "'a klog_scheme"
  assumes "txn_ready s"
  shows "kspec (kbind write_log (\<lambda>_. write_head)) s (\<lambda>_ s'. binv s' \<and> bframe s s' \<and>
    babs s' = awrite (log_writes s @ [(log_start s, head_data s)]) (babs s))"
proof -
  define n where "n = nat (lh_n s)"
  note T = txn_readyD [OF assms(1), folded n_def]
  let ?lb = "log_block_no (log_start s)" and ?hb = "\<lambda>i. lh_block s ! i" and ?a = "babs s"
  have b: "binv s" "log_dev s = ROOTDEV" "\<forall>b. a_refs ?a b + 1 < 2 ^ 32"
    using assms(1) by (simp_all add: txn_ready_def)
  have "kspec write_log s (\<lambda>_ s'. binv s' \<and> bframe s s' \<and>
      babs s' = awrite (map (\<lambda>i. (?lb i, a_view ?a (?hb i))) [0..<n]) ?a)"
    using b T by (intro write_log_spec) auto
  moreover have "map (\<lambda>i. (?lb i, a_view ?a (?hb i))) [0..<n] = log_writes s"
    using T(3,4) by (simp add: log_writes_def)
  ultimately obtain s1 where 1: "write_log s = Ok () s1" "binv s1" "bframe s s1" "babs s1 = awrite (log_writes s) ?a"
    by (auto simp: kspec_def)
  note f1 = bframe_log [OF 1(3)]
  have v1: "a_view (babs s1) (log_start s) = a_view ?a (log_start s)"
    using start_not_logged [OF assms] by (simp add: 1 apply_writes_other)
  have "room (babs s1) (log_start s1)" using T(10) f1 by (simp add: 1)
  with 1(2) f1 T(1,2) b(2) have "kspec write_head s1 (\<lambda>_ s'. binv s' \<and> bframe s1 s' \<and>
      babs s' = awrite [(log_start s1, put_head (int n) (lh_block s1) (a_view (babs s1) (log_start s1)))] (babs s1))"
    by (intro write_head_spec) auto
  then obtain s2 where 2: "write_head s1 = Ok () s2" "binv s2" "bframe s1 s2"
      "babs s2 = awrite [(log_start s, head_data s)] (babs s1)"
    using f1 v1 T(1) by (auto simp: kspec_def head_data_def)
  with 1 bframe_trans [OF 1(3) 2(3)] show ?thesis by (simp add: kspec_def kbind_apply awrite_append)
qed

lemma view_logged:
  assumes "txn_ready s" "i < length (txn s)"
  shows "apply_writes (log_writes s @ [(log_start s, h)]) v (log_block_no (log_start s) i) = a_view (babs s) (txn s ! i)"
proof -
  note T = txn_readyD [OF assms(1)]
  have i: "i < NBUF" using assms(2) T(2,3) by simp
  then have "apply_writes (log_writes s @ [(log_start s, h)]) v (log_block_no (log_start s) i)
      = apply_writes (log_writes s) v (log_block_no (log_start s) i)"
    by (simp add: log_block_no_neq_start)
  also have "\<dots> = a_view (babs s) (txn s ! i)"
    unfolding log_writes_def
  proof (rule apply_writes_map)
    show "log_block_no (log_start s) i \<in> log_block_no (log_start s) ` set [0..<length (txn s)]"
      using assms(2) by simp
    fix j assume "j \<in> set [0..<length (txn s)]" "log_block_no (log_start s) j = log_block_no (log_start s) i"
    with i T(2,3) have "j = i" by (intro log_block_no_inject) auto
    then show "a_view (babs s) (txn s ! j) = a_view (babs s) (txn s ! i)" by simp
  qed
  finally show ?thesis .
qed

lemma commit_installs:
  fixes s s2 :: "'a klog_scheme"
  assumes "txn_ready s" "binv s2" "bframe s s2"
    and "babs s2 = awrite (log_writes s @ [(log_start s, head_data s)]) (babs s)"
  shows "kspec (install_trans False) s2 (\<lambda>_ s'. binv s' \<and> bframe s2 s' \<and>
    babs s' = unpins (set (txn s)) (awrite (home_writes s) (babs s2)))"
proof -
  define n where "n = nat (lh_n s)"
  note T = txn_readyD [OF assms(1), folded n_def] and f2 = bframe_log [OF assms(3)]
  let ?lb = "log_block_no (log_start s)" and ?hb = "\<lambda>i. lh_block s ! i" and ?a = "babs s"
  have b: "log_dev s = ROOTDEV" "\<forall>b. a_refs ?a b + 1 < 2 ^ 32" "card {b. 0 < a_refs ?a b} < NBUF"
    using assms(1) by (simp_all add: txn_ready_def)
  have "kspec (install_trans False) s2 (\<lambda>_ s'. binv s' \<and> bframe s2 s' \<and>
      babs s' = unpins (if False then {} else (\<lambda>i. lh_block s2 ! i) ` {..<n})
        (awrite (map (\<lambda>i. (lh_block s2 ! i, a_view (babs s2) (log_block_no (log_start s2) i))) [0..<n]) (babs s2)))"
  proof (rule install_trans_spec)
    fix i ds assume i: "i < n" "ds \<subseteq> (\<lambda>i. lh_block s2 ! i) ` {..<i}"
    have "room (unpins ds ?a) (?lb i)"
      using T(9) [OF i(1)] b(2,3) card_unpins [of ds ?a]
      by (auto simp: room_def intro: le_less_trans less_imp_diff_less)
    moreover have "?hb i \<notin> ds"
      using i T(6) f2 by (fastforce dest: inj_onD)
    then have "room (grab (?lb i) (unpins ds ?a)) (?hb i)"
      using T(5) [OF i(1)] T(8) [OF i(1,1)] b(2) by (simp add: room_def grab_def)
    ultimately show "room (unpins ds (babs s2)) (log_block_no (log_start s2) i) \<and>
        room (grab (log_block_no (log_start s2) i) (unpins ds (babs s2))) (lh_block s2 ! i)"
      using f2 by (simp add: assms(4) awrite_unpins [symmetric] grab_awrite)
  qed (use assms f2 T b in auto)
  moreover have "map (\<lambda>i. (lh_block s2 ! i, a_view (babs s2) (log_block_no (log_start s2) i))) [0..<n] = home_writes s"
    using T(3,4) f2 view_logged [OF assms(1)] by (simp add: home_writes_def assms(4) del: apply_writes_simps(3))
  ultimately show ?thesis using f2 T(7) by simp
qed

lemma commit_spec:
  fixes s :: "'a klog_scheme"
  assumes "txn_ready s" "0 < lh_n s"
  shows "kspec commit s (\<lambda>_ s'. binv s' \<and> lh_n s' = 0 \<and>
    babs s' = unpins (set (txn s)) (awrite (commit_writes s) (babs s)))"
proof -
  note T = txn_readyD [OF assms(1)]
  have b: "log_dev s = ROOTDEV" "\<forall>b. a_refs (babs s) b + 1 < 2 ^ 32" "card {b. 0 < a_refs (babs s) b} < NBUF"
    using assms(1) by (simp_all add: txn_ready_def)
  from commit_logs [OF assms(1)] obtain s1 s2 where 1: "write_log s = Ok () s1" "write_head s1 = Ok () s2"
    and 2: "binv s2" "bframe s s2" "babs s2 = awrite (log_writes s @ [(log_start s, head_data s)]) (babs s)"
    by (auto simp: kspec_def kbind_eq_Ok)
  from commit_installs [OF assms(1) 2] obtain s3 where 3: "install_trans False s2 = Ok () s3" "binv s3"
      "bframe s2 s3" "babs s3 = unpins (set (txn s)) (awrite (home_writes s) (babs s2))"
    by (auto simp: kspec_def)
  define s4 where "s4 = s3\<lparr>lh_n := 0\<rparr>"
  note f = bframe_log [OF bframe_trans [OF 2(2) 3(3)]]
  have 4: "binv s4" "babs s4 = unpins (set (txn s)) (awrite (home_writes s) (babs s2))" "lh_n s4 = 0"
      "log_start s4 = log_start s" "log_dev s4 = ROOTDEV" "lh_block s4 = lh_block s"
    using 3 f b(1) by (simp_all add: s4_def)
  have "log_start s \<notin> fst ` set (home_writes s)"
  proof -
    have "log_start s \<notin> set (txn s)" using assms(1) by (auto simp: txn_ready_def home_def)
    then show ?thesis by (auto simp: home_writes_def image_iff)
  qed
  then have v: "a_view (babs s4) (log_start s) = head_data s"
    by (simp add: 4 2(3) apply_writes_other)
  have "room (unpins (set (txn s)) (babs s)) (log_start s)"
    using T(10) b(2,3) card_unpins [of "set (txn s)" "babs s"]
    by (auto simp: room_def intro: le_less_trans less_imp_diff_less)
  then have "room (babs s4) (log_start s4)" by (simp add: 4 2(3) awrite_unpins [symmetric])
  with 4 have "kspec write_head s4 (\<lambda>_ s'. binv s' \<and> bframe s4 s' \<and> babs s' = awrite [(log_start s4,
      put_head (int 0) (lh_block s4) (a_view (babs s4) (log_start s4)))] (babs s4))"
    by (intro write_head_spec) auto
  then obtain s5 where 5: "write_head s4 = Ok () s5" "binv s5" "bframe s4 s5"
      "babs s5 = awrite [(log_start s, put_head 0 (lh_block s) (head_data s))] (babs s4)"
    using v 4 by (auto simp: kspec_def)
  have "lh_n s5 = 0" using bframe_log [OF 5(3)] 4(3) by simp
  moreover have "babs s5 = unpins (set (txn s)) (awrite (commit_writes s) (babs s))"
    by (simp add: 5 4 2(3) awrite_unpins awrite_append commit_writes_def)
  moreover have "commit s = Ok () s5"
    using 1 3(1) 5(1) assms(2) by (simp add: commit_def kbind_apply s4_def)
  ultimately show ?thesis using 5(2) by (simp add: kspec_def)
qed

subsection \<open>Recovery\<close>

text \<open>A kernel that has just booted: nothing is cached, locked or pinned.\<close>

definition booted :: "'a klog_scheme \<Rightarrow> bool" where
  "booted r \<longleftrightarrow> binv r \<and> (\<forall>b. a_refs (babs r) b = 0 \<and> a_lock (babs r) b = None) \<and> length (lh_block r) = LOGSIZE"

definition recover_writes :: "uint32 \<Rightarrow> (uint32 \<Rightarrow> block) \<Rightarrow> (uint32 \<times> block) list" where
  "recover_writes start d =
     map (\<lambda>i. (head_block (d start) i, d (log_block_no start i))) [0..<nat (head_n (d start))] @
     [(start, put_head 0 [] (d start))]"

definition head_ok :: "uint32 \<Rightarrow> (uint32 \<Rightarrow> block) \<Rightarrow> bool" where
  "head_ok start d \<longleftrightarrow> 0 \<le> head_n (d start) \<and> head_n (d start) \<le> int LOGSIZE \<and>
     (\<forall>i < nat (head_n (d start)). home start (head_block (d start) i))"

lemma booted_view: "booted r \<Longrightarrow> a_view (babs r) = disk r"
  using unref_view [of r] by (auto simp: booted_def babs_def fun_eq_iff)

lemma put_head_0: "put_head 0 bl d = put_head 0 [] d"
  by (simp add: put_head_def)

lemma fresh_room:
  assumes "\<forall>b. a_refs a b = 0 \<and> a_lock a b = None"
  shows "room a b" "l \<noteq> d \<Longrightarrow> room (grab l a) d"
proof -
  have "{c. 0 < a_refs a c} = {}" using assms by simp
  with assms show "room a b" by (simp add: room_def)
  have "{c. 0 < a_refs (grab l a) c} = {l}" using assms by (auto simp: grab_def)
  with assms show "l \<noteq> d \<Longrightarrow> room (grab l a) d" by (simp add: room_def grab_def)
qed

lemma read_nums_spec:
  assumes "n \<le> LOGSIZE" "length (lh_block s) = LOGSIZE"
  shows "kspec (kforeach [0..<n] (\<lambda>i.
      if i < LOGSIZE then kmodify (\<lambda>s. s\<lparr>lh_block := (lh_block s)[i := head_block d i]\<rparr>)
      else kpanic ''lh.block out of bounds'')) s
    (\<lambda>_ s'. \<exists>bl. s' = s\<lparr>lh_block := bl\<rparr> \<and> length bl = LOGSIZE \<and> (\<forall>i < n. bl ! i = head_block d i))"
proof -
  have "kspec (kforeach [0..<n] (\<lambda>i.
      if i < LOGSIZE then kmodify (\<lambda>s. s\<lparr>lh_block := (lh_block s)[i := head_block d i]\<rparr>)
      else kpanic ''lh.block out of bounds'')) s
    (\<lambda>_ s'. \<exists>bl. s' = s\<lparr>lh_block := bl\<rparr> \<and> length bl = LOGSIZE \<and> (\<forall>i < length [0..<n]. bl ! i = head_block d i))"
  proof (rule kspec_foreach)
    show "\<exists>bl. s = s\<lparr>lh_block := bl\<rparr> \<and> length bl = LOGSIZE \<and> (\<forall>i < 0. bl ! i = head_block d i)"
      using assms(2) by (intro exI [of _ "lh_block s"]) simp
  next
    fix k s1
    assume k: "k < length [0..<n]" and "\<exists>bl. s1 = s\<lparr>lh_block := bl\<rparr> \<and> length bl = LOGSIZE \<and> (\<forall>i < k. bl ! i = head_block d i)"
    then obtain bl where bl: "s1 = s\<lparr>lh_block := bl\<rparr>" "length bl = LOGSIZE" "\<forall>i < k. bl ! i = head_block d i" by blast
    have "\<forall>i < Suc k. bl[k := head_block d k] ! i = head_block d i"
      using bl k assms(1) by (auto simp: nth_list_update less_Suc_eq)
    then show "kspec (if [0..<n] ! k < LOGSIZE then kmodify (\<lambda>s. s\<lparr>lh_block := (lh_block s)[[0..<n] ! k := head_block d ([0..<n] ! k)]\<rparr>)
        else kpanic ''lh.block out of bounds'') s1
        (\<lambda>_ s'. \<exists>bl. s' = s\<lparr>lh_block := bl\<rparr> \<and> length bl = LOGSIZE \<and> (\<forall>i < Suc k. bl ! i = head_block d i))"
      using k assms(1) bl by (auto intro!: exI [of _ "bl[k := head_block d k]"])
  qed
  then show ?thesis by simp
qed

lemma read_head_spec:
  fixes r :: "'a klog_scheme"
  defines "h \<equiv> disk r (log_start r)"
  assumes "booted r" "log_dev r = ROOTDEV" "head_ok (log_start r) (disk r)"
  shows "kspec read_head r (\<lambda>_ r'. binv r' \<and> babs r' = babs r \<and> log_dev r' = ROOTDEV \<and> log_start r' = log_start r \<and>
    lh_n r' = head_n h \<and> (\<forall>i < nat (head_n h). lh_block r' ! i = head_block h i))"
proof -
  have b: "binv r" "\<forall>b. a_refs (babs r) b = 0 \<and> a_lock (babs r) b = None" "length (lh_block r) = LOGSIZE"
    using assms(2) by (simp_all add: booted_def)
  from bc.read_spec [OF b(1) fresh_room(1) [OF b(2)], of "log_start r"] obtain i r1 where
    1: "bread ROOTDEV (log_start r) r = Ok i r1" "binv r1" "bframe r r1" "bidx (bufs r1) (log_start r) = Some i"
      "babs r1 = grab (log_start r) (babs r)" by (auto simp: kspec_def)
  have hd: "held (babs r1) (log_start r)" by (simp add: 1 held_def grab_def)
  from bc.data_spec [OF 1(2,4) hd] have 2: "buf_data i r1 = Ok h r1"
    using booted_view [OF assms(2)] by (simp add: kspec_def buf_data_def 1 grab_def h_def)
  note f = bframe_log [OF 1(3)]
  let ?r2 = "r1\<lparr>lh_n := head_n h\<rparr>"
  have n: "nat (head_n h) \<le> LOGSIZE" using assms(4) by (simp add: head_ok_def h_def nat_le_iff)
  have "length (lh_block ?r2) = LOGSIZE" using b(3) f by simp
  from read_nums_spec [OF n this, of h] obtain r3 bl where
    3: "kforeach [0..<nat (head_n h)] (\<lambda>i.
      if i < LOGSIZE then kmodify (\<lambda>s. s\<lparr>lh_block := (lh_block s)[i := head_block h i]\<rparr>)
      else kpanic ''lh.block out of bounds'') ?r2 = Ok () r3" "r3 = ?r2\<lparr>lh_block := bl\<rparr>"
      "\<forall>i < nat (head_n h). bl ! i = head_block h i" by (auto simp: kspec_def)
  have r3: "binv r3" "babs r3 = babs r1" "bufs r3 = bufs r1" using 1(2) by (simp_all add: 3(2))
  have hd3: "held (babs r3) (log_start r)" "bidx (bufs r3) (log_start r) = Some i" using hd 1(4) r3 by simp_all
  have "a_view (babs r3) (log_start r) = a_disk (babs r3) (log_start r)"
    using unref_view [OF b(1)] b(2) by (simp add: r3 1 grab_def)
  from bc.release_spec [OF r3(1) hd3(2,1) this] obtain r4 where 4: "brelse i r3 = Ok () r4" "binv r4" "bframe r3 r4"
      "babs r4 = letgo (log_start r) (babs r3)" by (auto simp: kspec_def)
  have "babs r4 = babs r"
    using b(2) by (auto simp: 4 r3 1 grab_def letgo_def fun_eq_iff intro!: acache.equality)
  moreover have "read_head r = Ok () r4"
    using assms(3) 1(1) 2 3(1) 4(1) by (simp add: read_head_def kbind_apply)
  moreover have "log_dev r4 = ROOTDEV" "log_start r4 = log_start r" "lh_n r4 = head_n h" "lh_block r4 = bl"
    using bframe_log [OF 4(3)] f assms(3) by (simp_all add: 3(2))
  ultimately show ?thesis using 4(2) 3(3) by (simp add: kspec_def)
qed

lemma recover_spec:
  fixes r :: "'a klog_scheme"
  assumes "booted r" "log_dev r = ROOTDEV" "head_ok (log_start r) (disk r)"
  shows "kspec recover_from_log r (\<lambda>_ r'. binv r' \<and> lh_n r' = 0 \<and>
    babs r' = awrite (recover_writes (log_start r) (disk r)) (babs r))"
proof -
  let ?s = "log_start r" and ?d = "disk r"
  define n where "n = nat (head_n (?d ?s))"
  have n: "n \<le> LOGSIZE" "head_n (?d ?s) = int n" using assms(3) by (simp_all add: head_ok_def n_def nat_le_iff)
  have fr: "\<forall>b. a_refs (babs r) b = 0 \<and> a_lock (babs r) b = None" using assms(1) by (simp add: booted_def)
  have view: "a_view (babs r) = ?d" using booted_view [OF assms(1)] .
  from read_head_spec [OF assms] obtain r1 where 1: "read_head r = Ok () r1" "binv r1" "babs r1 = babs r"
      "log_dev r1 = ROOTDEV" "log_start r1 = ?s" "lh_n r1 = int n"
      "\<forall>i < n. lh_block r1 ! i = head_block (?d ?s) i"
    using n(2) by (auto simp: kspec_def)
  have hm: "home ?s (head_block (?d ?s) i)" if "i < n" for i
    using that assms(3) by (simp add: head_ok_def n_def)
  have ne: "log_block_no ?s i \<noteq> lh_block r1 ! j" if "i < n" "j < n" for i j
    using hm [OF that(2)] 1(7) that n(1) unfolding home_def by (metis less_le_trans)
  have inst: "kspec (install_trans True) r1 (\<lambda>_ s'. binv s' \<and> bframe r1 s' \<and>
      babs s' = unpins (if True then {} else (\<lambda>i. lh_block r1 ! i) ` {..<n})
        (awrite (map (\<lambda>i. (lh_block r1 ! i, a_view (babs r1) (log_block_no (log_start r1) i))) [0..<n]) (babs r1)))"
    using 1 ne fresh_room [OF fr] by (intro install_trans_spec) auto
  have m: "map (\<lambda>i. (lh_block r1 ! i, a_view (babs r1) (log_block_no (log_start r1) i))) [0..<n]
      = map (\<lambda>i. (head_block (?d ?s) i, ?d (log_block_no ?s i))) [0..<n]"
    using 1 view by simp
  from inst [unfolded m, unfolded 1(3)] obtain r2 where 2: "install_trans True r1 = Ok () r2" "binv r2" "bframe r1 r2"
      "babs r2 = awrite (map (\<lambda>i. (head_block (?d ?s) i, ?d (log_block_no ?s i))) [0..<n]) (babs r)"
    by (auto simp: kspec_def)
  define r3 where "r3 = r2\<lparr>lh_n := 0\<rparr>"
  have "head_block (?d ?s) i \<noteq> ?s" if "i < n" for i using hm [OF that] by (simp add: home_def)
  then have "?s \<notin> fst ` set (map (\<lambda>i. (head_block (?d ?s) i, ?d (log_block_no ?s i))) [0..<n])" by auto metis
  then have v: "a_view (babs r3) ?s = ?d ?s" by (simp add: r3_def 2 apply_writes_other view)
  have 3: "binv r3" "log_dev r3 = ROOTDEV" "log_start r3 = ?s" "lh_n r3 = int 0" "room (babs r3) ?s"
    using 2 bframe_log [OF 2(3)] 1 fresh_room(1) [OF fr] by (simp_all add: r3_def)
  from write_head_spec [OF 3(1,2,4)] 3(3,5) v obtain r4 where 4: "write_head r3 = Ok () r4" "binv r4"
      "bframe r3 r4" "babs r4 = awrite [(?s, put_head 0 [] (?d ?s))] (babs r3)"
    by (auto simp: kspec_def put_head_0 [of "lh_block r3"])
  have "babs r4 = awrite (recover_writes ?s ?d) (babs r)"
    by (simp add: 4 r3_def 2 awrite_append recover_writes_def n_def)
  moreover have "lh_n r4 = 0" using bframe_log [OF 4(3)] 3(4) by simp
  moreover have "recover_from_log r = Ok () r4"
    using 1(1) 2(1) 4(1) by (simp add: recover_from_log_def kbind_apply r3_def)
  ultimately show ?thesis using 4(2) by (simp add: kspec_def)
qed

lemma initlog_spec:
  fixes r :: "'a klog_scheme"
  assumes "booted r" "head_ok (sb_logstart sb) (disk r)"
  shows "kspec (initlog ROOTDEV sb) r (\<lambda>_ r'. binv r' \<and> lh_n r' = 0 \<and>
    disk r' = apply_writes (recover_writes (sb_logstart sb) (disk r)) (disk r) \<and>
    dwrites r' = dwrites r @ recover_writes (sb_logstart sb) (disk r))"
proof -
  define r0 where "r0 = r\<lparr>log_start := sb_logstart sb, log_size := sint (sb_nlog sb), log_dev := ROOTDEV\<rparr>"
  have bb: "binv r0 = binv r" "babs r0 = babs r"
    by (simp_all add: binv_def babs_def r0_def cong: option.case_cong)
  have "booted r0" "log_dev r0 = ROOTDEV" "head_ok (log_start r0) (disk r0)"
    using assms by (simp_all add: booted_def bb) (simp_all add: r0_def)
  from recover_spec [OF this] obtain r' where r': "recover_from_log r0 = Ok () r'" "binv r'" "lh_n r' = 0"
      "babs r' = awrite (recover_writes (sb_logstart sb) (disk r)) (babs r)"
    by (auto simp: kspec_def bb) (simp_all add: r0_def)
  have "disk r' = a_disk (babs r')" "dwrites r' = a_writes (babs r')" by (simp_all add: babs_def)
  then have "disk r' = apply_writes (recover_writes (sb_logstart sb) (disk r)) (disk r)"
      "dwrites r' = dwrites r @ recover_writes (sb_logstart sb) (disk r)"
    by (simp_all add: r'(4)) (simp_all add: babs_def)
  with r' show ?thesis by (simp add: kspec_def initlog_def kbind_apply r0_def)
qed

subsection \<open>The disk after a crash\<close>

definition new_contents :: "'a klog_scheme \<Rightarrow> uint32 \<Rightarrow> block" where
  "new_contents s b = (if b \<in> set (txn s) then a_view (babs s) b else disk s b)"

lemma home_blocks: "fst ` set (home_writes s) = set (txn s)"
  by (force simp: home_writes_def set_conv_nth image_image)

lemma apply_home_writes:
  "apply_writes (home_writes s) d b = (if b \<in> set (txn s) then a_view (babs s) b else d b)"
proof (cases "b \<in> set (txn s)")
  case True
  then have "b \<in> (!) (txn s) ` set [0..<length (txn s)]" by (auto simp: in_set_conv_nth)
  then have "apply_writes (home_writes s) d b = a_view (babs s) b"
    unfolding home_writes_def by (rule apply_writes_map) simp
  with True show ?thesis by simp
next
  case False
  then show ?thesis by (simp add: apply_writes_other home_blocks)
qed

lemma apply_take_home_writes:
  "b \<notin> set (txn s) \<Longrightarrow> apply_writes (take k (home_writes s)) d b = d b"
  using home_blocks [of s] by (intro apply_writes_other) (auto dest: in_set_takeD)

lemma recover_writes_empty:
  assumes "head_n (d start) = 0"
  shows "head_ok start d" "recover_writes start d = [(start, put_head 0 [] (d start))]"
  using assms by (simp_all add: head_ok_def recover_writes_def)

lemma crash_before_commit:
  assumes "txn_ready s" "head_n (disk s (log_start s)) = 0" "k \<le> length (txn s)" "home (log_start s) b"
  defines "d \<equiv> apply_writes (take k (commit_writes s)) (disk s)"
  shows "head_ok (log_start s) d \<and> apply_writes (recover_writes (log_start s) d) d b = disk s b"
proof -
  have "take k (commit_writes s) = take k (log_writes s)"
    using assms(3) by (simp add: commit_writes_def log_writes_def)
  then have d: "d c = disk s c" if "c \<notin> fst ` set (log_writes s)" for c
    using that unfolding d_def by (auto intro!: apply_writes_other dest: in_set_takeD)
  have "d (log_start s) = disk s (log_start s)" "d b = disk s b"
    using d start_not_logged [OF assms(1)] home_not_logged [OF assms(1,4)] by simp_all
  with assms(2,4) recover_writes_empty [of d] show ?thesis by (simp add: home_def)
qed

lemma crash_after_commit:
  assumes "txn_ready s" "j \<le> length (txn s)" "home (log_start s) b"
  defines "d \<equiv> apply_writes (log_writes s @ [(log_start s, head_data s)] @ take j (home_writes s)) (disk s)"
  shows "head_ok (log_start s) d \<and> apply_writes (recover_writes (log_start s) d) d b = new_contents s b"
proof -
  note T = txn_readyD [OF assms(1)]
  have hm: "\<forall>b \<in> set (txn s). home (log_start s) b" using assms(1) by (simp add: txn_ready_def)
  have ds: "d (log_start s) = head_data s"
    using hm by (auto simp: d_def home_def apply_take_home_writes)
  have "length (a_view (babs s) (log_start s)) = BSIZE" "nat (lh_n s) \<le> LOGSIZE"
    using assms(1) T(2) by (simp_all add: txn_ready_def view_length)
  note P = put_head_props [OF this, where bl = "lh_block s", folded T(1)]
  have hd: "head_n (d (log_start s)) = lh_n s"
      "\<And>i. i < length (txn s) \<Longrightarrow> head_block (d (log_start s)) i = txn s ! i"
    using P(2,3) T(3,4) unfolding ds head_data_def by simp_all
  have lb: "d (log_block_no (log_start s) i) = a_view (babs s) (txn s ! i)" if "i < length (txn s)" for i
  proof -
    have "log_block_no (log_start s) i \<notin> set (txn s)"
      using hm that T(2,3) unfolding home_def by (metis less_trans)
    then have "d (log_block_no (log_start s) i)
        = apply_writes (log_writes s @ [(log_start s, head_data s)]) (disk s) (log_block_no (log_start s) i)"
      by (simp add: d_def apply_take_home_writes)
    with view_logged [OF assms(1) that] show ?thesis by simp
  qed
  have rw: "recover_writes (log_start s) d = home_writes s @ [(log_start s, put_head 0 [] (head_data s))]"
    using hd lb T(1,3) by (simp add: recover_writes_def home_writes_def ds)
  have "0 \<le> lh_n s" using assms(1) by (simp add: txn_ready_def)
  then have ok: "head_ok (log_start s) d" using hd hm T(2,3) by (auto simp: head_ok_def)
  have "d b = disk s b" if "b \<notin> set (txn s)"
    using that assms(3) home_not_logged [OF assms(1,3)]
    by (simp add: d_def apply_take_home_writes apply_writes_other home_def)
  with ok assms(3) show ?thesis by (auto simp: rw apply_home_writes new_contents_def home_def)
qed

lemma crash_after_clear:
  assumes "txn_ready s" "home (log_start s) b"
  defines "d \<equiv> apply_writes (commit_writes s) (disk s)"
  shows "head_ok (log_start s) d \<and> apply_writes (recover_writes (log_start s) d) d b = new_contents s b \<and>
    d b = new_contents s b"
proof -
  have "length (a_view (babs s) (log_start s)) = BSIZE" "nat (lh_n s) \<le> LOGSIZE"
    using assms(1) txn_readyD(2) [OF assms(1)] by (simp_all add: txn_ready_def view_length)
  then have "length (head_data s) = BSIZE"
    unfolding head_data_def by (metis put_head_props(1) txn_readyD(1) [OF assms(1)])
  then have "head_n (put_head (int 0) (lh_block s) (head_data s)) = int 0" by (intro put_head_props) auto
  then have "head_n (d (log_start s)) = 0" by (simp add: d_def commit_writes_def)
  moreover have db: "d b = new_contents s b"
    using assms(2) home_not_logged [OF assms(1,2)]
    by (auto simp: d_def commit_writes_def apply_home_writes new_contents_def home_def apply_writes_other)
  ultimately show ?thesis
    using recover_writes_empty [of d "log_start s"] assms(2) by (simp add: home_def)
qed

lemma crash_any:
  assumes "txn_ready s" "head_n (disk s (log_start s)) = 0" "home (log_start s) b"
  defines "d \<equiv> \<lambda>k. apply_writes (take k (commit_writes s)) (disk s)"
  shows "head_ok (log_start s) (d k) \<and> apply_writes (recover_writes (log_start s) (d k)) (d k) b =
    (if k \<le> length (txn s) then disk s b else new_contents s b)"
proof -
  define n where "n = length (txn s)"
  have len: "length (log_writes s) = n" "length (home_writes s) = n" by (simp_all add: log_writes_def home_writes_def n_def)
  consider "k \<le> n" | j where "k = n + 1 + j" "j \<le> n" | "2 * n + 2 \<le> k"
  proof -
    assume a: "k \<le> n \<Longrightarrow> thesis" and b: "\<And>j. k = n + 1 + j \<Longrightarrow> j \<le> n \<Longrightarrow> thesis" and c: "2 * n + 2 \<le> k \<Longrightarrow> thesis"
    show thesis using a b [of "k - (n + 1)"] c by linarith
  qed
  then show ?thesis
  proof cases
    case 1
    with crash_before_commit [OF assms(1,2) _ assms(3)] show ?thesis by (simp add: n_def d_def)
  next
    case 2
    then have "take k (commit_writes s) = log_writes s @ [(log_start s, head_data s)] @ take j (home_writes s)"
      using len by (simp add: commit_writes_def)
    with crash_after_commit [OF assms(1) _ assms(3), of j] 2 show ?thesis by (simp add: n_def d_def)
  next
    case 3
    then have "take k (commit_writes s) = commit_writes s" using len by (simp add: commit_writes_def)
    with crash_after_clear [OF assms(1,3)] 3 show ?thesis by (simp add: n_def d_def)
  qed
qed

text \<open>
  C1: a commit is atomic under crashes.  From a state that is ready to commit and whose on-disk
  log is empty, \<^verbatim>\<open>commit\<close> returns and every home block has its new contents; and if the machine
  crashes after any number \<open>k\<close> of the disk writes it makes, then \<^verbatim>\<open>initlog\<close> after the reboot returns
  and leaves either all home blocks as they were before (when the header was not yet
  written) or all home blocks with the contents of the transaction.
\<close>

theorem commit_crash_atomic:
  fixes s :: "'a klog_scheme"
  assumes "txn_ready s" "0 < lh_n s" "head_n (disk s (log_start s)) = 0"
  shows "\<exists>s' ws. commit s = Ok () s' \<and> lh_n s' = 0 \<and> dwrites s' = dwrites s @ ws \<and>
    (\<forall>b. home (log_start s) b \<longrightarrow> disk s' b = new_contents s b) \<and>
    (\<forall>k sb (r :: 'a klog_scheme). booted r \<and> sb_logstart sb = log_start s \<and>
        disk r = apply_writes (take k ws) (disk s) \<longrightarrow>
      (\<exists>r'. initlog ROOTDEV sb r = Ok () r' \<and> (\<forall>b. home (log_start s) b \<longrightarrow>
        disk r' b = (if k \<le> length (txn s) then disk s b else new_contents s b))))"
proof -
  from commit_spec [OF assms(1,2)] obtain s' where s': "commit s = Ok () s'" "lh_n s' = 0"
      "babs s' = unpins (set (txn s)) (awrite (commit_writes s) (babs s))" by (auto simp: kspec_def)
  have "disk s' = a_disk (babs s')" "dwrites s' = a_writes (babs s')" by (simp_all add: babs_def)
  then have d: "disk s' = apply_writes (commit_writes s) (disk s)" "dwrites s' = dwrites s @ commit_writes s"
    by (simp_all add: s'(3)) (simp_all add: babs_def)
  have "\<exists>r'. initlog ROOTDEV sb r = Ok () r' \<and> (\<forall>b. home (log_start s) b \<longrightarrow>
      disk r' b = (if k \<le> length (txn s) then disk s b else new_contents s b))"
    if r: "booted r \<and> sb_logstart sb = log_start s \<and> disk r = apply_writes (take k (commit_writes s)) (disk s)"
    for k sb and r :: "'a klog_scheme"
  proof -
    have "hd (txn s) \<in> set (txn s)" using txn_readyD(3) [OF assms(1)] assms(2) by (intro list.set_sel) auto
    then have "home (log_start s) (hd (txn s))" using assms(1) by (simp add: txn_ready_def)
    then have "head_ok (sb_logstart sb) (disk r)" using crash_any [OF assms(1,3)] r by auto
    with initlog_spec [of r sb] r crash_any [OF assms(1,3), of _ k] show ?thesis
      by (fastforce simp: kspec_def)
  qed
  with s' d crash_after_clear [OF assms(1)] show ?thesis
    by (intro exI [of _ s'] exI [of _ "commit_writes s"]) simp
qed

text \<open>A concrete machine: one process, a zeroed disk, and block 100 changed in a transaction.\<close>

definition zero_buf :: buf where
  "zero_buf = \<lparr>b_valid = False, b_disk = False, b_dev = 0, b_blockno = 0,
     b_lock = \<lparr>sl_locked = False, sl_name = [], sl_pid = 0\<rparr>, b_refcnt = 0, b_prev = 0, b_next = 0, b_data = []\<rparr>"

definition zero_proc :: proc where
  "zero_proc = \<lparr>p_state = RUNNING, p_chan = ChNull, p_killed = False, p_xstate = 0, p_pid = 1, p_parent = None,
     p_kstack = 0, p_sz = 0, p_pagetable = 0, p_trapframe = 0,
     p_context = \<lparr>ctx_ra = 0, ctx_sp = 0, ctx_s = []\<rparr>, p_ofile = replicate 16 None, p_cwd = None,
     p_name = replicate 16 0\<rparr>"

definition boot_machine :: klog where
  "boot_machine = \<lparr>mem = (\<lambda>_. 0), freelist = 0, kend = 0x80021000, procs = [zero_proc], nextpid = 2,
     initproc = Some 0, curproc = Some 0, trampoline = 0, forkret_pc = 0, kmsg = [],
     bufs = replicate (NBUF + 1) zero_buf, disk = (\<lambda>_. replicate BSIZE 0), dwrites = [],
     log_start = 2, log_size = 30, log_outstanding = 0, log_committing = False, log_dev = ROOTDEV,
     lh_n = 0, lh_block = replicate LOGSIZE 100\<rparr>"

lemma booted_exists: "\<exists>s :: klog. booted s \<and> log_start s = 2 \<and> log_dev s = ROOTDEV \<and> log_size s = 30 \<and>
    lh_block s = replicate LOGSIZE 100 \<and> disk s = (\<lambda>_. replicate BSIZE 0) \<and> lh_n s = 0 \<and> log_outstanding s = 0"
proof -
  have "zeroed_bufs (bufs boot_machine)"
    by (auto simp: zeroed_bufs_def boot_machine_def zero_buf_def)
  then obtain bs where "binv (boot_machine\<lparr>bufs := bs\<rparr>)"
      "\<forall>b. a_refs (babs (boot_machine\<lparr>bufs := bs\<rparr>)) b = 0 \<and> a_lock (babs (boot_machine\<lparr>bufs := bs\<rparr>)) b = None"
    using binit_boots [of boot_machine] by (auto simp: boot_machine_def)
  then show ?thesis
    by (intro exI [of _ "boot_machine\<lparr>bufs := bs\<rparr>"])
      (simp add: booted_def boot_machine_def)
qed

lemma pin_booted:
  fixes s :: "'a klog_scheme"
  assumes "booted s"
  shows "\<exists>s'. binv s' \<and> bframe s s' \<and> babs s' = pin b (babs s)"
proof -
  have b: "binv s" "\<forall>c. a_refs (babs s) c = 0 \<and> a_lock (babs s) c = None" using assms by (simp_all add: booted_def)
  from bc.read_spec [OF b(1) fresh_room(1) [OF b(2)], of b] obtain i s1 where
    1: "binv s1" "bframe s s1" "bidx (bufs s1) b = Some i" "babs s1 = grab b (babs s)" by (auto simp: kspec_def)
  from bc.pin_spec [OF 1(1,3)] b(2) obtain s2 where
    2: "binv s2" "bframe s1 s2" "babs s2 = pin b (babs s1)" "bidx (bufs s2) = bidx (bufs s1)"
    by (auto simp: kspec_def 1(4) grab_def)
  have h: "held (babs s2) b" "a_refs (babs s2) b \<noteq> 1" "bidx (bufs s2) b = Some i"
    using b(2) 1(3) by (simp_all add: 2 1(4) held_def pin_def grab_def)
  from bc.release_spec [OF 2(1) h(3,1)] h(2) obtain s3 where
    3: "binv s3" "bframe s2 s3" "babs s3 = letgo b (babs s2)" by (auto simp: kspec_def)
  have "babs s3 = pin b (babs s)"
    using b(2) by (auto simp: 3 2 1(4) acache_ops fun_eq_iff intro!: acache.equality)
  with 3(1) bframe_trans [OF bframe_trans [OF 1(2) 2(2)] 3(2)] show ?thesis by blast
qed

lemma txn_ready_exists: "\<exists>s :: klog. txn_ready s \<and> lh_n s = 1 \<and> head_n (disk s (log_start s)) = 0"
proof -
  obtain s :: klog where s: "booted s" "log_start s = 2" "log_dev s = ROOTDEV"
    "lh_block s = replicate LOGSIZE 100" "disk s = (\<lambda>_. replicate BSIZE 0)" using booted_exists by blast
  have b: "\<forall>c. a_refs (babs s) c = 0 \<and> a_lock (babs s) c = None" using s(1) by (simp add: booted_def)
  from pin_booted [OF s(1), of 100] obtain s' where s': "binv s'" "bframe s s'" "babs s' = pin 100 (babs s)" by blast
  define t where "t = s'\<lparr>lh_n := 1\<rparr>"
  note f = bframe_log [OF s'(2)]
  have t: "binv t" "babs t = pin 100 (babs s)" "log_start t = 2" "log_dev t = ROOTDEV" "lh_n t = 1"
      "lh_block t = replicate LOGSIZE 100"
    using f s s' by (simp_all add: t_def)
  have "txn t = [100]" using t(5,6) by (simp add: txn_def)
  moreover have "home 2 (100 :: uint32)"
  proof -
    have "(100 :: uint32) \<noteq> log_block_no 2 i" if "i < LOGSIZE" for i
    proof
      assume "(100 :: uint32) = log_block_no 2 i"
      then have "(97 :: uint32) = of_nat i" by (simp add: log_block_no_def algebra_simps) 
      then have "unat (97 :: uint32) = unat (of_nat i :: uint32)" by simp
      with that show False by (simp add: unat_of_nat_less)
    qed
    then show ?thesis by (simp add: home_def)
  qed
  moreover have "{c. 0 < a_refs (babs t) c} = {100}" using b by (auto simp: t pin_def)
  ultimately have "txn_ready t" using t b by (simp add: txn_ready_def pin_def)
  moreover have "disk t = a_disk (babs t)" "a_disk (babs s) = disk s" by (simp_all add: babs_def)
  then have "disk t = (\<lambda>_. replicate BSIZE 0)" by (simp add: t pin_def s(5))
  then have "head_n (disk t (log_start t)) = 0"
    by (simp add: head_n_def get_bytes_def take_replicate min_def)
  ultimately show ?thesis using t(5) by blast
qed

theorem commit_crash_atomic_witness:
  "\<exists>s :: klog. txn_ready s \<and> lh_n s = 1 \<and> (\<exists>s' ws. commit s = Ok () s' \<and> dwrites s' = dwrites s @ ws)"
proof -
  obtain s :: klog where s: "txn_ready s" "lh_n s = 1" "head_n (disk s (log_start s)) = 0"
    using txn_ready_exists by blast
  with commit_crash_atomic [OF s(1) _ s(3)] show ?thesis by auto
qed

end
