(* ===== verification/Txn.thy ===== *)
theory Txn
  imports Log_Crash
begin

text \<open>
  What the log promises to the file system between \<^verbatim>\<open>begin_op\<close> and \<^verbatim>\<open>end_op\<close>: blocks are read,
  changed and logged through the cache, every change is visible to later reads, and nothing
  reaches the disk.  The locale \<open>transaction\<close> is that contract; \<open>H\<close> is the set of blocks whose
  buffers the caller holds.
\<close>

locale transaction =
  fixes rd :: "uint32 \<Rightarrow> ('s, nat) kfun"
    and data :: "nat \<Rightarrow> ('s, block) kfun"
    and set_data :: "nat \<Rightarrow> block \<Rightarrow> ('s, unit) kfun"
    and logw :: "nat \<Rightarrow> ('s, unit) kfun"
    and rel :: "nat \<Rightarrow> ('s, unit) kfun"
    and inv :: "uint32 set \<Rightarrow> 's \<Rightarrow> bool"
    and view :: "'s \<Rightarrow> uint32 \<Rightarrow> block"
    and saved :: "'s \<Rightarrow> uint32 \<Rightarrow> block"
    and logged :: "'s \<Rightarrow> uint32 set"
    and handle :: "'s \<Rightarrow> uint32 \<Rightarrow> nat option"
    and frame :: "'s \<Rightarrow> 's \<Rightarrow> bool"
    and space :: "'s \<Rightarrow> nat"
  assumes read_law: "inv H s \<Longrightarrow> b \<notin> H \<Longrightarrow> b \<in> logged s \<or> card (logged s \<union> H) < NBUF \<Longrightarrow>
      kspec (rd b) s (\<lambda>i s'. inv (insert b H) s' \<and> frame s s' \<and> handle s' b = Some i \<and> view s' = view s \<and>
        saved s' = saved s \<and> logged s' = logged s \<and> space s' = space s \<and> (\<forall>c \<in> H. handle s' c = handle s c))"
    and data_law: "inv H s \<Longrightarrow> b \<in> H \<Longrightarrow> handle s b = Some i \<Longrightarrow> kspec (data i) s (\<lambda>d s'. s' = s \<and> d = view s b)"
    and set_law: "inv H s \<Longrightarrow> b \<in> H \<Longrightarrow> handle s b = Some i \<Longrightarrow> length d = BSIZE \<Longrightarrow>
      kspec (set_data i d) s (\<lambda>_ s'. inv H s' \<and> frame s s' \<and> handle s' = handle s \<and> view s' = (view s)(b := d) \<and>
        saved s' = saved s \<and> logged s' = logged s \<and> space s' = space s)"
    and log_law: "inv H s \<Longrightarrow> b \<in> H \<Longrightarrow> handle s b = Some i \<Longrightarrow> 0 < space s \<Longrightarrow>
      kspec (logw i) s (\<lambda>_ s'. inv H s' \<and> frame s s' \<and> handle s' = handle s \<and> view s' = view s \<and>
        saved s' = saved s \<and> logged s' = insert b (logged s) \<and> space s' = (if b \<in> logged s then space s else space s - 1))"
    and rel_law: "inv H s \<Longrightarrow> b \<in> H \<Longrightarrow> handle s b = Some i \<Longrightarrow> b \<in> logged s \<or> view s b = saved s b \<Longrightarrow>
      kspec (rel i) s (\<lambda>_ s'. inv (H - {b}) s' \<and> frame s s' \<and> handle s' = handle s \<and> view s' = view s \<and>
        saved s' = saved s \<and> logged s' = logged s \<and> space s' = space s)"
    and clean_law: "inv H s \<Longrightarrow> b \<notin> H \<Longrightarrow> b \<notin> logged s \<Longrightarrow> view s b = saved s b"
    and size_law: "inv H s \<Longrightarrow> length (view s b) = BSIZE"
    and frame_compose: "frame s s' \<Longrightarrow> frame s' s'' \<Longrightarrow> frame s s''"
begin

text \<open>Reading a block without keeping it.\<close>

lemma peek_block:
  assumes "inv H s" "b \<notin> H" "b \<in> logged s \<or> card (logged s \<union> H) < NBUF"
  shows "kspec (kbind (rd b) (\<lambda>i. kbind (data i) (\<lambda>d. kbind (rel i) (\<lambda>_. kret (f d))))) s (\<lambda>r s'.
    r = f (view s b) \<and> inv H s' \<and> frame s s' \<and> view s' = view s \<and> saved s' = saved s \<and> logged s' = logged s \<and>
    space s' = space s \<and> (\<forall>c \<in> H. handle s' c = handle s c))"
proof -
  from read_law [OF assms] obtain i s1 where 1: "rd b s = Ok i s1" "inv (insert b H) s1" "frame s s1"
    "handle s1 b = Some i" "view s1 = view s" "saved s1 = saved s" "logged s1 = logged s" "space s1 = space s"
    "\<forall>c \<in> H. handle s1 c = handle s c" by (auto simp: kspec_def)
  have 2: "data i s1 = Ok (view s b) s1" using data_law [OF 1(2) _ 1(4)] 1(5) by (auto simp: kspec_def)
  have "b \<in> logged s1 \<or> view s1 b = saved s1 b" using clean_law [OF assms(1,2)] 1(5-7) by auto
  from rel_law [OF 1(2) _ 1(4) this] obtain s2 where 3: "rel i s1 = Ok () s2" "inv (insert b H - {b}) s2"
    "frame s1 s2" "handle s2 = handle s1" "view s2 = view s1" "saved s2 = saved s1" "logged s2 = logged s1"
    "space s2 = space s1" by (auto simp: kspec_def)
  have "insert b H - {b} = H" using assms(2) by auto
  with 1 2 3 show ?thesis by (auto simp: kspec_def kbind_apply intro: frame_compose)
qed

text \<open>Changing and logging a block that is held.\<close>

lemma change_held:
  assumes "inv H s" "b \<in> H" "handle s b = Some i" "0 < space s" "length d = BSIZE"
  shows "kspec (kbind (set_data i d) (\<lambda>_. kbind (logw i) (\<lambda>_. rel i))) s (\<lambda>_ s'.
    inv (H - {b}) s' \<and> frame s s' \<and> handle s' = handle s \<and> view s' = (view s)(b := d) \<and> saved s' = saved s \<and>
    logged s' = insert b (logged s) \<and> space s' = (if b \<in> logged s then space s else space s - 1))"
proof -
  from set_law [OF assms(1-3,5)] obtain s1 where 1: "set_data i d s = Ok () s1" "inv H s1" "frame s s1"
    "handle s1 = handle s" "view s1 = (view s)(b := d)" "saved s1 = saved s" "logged s1 = logged s" "space s1 = space s"
    by (auto simp: kspec_def)
  have h: "handle s1 b = Some i" "0 < space s1" using assms(3,4) 1(4,8) by simp_all
  from log_law [OF 1(2) assms(2) h] obtain s2 where 2: "logw i s1 = Ok () s2" "inv H s2" "frame s1 s2"
    "handle s2 = handle s1" "view s2 = view s1" "saved s2 = saved s1" "logged s2 = insert b (logged s1)"
    "space s2 = (if b \<in> logged s1 then space s1 else space s1 - 1)" by (auto simp: kspec_def)
  have h2: "handle s2 b = Some i" "b \<in> logged s2 \<or> view s2 b = saved s2 b" using h(1) 2(4,7) by simp_all
  from rel_law [OF 2(2) assms(2) h2] obtain s3 where 3: "rel i s2 = Ok () s3" "inv (H - {b}) s3" "frame s2 s3"
    "handle s3 = handle s2" "view s3 = view s2" "saved s3 = saved s2" "logged s3 = logged s2" "space s3 = space s2"
    by (auto simp: kspec_def)
  have "frame s s3" using 1(3) 2(3) 3(3) by (metis frame_compose)
  with 1 2 3 show ?thesis by (simp add: kspec_def kbind_apply)
qed

text \<open>Reading, changing and logging a block.\<close>

lemma update_block:
  assumes "inv H s" "b \<notin> H" "b \<in> logged s \<or> card (logged s \<union> H) < NBUF" "0 < space s"
    and "\<And>d. length d = BSIZE \<Longrightarrow> length (f d) = BSIZE"
  shows "kspec (kbind (rd b) (\<lambda>i. kbind (data i) (\<lambda>d. kbind (set_data i (f d)) (\<lambda>_. kbind (logw i) (\<lambda>_. rel i))))) s
    (\<lambda>_ s'. inv H s' \<and> frame s s' \<and> view s' = (view s)(b := f (view s b)) \<and> saved s' = saved s \<and>
      logged s' = insert b (logged s) \<and> space s' = (if b \<in> logged s then space s else space s - 1) \<and>
      (\<forall>c \<in> H. handle s' c = handle s c))"
proof -
  from read_law [OF assms(1-3)] obtain i s1 where 1: "rd b s = Ok i s1" "inv (insert b H) s1" "frame s s1"
    "handle s1 b = Some i" "view s1 = view s" "saved s1 = saved s" "logged s1 = logged s" "space s1 = space s"
    "\<forall>c \<in> H. handle s1 c = handle s c" by (auto simp: kspec_def)
  have 2: "data i s1 = Ok (view s b) s1" using data_law [OF 1(2) _ 1(4)] 1(5) by (auto simp: kspec_def)
  have "0 < space s1" "length (f (view s b)) = BSIZE" using 1(8) assms(4,5) size_law [OF assms(1)] by simp_all
  from change_held [OF 1(2) insertI1 1(4) this] obtain s2 where
    3: "kbind (set_data i (f (view s b))) (\<lambda>_. kbind (logw i) (\<lambda>_. rel i)) s1 = Ok () s2"
    "inv (insert b H - {b}) s2" "frame s1 s2" "handle s2 = handle s1" "view s2 = (view s1)(b := f (view s b))"
    "saved s2 = saved s1" "logged s2 = insert b (logged s1)"
    "space s2 = (if b \<in> logged s1 then space s1 else space s1 - 1)" by (auto simp: kspec_def)
  have "insert b H - {b} = H" using assms(2) by auto
  with 1 2 3 show ?thesis by (auto simp: kspec_def kbind_apply intro: frame_compose)
qed

end

subsection \<open>The log keeps the contract\<close>

definition in_txn :: "uint32 set \<Rightarrow> 'a klog_scheme \<Rightarrow> bool" where
  "in_txn H s \<longleftrightarrow> binv s \<and> 1 \<le> log_outstanding s \<and> 0 \<le> lh_n s \<and> lh_n s \<le> int LOGSIZE \<and>
     length (lh_block s) = LOGSIZE \<and> distinct (txn s) \<and> finite H \<and>
     (\<forall>b. a_refs (babs s) b = (if b \<in> set (txn s) then 1 else 0) + (if b \<in> H then 1 else 0)) \<and>
     (\<forall>b. a_lock (babs s) b = (if b \<in> H then Some (a_pid (babs s)) else None))"

text \<open>How many further blocks \<^verbatim>\<open>log_write\<close> accepts.\<close>

definition log_space :: "'a klog_scheme \<Rightarrow> nat" where
  "log_space s = nat (min (int LOGSIZE) (log_size s - 1) - lh_n s)"

text \<open>Everything outside the cache and the list of logged blocks stays as it is.\<close>

definition tframe :: "'a klog_scheme \<Rightarrow> 'a klog_scheme \<Rightarrow> bool" where
  "tframe s s' \<longleftrightarrow> s' = s\<lparr>bufs := bufs s', procs := procs s', disk := disk s', dwrites := dwrites s',
     lh_n := lh_n s', lh_block := lh_block s'\<rparr> \<and> length (procs s') = length (procs s)"

lemma tframe_iff: "tframe s s' \<longleftrightarrow> (\<exists>a b c d n bl. s' = s\<lparr>bufs := a, procs := b, disk := c, dwrites := d,
    lh_n := n, lh_block := bl\<rparr> \<and> length b = length (procs s))"
proof
  assume "tframe s s'"
  then show "\<exists>a b c d n bl. s' = s\<lparr>bufs := a, procs := b, disk := c, dwrites := d, lh_n := n, lh_block := bl\<rparr> \<and>
      length b = length (procs s)" unfolding tframe_def by metis
next
  assume "\<exists>a b c d n bl. s' = s\<lparr>bufs := a, procs := b, disk := c, dwrites := d, lh_n := n, lh_block := bl\<rparr> \<and>
    length b = length (procs s)"
  then show "tframe s s'" by (auto simp: tframe_def)
qed

lemma tframe_bframe:
  assumes "bframe s (s' :: 'a klog_scheme)"
  shows "tframe s s'"
proof -
  obtain a b c d where "s' = s\<lparr>bufs := a, procs := b, disk := c, dwrites := d\<rparr>" "length b = length (procs s)"
    using assms by (auto simp: bframe_iff)
  then show ?thesis by (simp add: tframe_def)
qed

lemma tframe_trans:
  assumes "tframe s s'" "tframe s' s''"
  shows "tframe s s''"
proof -
  obtain a b c d n bl where 1: "s' = s\<lparr>bufs := a, procs := b, disk := c, dwrites := d, lh_n := n, lh_block := bl\<rparr>"
    "length b = length (procs s)" using assms(1) by (auto simp: tframe_iff)
  obtain a' b' c' d' n' bl' where 2: "s'' = s'\<lparr>bufs := a', procs := b', disk := c', dwrites := d', lh_n := n',
    lh_block := bl'\<rparr>" "length b' = length (procs s')" using assms(2) by (auto simp: tframe_iff)
  from 1 2 show ?thesis by (simp add: tframe_def)
qed

lemma tframe_fields:
  "tframe s s' \<Longrightarrow> log_outstanding s' = log_outstanding s \<and> log_size s' = log_size s \<and> log_start s' = log_start s \<and>
    log_dev s' = log_dev s \<and> log_committing s' = log_committing s \<and> curproc s' = curproc s \<and> mem s' = mem s"
  by (auto simp: tframe_iff)

lemma refs_card:
  assumes "in_txn H s"
  shows "{c. 0 < a_refs (babs s) c} = set (txn s) \<union> H"
  using assms by (auto simp: in_txn_def)

lemma txn_same: "lh_n s' = lh_n s \<Longrightarrow> lh_block s' = lh_block s \<Longrightarrow> txn s' = txn s"
  by (simp add: txn_def)

lemma in_txn_frame:
  assumes "in_txn H s" "bframe s s'" "binv s'" "finite H'" "a_pid (babs s') = a_pid (babs s)"
    and "\<And>b. a_refs (babs s') b = (if b \<in> set (txn s) then 1 else 0) + (if b \<in> H' then 1 else 0)"
    and "\<And>b. a_lock (babs s') b = (if b \<in> H' then Some (a_pid (babs s)) else None)"
  shows "in_txn H' s'" "txn s' = txn s" "log_space s' = log_space s"
proof -
  have f: "lh_n s' = lh_n s" "lh_block s' = lh_block s" "log_size s' = log_size s"
    "log_outstanding s' = log_outstanding s" using bframe_log [OF assms(2)] by auto
  then show t: "txn s' = txn s" by (simp add: txn_def)
  show "in_txn H' s'" using assms unfolding in_txn_def t f by simp
  show "log_space s' = log_space s" by (simp add: log_space_def f)
qed

lemma txn_read:
  assumes "in_txn H s" "b \<notin> H" "b \<in> set (txn s) \<or> card (set (txn s) \<union> H) < NBUF"
  shows "kspec (bread ROOTDEV b) s (\<lambda>i s'. in_txn (insert b H) s' \<and> tframe s s' \<and> bidx (bufs s') b = Some i \<and>
    a_view (babs s') = a_view (babs s) \<and> disk s' = disk s \<and> set (txn s') = set (txn s) \<and> log_space s' = log_space s \<and>
    (\<forall>c \<in> H. bidx (bufs s') c = bidx (bufs s) c))"
proof -
  have t: "binv s" "finite H" and refs: "\<And>b. a_refs (babs s) b = (if b \<in> set (txn s) then 1 else 0) + (if b \<in> H then 1 else 0)"
    and lock: "\<And>b. a_lock (babs s) b = (if b \<in> H then Some (a_pid (babs s)) else None)"
    using assms(1) by (simp_all add: in_txn_def)
  have "room (babs s) b" using assms(2,3) refs_card [OF assms(1)] by (auto simp: room_def refs lock)
  from bc.read_spec [OF t(1) this] obtain i s' where 1: "bread ROOTDEV b s = Ok i s'" "binv s'" "bframe s s'"
    "bidx (bufs s') b = Some i" "babs s' = grab b (babs s)" "keeps (babs s) (bidx (bufs s)) (bidx (bufs s'))"
    by (auto simp: kspec_def)
  have inv: "in_txn (insert b H) s'" "txn s' = txn s" "log_space s' = log_space s"
    by (rule in_txn_frame [OF assms(1) 1(3,2) finite.insertI [OF t(2), of b]];
        use assms(2) in \<open>simp add: 1(5) grab_def refs lock\<close>)+
  have k: "bidx (bufs s') c = bidx (bufs s) c" if "c \<in> H" for c
  proof -
    have "0 < a_refs (babs s) c" using that refs by simp
    then obtain j where "bidx (bufs s) c = Some j" by (cases "bidx (bufs s) c") (auto simp: babs_def)
    with \<open>0 < a_refs (babs s) c\<close> 1(6) show ?thesis by (simp add: keeps_def)
  qed
  have "disk s' = disk s" using arg_cong [OF 1(5), of a_disk] by (simp add: grab_def babs_def)
  moreover have "a_view (babs s') = a_view (babs s)" by (simp add: 1(5) grab_def)
  ultimately show ?thesis
    using inv 1 k tframe_bframe [OF 1(3)] by (simp add: kspec_def)
qed

lemma txn_held: "in_txn H s \<Longrightarrow> b \<in> H \<Longrightarrow> binv s \<and> held (babs s) b"
  by (simp add: in_txn_def held_def)

lemma txn_set:
  assumes "in_txn H s" "b \<in> H" "bidx (bufs s) b = Some i" "length d = BSIZE"
  shows "kspec (set_buf_data i d) s (\<lambda>_ s'. in_txn H s' \<and> tframe s s' \<and> bidx (bufs s') = bidx (bufs s) \<and>
    a_view (babs s') = (a_view (babs s))(b := d) \<and> disk s' = disk s \<and> set (txn s') = set (txn s) \<and>
    log_space s' = log_space s)"
proof -
  note h = txn_held [OF assms(1,2)]
  from bc.set_data_spec [of s b i d] h assms(3,4) obtain s' where 1: "set_buf_data i d s = Ok () s'" "binv s'"
    "bframe s s'" "babs s' = modify b d (babs s)" "bidx (bufs s') = bidx (bufs s)" by (auto simp: kspec_def)
  have refs: "\<And>c. a_refs (babs s) c = (if c \<in> set (txn s) then 1 else 0) + (if c \<in> H then 1 else 0)"
    and lock: "\<And>c. a_lock (babs s) c = (if c \<in> H then Some (a_pid (babs s)) else None)" and fin: "finite H"
    using assms(1) by (simp_all add: in_txn_def)
  have inv: "in_txn H s'" "txn s' = txn s" "log_space s' = log_space s"
    by (rule in_txn_frame [OF assms(1) 1(3,2) fin]; simp add: 1(4) modify_def refs lock)+
  have "disk s' = disk s" using arg_cong [OF 1(4), of a_disk] by (simp add: modify_def babs_def)
  then show ?thesis using inv 1 tframe_bframe [OF 1(3)]
    by (simp add: kspec_def modify_def)
qed

lemma txn_release:
  assumes "in_txn H s" "b \<in> H" "bidx (bufs s) b = Some i" "b \<in> set (txn s) \<or> a_view (babs s) b = disk s b"
  shows "kspec (brelse i) s (\<lambda>_ s'. in_txn (H - {b}) s' \<and> tframe s s' \<and> bidx (bufs s') = bidx (bufs s) \<and>
    a_view (babs s') = a_view (babs s) \<and> disk s' = disk s \<and> set (txn s') = set (txn s) \<and> log_space s' = log_space s)"
proof -
  note h = txn_held [OF assms(1,2)]
  have refs: "\<And>c. a_refs (babs s) c = (if c \<in> set (txn s) then 1 else 0) + (if c \<in> H then 1 else 0)"
    and lock: "\<And>c. a_lock (babs s) c = (if c \<in> H then Some (a_pid (babs s)) else None)" and fin: "finite H"
    using assms(1) by (simp_all add: in_txn_def)
  have "a_refs (babs s) b = 1 \<Longrightarrow> a_view (babs s) b = a_disk (babs s) b"
    using assms(2,4) refs by (auto simp: babs_def split: if_splits)
  from bc.release_spec [OF conjunct1 [OF h] assms(3) conjunct2 [OF h] this] obtain s' where
    1: "brelse i s = Ok () s'" "binv s'" "bframe s s'" "babs s' = letgo b (babs s)" "bidx (bufs s') = bidx (bufs s)"
    by (auto simp: kspec_def)
  have inv: "in_txn (H - {b}) s'" "txn s' = txn s" "log_space s' = log_space s"
    by (rule in_txn_frame [OF assms(1) 1(3,2) finite_Diff [OF fin, of "{b}"]]; use assms(2) in \<open>simp add: 1(4) letgo_def refs lock\<close>)+
  have "disk s' = disk s" using arg_cong [OF 1(4), of a_disk] by (simp add: letgo_def babs_def)
  then show ?thesis using inv 1 tframe_bframe [OF 1(3)]
    by (simp add: kspec_def letgo_def)
qed

lemma find_logged_props:
  fixes bl :: "uint32 list" and n :: nat and b :: uint32
  defines "i \<equiv> find_logged n bl b"
  assumes "n \<le> length bl"
  shows "i \<le> n" "i < n \<longleftrightarrow> b \<in> set (take n bl)" "i < n \<Longrightarrow> bl ! i = b"
proof -
  have "(i < n \<and> bl ! i = b \<and> b \<in> set (take n bl)) \<or> (i = n \<and> b \<notin> set (take n bl))"
  proof (cases "find (\<lambda>i. bl ! i = b) [0..<n]")
    case None
    then have "i = n" by (simp add: i_def find_logged_def)
    moreover have "b \<notin> set (take n bl)" using None assms(2) by (auto simp: find_None_iff in_set_conv_nth)
    ultimately show ?thesis by simp
  next
    case (Some j)
    then have "i = j" "j < n" "bl ! j = b" using find_SomeD [OF Some] by (auto simp: i_def find_logged_def)
    moreover from this have "b \<in> set (take n bl)" using assms(2) by (auto simp: in_set_conv_nth)
    ultimately show ?thesis by simp
  qed
  then show "i \<le> n" "i < n \<longleftrightarrow> b \<in> set (take n bl)" "i < n \<Longrightarrow> bl ! i = b" by auto
qed

lemma log_write_absorbs:
  assumes "in_txn H s" "bidx (bufs s) b = Some i" "0 < log_space s" "b \<in> set (txn s)"
  shows "log_write i s = Ok () s"
proof -
  have t: "binv s" "1 \<le> log_outstanding s" "0 \<le> lh_n s" "lh_n s \<le> int LOGSIZE" "length (lh_block s) = LOGSIZE"
    using assms(1) by (simp_all add: in_txn_def)
  have "b_blockno (bufs s ! i) = b" using assms(2) t(1) by (simp add: bidx_Some binv_def keyed_def)
  moreover have fl: "find_logged (nat (lh_n s)) (lh_block s) b < nat (lh_n s)"
    "lh_block s ! find_logged (nat (lh_n s)) (lh_block s) b = b"
    using find_logged_props [of "nat (lh_n s)" "lh_block s" b] t(3-5) assms(4) by (simp_all add: txn_def)
  moreover from this have "(lh_block s)[find_logged (nat (lh_n s)) (lh_block s) b := b] = lh_block s"
    by (metis list_update_id)
  moreover have "int (find_logged (nat (lh_n s)) (lh_block s) b) \<noteq> lh_n s" using fl(1) by linarith
  ultimately show ?thesis using assms(3) t
    by (simp add: log_write_def kbind_apply Let_def log_space_def)
qed

lemma log_write_appends:
  assumes "in_txn H s" "b \<in> H" "bidx (bufs s) b = Some i" "0 < log_space s" "b \<notin> set (txn s)"
  shows "kspec (log_write i) s (\<lambda>_ s'. in_txn H s' \<and> tframe s s' \<and> bidx (bufs s') = bidx (bufs s) \<and>
    a_view (babs s') = a_view (babs s) \<and> disk s' = disk s \<and> txn s' = txn s @ [b] \<and> log_space s' = log_space s - 1)"
proof -
  have t: "binv s" "1 \<le> log_outstanding s" "0 \<le> lh_n s" "lh_n s < int LOGSIZE" "length (lh_block s) = LOGSIZE"
    "distinct (txn s)" "finite H" "lh_n s < log_size s - 1"
    using assms(1,4) by (simp_all add: in_txn_def log_space_def)
  have refs: "\<And>c. a_refs (babs s) c = (if c \<in> set (txn s) then 1 else 0) + (if c \<in> H then 1 else 0)"
    and lock: "\<And>c. a_lock (babs s) c = (if c \<in> H then Some (a_pid (babs s)) else None)"
    using assms(1) by (simp_all add: in_txn_def)
  define n where "n = nat (lh_n s)"
  have tx0: "txn s = take n (lh_block s)" by (simp add: txn_def n_def)
  have n: "lh_n s = int n" "n < LOGSIZE" using t(3,4) by (simp_all add: n_def)
  have bno: "b_blockno (bufs s ! i) = b" using assms(3) t(1) by (simp add: bidx_Some binv_def keyed_def)
  have fl: "find_logged n (lh_block s) b = n"
    using find_logged_props [of n "lh_block s" b] n(2) t(5) assms(5) tx0 by simp
  define s1 where "s1 = s\<lparr>lh_block := (lh_block s)[n := b]\<rparr>"
  have s1: "binv s1" "babs s1 = babs s" "bufs s1 = bufs s" using t(1) by (simp_all add: s1_def)
  from bc.pin_spec [OF s1(1), of b i] obtain s2 where 2: "bpin i s1 = Ok () s2" "binv s2" "bframe s1 s2"
    "babs s2 = pin b (babs s1)" "bidx (bufs s2) = bidx (bufs s1)"
    using assms(2,3,5) by (auto simp: kspec_def s1 refs)
  define s3 where "s3 = s2\<lparr>lh_n := lh_n s2 + 1\<rparr>"
  have f: "lh_n s3 = int n + 1" "lh_block s3 = (lh_block s)[n := b]" "log_size s3 = log_size s"
    "log_outstanding s3 = log_outstanding s"
    using bframe_log [OF 2(3)] by (simp_all add: s3_def s1_def n)
  have tx: "txn s3 = txn s @ [b]"
    using t(5) n by (simp add: tx0) (simp add: txn_def f nat_add_distrib take_Suc_conv_app_nth)
  have run: "log_write i s = Ok () s3"
    using t n fl bno 2(1) by (simp add: log_write_def kbind_apply Let_def s1_def [symmetric] s3_def)
  obtain a p c d where s2: "s2 = s1\<lparr>bufs := a, procs := p, disk := c, dwrites := d\<rparr>" "length p = length (procs s1)"
    using 2(3) by (auto simp: bframe_iff)
  have "tframe s s3" unfolding tframe_def using s2 by (cases s) (simp add: s3_def s1_def)
  moreover have b3: "babs s3 = pin b (babs s)" "binv s3" using 2 s1 by (simp_all add: s3_def)
  moreover have "disk s3 = disk s" using arg_cong [OF b3(1), of a_disk] by (simp add: pin_def babs_def)
  moreover have "in_txn H s3"
    using t assms(2,5) refs lock n b3 unfolding in_txn_def tx f by (simp add: pin_def)
  moreover have "log_space s3 = log_space s - 1" using n by (simp add: log_space_def f)
  ultimately show ?thesis using run 2(5) s1 tx by (auto simp: kspec_def s3_def pin_def)
qed

lemma txn_clean: "in_txn H s \<Longrightarrow> b \<notin> H \<Longrightarrow> b \<notin> set (txn s) \<Longrightarrow> a_view (babs s) b = disk s b"
  using unref_view [of s b] by (simp add: in_txn_def babs_def)

interpretation tx: transaction "bread ROOTDEV" buf_data set_buf_data log_write brelse in_txn "\<lambda>s. a_view (babs s)" disk
  "\<lambda>s. set (txn s)" "\<lambda>s. bidx (bufs s)" tframe log_space
proof
  fix H b i and s :: "'a klog_scheme"
  assume a: "in_txn H s" "b \<in> H" "bidx (bufs s) b = Some i" "0 < log_space s"
  show "kspec (log_write i) s (\<lambda>_ s'. in_txn H s' \<and> tframe s s' \<and> bidx (bufs s') = bidx (bufs s) \<and>
      a_view (babs s') = a_view (babs s) \<and> disk s' = disk s \<and> set (txn s') = insert b (set (txn s)) \<and>
      log_space s' = (if b \<in> set (txn s) then log_space s else log_space s - 1))"
  proof (cases "b \<in> set (txn s)")
    case True
    with log_write_absorbs [OF a(1,3,4)] a(1) show ?thesis by (auto simp: kspec_def tframe_def)
  next
    case False
    from log_write_appends [OF a False] show ?thesis using False by (auto simp: kspec_def)
  qed
next
  fix H b i and s :: "'a klog_scheme"
  assume "in_txn H s" "b \<in> H" "bidx (bufs s) b = Some i"
  then show "kspec (buf_data i) s (\<lambda>d s'. s' = s \<and> d = a_view (babs s) b)"
    using txn_held bc.data_spec by blast
next
  fix H s b assume "in_txn H (s :: 'a klog_scheme)"
  then show "length (a_view (babs s) b) = BSIZE" by (simp add: in_txn_def bc.view_size)
next
  fix H b and s :: "'a klog_scheme"
  assume "in_txn H s" "b \<notin> H" "b \<notin> set (txn s)"
  then show "a_view (babs s) b = disk s b" by (rule txn_clean)
next
  fix s s' s'' :: "'a klog_scheme"
  assume "tframe s s'" "tframe s' s''"
  then show "tframe s s''" by (rule tframe_trans)
qed (rule txn_read txn_set txn_release, assumption+)+

end
