(* ===== verification/Fs_Alloc.thy ===== *)
theory Fs_Alloc
  imports Fs Txn
begin

text \<open>
  The block allocator of \<^verbatim>\<open>kernel/fs.c\<close> on the blocks as a transaction sees them: \<^verbatim>\<open>balloc\<close> takes the
  lowest-numbered free block, marks it in the bitmap and clears it; \<^verbatim>\<open>bfree\<close> undoes the mark.
\<close>

abbreviation view :: "'a klog_scheme \<Rightarrow> uint32 \<Rightarrow> block" where
  "view s \<equiv> a_view (babs s)"

abbreviation logged :: "'a klog_scheme \<Rightarrow> uint32 set" where
  "logged s \<equiv> set (txn s)"

subsection \<open>Bits of a bitmap block\<close>

lemma bit_used_bit: "bit_used d bi \<longleftrightarrow> bit (d ! (bi div 8)) (bi mod 8)"
  unfolding bit_used_def bit_mask_def by (simp only: bit_iff_and_push_bit_not_eq_0)

lemma bit_mask_bit: "n < 8 \<Longrightarrow> bit (bit_mask bi) n \<longleftrightarrow> n = bi mod 8"
  by (auto simp: bit_mask_def bit_exp_iff possible_bit_word)

lemma same_byte: "j div 8 = i div 8 \<Longrightarrow> j mod 8 = i mod 8 \<longleftrightarrow> j = (i :: nat)"
  by (metis div_mult_mod_eq)

lemma bit_used_set:
  assumes "length d = BSIZE" "i < BPB" "j < BPB"
  shows "bit_used (set_used i d) j \<longleftrightarrow> j = i \<or> bit_used d j"
proof (cases "j div 8 = i div 8")
  case True
  have "i div 8 < length d" using assms by simp
  moreover have "j mod 8 = i mod 8 \<longleftrightarrow> j = i" using True by (rule same_byte)
  ultimately show ?thesis using True bit_mask_bit [of "j mod 8" i] by (simp add: bit_used_bit set_used_def bit_or_iff) blast
next
  case False
  then show ?thesis by (auto simp: bit_used_bit set_used_def)
qed

lemma bit_used_clear:
  assumes "length d = BSIZE" "i < BPB" "j < BPB"
  shows "bit_used (clear_used i d) j \<longleftrightarrow> j \<noteq> i \<and> bit_used d j"
proof (cases "j div 8 = i div 8")
  case True
  have "i div 8 < length d" using assms by simp
  moreover have "j mod 8 = i mod 8 \<longleftrightarrow> j = i" using True by (rule same_byte)
  ultimately show ?thesis using True bit_mask_bit [of "j mod 8" i] by (simp add: bit_used_bit clear_used_def bit_and_iff bit_not_iff) blast
next
  case False
  then show ?thesis by (auto simp: bit_used_bit clear_used_def)
qed

lemma clear_set_used:
  assumes "length d = BSIZE" "i < BPB" "\<not> bit_used d i"
  shows "clear_used i (set_used i d) = d"
proof -
  have i: "i div 8 < length d" using assms by simp
  have "(d ! (i div 8) OR bit_mask i) AND NOT (bit_mask i) = d ! (i div 8)"
  proof (rule bit_word_eqI)
    fix n :: nat assume "n < LENGTH(8)"
    then show "bit ((d ! (i div 8) OR bit_mask i) AND NOT (bit_mask i)) n = bit (d ! (i div 8)) n"
      using assms(3) bit_mask_bit [of n i] by (auto simp: bit_used_bit bit_and_iff bit_or_iff bit_not_iff)
  qed
  with i show ?thesis by (simp add: clear_used_def set_used_def)
qed

lemma length_set_used [simp]: "length (set_used i d) = length d" "length (clear_used i d) = length d"
  by (simp_all add: set_used_def clear_used_def)

subsection \<open>Clearing a block\<close>

lemma tframe_fs: "tframe s s' \<Longrightarrow> sb s' = sb s \<and> inodes s' = inodes s"
  by (auto simp: tframe_iff)

lemma tframe_refl [simp]: "tframe s s"
  by (simp add: tframe_def)

lemma bzero_spec:
  assumes "in_txn H s" "b \<notin> H" "b \<in> logged s \<or> card (logged s \<union> H) < NBUF" "0 < log_space s"
  shows "kspec (bzero ROOTDEV b) s (\<lambda>_ s'. in_txn H s' \<and> tframe s s' \<and> view s' = (view s)(b := replicate BSIZE 0) \<and>
    disk s' = disk s \<and> logged s' = insert b (logged s) \<and>
    log_space s' = (if b \<in> logged s then log_space s else log_space s - 1) \<and> (\<forall>c \<in> H. bidx (bufs s') c = bidx (bufs s) c))"
proof -
  from tx.read_law [OF assms(1-3)] obtain i s1 where 1: "bread ROOTDEV b s = Ok i s1" "in_txn (insert b H) s1" "tframe s s1"
    "bidx (bufs s1) b = Some i" "view s1 = view s" "disk s1 = disk s" "logged s1 = logged s" "log_space s1 = log_space s"
    "\<forall>c \<in> H. bidx (bufs s1) c = bidx (bufs s) c" by (auto simp: kspec_def)
  have sp: "0 < log_space s1" using 1(8) assms(4) by simp
  from tx.change_held [OF 1(2) insertI1 1(4) sp, of "replicate BSIZE 0"] obtain s2 where
    2: "kbind (set_buf_data i (replicate BSIZE 0)) (\<lambda>_. kbind (log_write i) (\<lambda>_. brelse i)) s1 = Ok () s2"
    "in_txn (insert b H - {b}) s2" "tframe s1 s2" "bidx (bufs s2) = bidx (bufs s1)"
    "view s2 = (view s1)(b := replicate BSIZE 0)" "disk s2 = disk s1" "logged s2 = insert b (logged s1)"
    "log_space s2 = (if b \<in> logged s1 then log_space s1 else log_space s1 - 1)" by (auto simp: kspec_def)
  have "insert b H - {b} = H" using assms(2) by auto
  moreover have "tframe s s2" using 1(3) 2(3) by (rule tframe_trans)
  ultimately show ?thesis using 1 2 by (simp add: kspec_def bzero_def kbind_apply)
qed

subsection \<open>Allocating a block\<close>

text \<open>The bitmap as the transaction sees it.\<close>

definition block_used :: "'a kfs_scheme \<Rightarrow> nat \<Rightarrow> bool" where
  "block_used s b \<longleftrightarrow> bit_used (view s (BBLOCK (of_nat b) (sb s))) (b mod BPB)"

text \<open>The caller holds no bitmap block and no free block, and there is room for two more blocks in
  the cache and in the log.\<close>

definition may_balloc :: "uint32 set \<Rightarrow> 'a kfs_scheme \<Rightarrow> bool" where
  "may_balloc H s \<longleftrightarrow> in_txn H s \<and> card (logged s \<union> H) + 1 < NBUF \<and> 2 \<le> log_space s \<and>
     (\<forall>b < unat (sb_size (sb s)). BBLOCK (of_nat b) (sb s) \<notin> H \<and> (\<not> block_used s b \<longrightarrow> of_nat b \<notin> H))"

lemma BBLOCK_nat:
  assumes "b < 2 ^ 32"
  shows "BBLOCK (of_nat b) B = of_nat (b div BPB) + sb_bmapstart B"
proof -
  have "unat (of_nat b div 8192 :: uint32) = unat (of_nat (b div 8192) :: uint32)"
    using assms by (simp add: unat_div unat_of_nat_less)
  then have "of_nat b div 8192 = (of_nat (b div 8192) :: uint32)" by (simp only: word_unat_eq_iff)
  then show ?thesis by (simp add: BBLOCK_def)
qed

lemma BBLOCK_chunk:
  assumes "k * BPB + i < 2 ^ 32" "i < BPB"
  shows "BBLOCK (of_nat (k * BPB + i)) B = BBLOCK (of_nat (k * BPB)) B"
  using assms by (simp add: BBLOCK_nat del: of_nat_add of_nat_mult)

lemma find_shift: "find P [a..<a + n] = map_option ((+) a) (find (\<lambda>i. P (a + i)) [0..<n])"
proof -
  have "[a..<a + n] = map (\<lambda>i. a + i) [0..<n]" using map_add_upt [of a n] by (simp add: add.commute)
  moreover have "find P (map f xs) = map_option f (find (P \<circ> f) xs)" for f and xs :: "nat list"
    by (induction xs) auto
  ultimately show ?thesis by (simp add: comp_def)
qed

lemma find_append: "find P (xs @ ys) = (case find P xs of None \<Rightarrow> find P ys | Some x \<Rightarrow> Some x)"
  by (induction xs) auto

text \<open>One bitmap block: nothing free in it, or its first free block is taken.\<close>

definition balloc_post :: "uint32 set \<Rightarrow> 'a kfs_scheme \<Rightarrow> nat option \<Rightarrow> uint32 \<Rightarrow> 'a kfs_scheme \<Rightarrow> bool" where
  "balloc_post H s found r s' \<longleftrightarrow> in_txn H s' \<and> disk s' = disk s \<and> sb s' = sb s \<and>
     (\<forall>c \<in> H. bidx (bufs s') c = bidx (bufs s) c) \<and>
     (case found of
        None \<Rightarrow> r = 0 \<and> view s' = view s \<and> logged s' = logged s \<and> log_space s' = log_space s \<and>
          kmsg s' = kmsg s @ ''balloc: out of blocks'' @ [CHR 0x0A]
      | Some b \<Rightarrow> (let bm = BBLOCK (of_nat b) (sb s) in r = of_nat b \<and>
          view s' = (view s)(bm := set_used (b mod BPB) (view s bm), r := replicate BSIZE 0) \<and>
          logged s' = {bm, r} \<union> logged s \<and> log_space s - 2 \<le> log_space s' \<and> kmsg s' = kmsg s))"

lemma balloc_take:
  fixes s :: "'a kfs_scheme"
  assumes m: "may_balloc H s" and b: "b < unat (sb_size (sb s))" "\<not> block_used s b"
  defines "c \<equiv> BBLOCK (of_nat b) (sb s)"
  assumes s1: "in_txn (insert c H) s1" "tframe s s1" "bidx (bufs s1) c = Some i" "view s1 = view s"
    "disk s1 = disk s" "logged s1 = logged s" "log_space s1 = log_space s" "\<forall>x \<in> H. bidx (bufs s1) x = bidx (bufs s) x"
  shows "kspec (kbind (set_buf_data i (set_used (b mod BPB) (view s c))) (\<lambda>_. kbind (log_write i) (\<lambda>_. kbind (brelse i) (\<lambda>_.
      kbind (bzero ROOTDEV (of_nat b)) (\<lambda>_. kret (of_nat b)))))) s1 (balloc_post H s (Some b))"
proof -
  have h: "in_txn H s" "c \<notin> H" "of_nat b \<notin> H" "card (logged s \<union> H) + 1 < NBUF" "2 \<le> log_space s"
    using m b by (simp_all add: may_balloc_def c_def)
  have l: "length (set_used (b mod BPB) (view s c)) = BSIZE" using tx.size_law [OF h(1)] by simp
  have "0 < log_space s1" using s1(7) h(5) by simp
  from tx.change_held [OF s1(1) insertI1 s1(3) this l] obtain s2 where
    2: "kbind (set_buf_data i (set_used (b mod BPB) (view s c))) (\<lambda>_. kbind (log_write i) (\<lambda>_. brelse i)) s1 = Ok () s2"
    "in_txn (insert c H - {c}) s2" "tframe s1 s2" "bidx (bufs s2) = bidx (bufs s1)"
    "view s2 = (view s1)(c := set_used (b mod BPB) (view s c))" "disk s2 = disk s1" "logged s2 = insert c (logged s1)"
    "log_space s2 = (if c \<in> logged s1 then log_space s1 else log_space s1 - 1)" by (auto simp: kspec_def)
  have H: "insert c H - {c} = H" using h(2) by auto
  have "card (logged s2 \<union> H) \<le> card (logged s \<union> H) + 1"
    by (simp add: 2(7) s1(6) card_insert_le_m1 card_insert_if)
  then have "card (logged s2 \<union> H) < NBUF" using h(4) by simp
  moreover have "0 < log_space s2" using 2(8) s1(7) h(5) by auto
  ultimately obtain s3 where 3: "bzero ROOTDEV (of_nat b) s2 = Ok () s3" "in_txn H s3" "tframe s2 s3"
    "view s3 = (view s2)(of_nat b := replicate BSIZE 0)" "disk s3 = disk s2" "logged s3 = insert (of_nat b) (logged s2)"
    "log_space s3 = (if of_nat b \<in> logged s2 then log_space s2 else log_space s2 - 1)"
    "\<forall>x \<in> H. bidx (bufs s3) x = bidx (bufs s2) x"
    using bzero_spec [OF 2(2) [unfolded H] h(3)] by (auto simp: kspec_def)
  have "tframe s s3" using s1(2) 2(3) 3(3) by (metis tframe_trans)
  then have "sb s3 = sb s" "kmsg s3 = kmsg s" by (auto simp: tframe_iff)
  moreover have "log_space s - 2 \<le> log_space s3" using 2(8) 3(7) s1(7) by auto
  moreover have "logged s3 = {c, of_nat b} \<union> logged s" using 3(6) 2(7) s1(6) by auto
  moreover have "disk s3 = disk s" "\<forall>x \<in> H. bidx (bufs s3) x = bidx (bufs s) x"
    using 3 2 s1 by simp_all
  moreover have "view s3 = (view s)(c := set_used (b mod BPB) (view s c), of_nat b := replicate BSIZE 0)"
    using 3(4) 2(5) s1(4) by simp
  moreover have "(kbind (set_buf_data i (set_used (b mod BPB) (view s c))) (\<lambda>_. kbind (log_write i) (\<lambda>_. kbind (brelse i) (\<lambda>_.
      kbind (bzero ROOTDEV (of_nat b)) (\<lambda>_. kret (of_nat b)))))) s1 = Ok (of_nat b :: uint32) s3"
    using 2(1) 3(1) by (auto simp: kbind_apply split: outcome.splits)
  ultimately show ?thesis using 3(2) unfolding kspec_def balloc_post_def by (simp add: Let_def c_def [symmetric])
qed

lemma chunk_upt:
  assumes "k * BPB < n"
  shows "[k * BPB..<n] = [k * BPB..<k * BPB + min BPB (n - k * BPB)] @ [(k + 1) * BPB..<n]"
proof (cases "BPB \<le> n - k * BPB")
  case True
  then have "k * BPB + BPB \<le> n" using assms by linarith
  then have "[k * BPB..<n] = [k * BPB..<k * BPB + BPB] @ [k * BPB + BPB..<n]"
    using upt_add_eq_append [of "k * BPB" "k * BPB + BPB" "n - (k * BPB + BPB)"] by simp
  with True show ?thesis by (simp add: min_def add.commute)
next
  case False
  then show ?thesis using assms by (simp add: min_def)
qed

lemma balloc_post_mono:
  assumes "balloc_post H s1 f r s'" "view s1 = view s" "disk s1 = disk s" "logged s1 = logged s" "log_space s1 = log_space s"
    and "tframe s s1" "\<forall>c \<in> H. bidx (bufs s1) c = bidx (bufs s) c"
  shows "balloc_post H s f r s'"
proof -
  have "sb s1 = sb s" "kmsg s1 = kmsg s" using assms(6) by (auto simp: tframe_iff)
  then show ?thesis using assms(1-5,7) by (simp add: balloc_post_def Let_def split: option.splits)
qed

lemma may_balloc_same:
  assumes "may_balloc H s" "in_txn H s1" "tframe s s1" "view s1 = view s" "logged s1 = logged s" "log_space s1 = log_space s"
  shows "may_balloc H s1" "block_used s1 = block_used s" "sb s1 = sb s"
proof -
  show sb: "sb s1 = sb s" using assms(3) by (auto simp: tframe_iff)
  then show u: "block_used s1 = block_used s" by (simp add: block_used_def fun_eq_iff assms(4))
  show "may_balloc H s1" using assms(1,2,5,6) by (simp add: may_balloc_def sb u)
qed

lemma babs_other [simp]:
  "babs (s\<lparr>kmsg := m\<rparr>) = babs s" "babs (u\<lparr>inodes := v\<rparr>) = babs u"
  by (simp_all add: babs_def cong: option.case_cong)

lemma in_txn_other [simp]:
  "txn (r\<lparr>kmsg := m\<rparr>) = txn r" "log_space (r\<lparr>kmsg := m\<rparr>) = log_space r" "in_txn H (r\<lparr>kmsg := m\<rparr>) = in_txn H r"
  "txn (u\<lparr>inodes := v\<rparr>) = txn u" "log_space (u\<lparr>inodes := v\<rparr>) = log_space u" "in_txn H (u\<lparr>inodes := v\<rparr>) = in_txn H u"
  by (simp_all add: in_txn_def binv_def txn_def log_space_def)

lemma balloc_none:
  assumes "may_balloc H s"
  shows "kspec (balloc_loop ROOTDEV []) s (balloc_post H s None)"
proof -
  have "in_txn H s" using assms by (simp add: may_balloc_def)
  then show ?thesis
    by (simp add: kspec_def kbind_apply kprint_def balloc_post_def)
qed

text \<open>The part of the bitmap in block number \<open>k\<close> of it.\<close>

lemma chunk_used:
  fixes s :: "'a kfs_scheme"
  assumes "i < min BPB (unat (sb_size (sb s)) - k * BPB)"
  shows "k * BPB + i < unat (sb_size (sb s))" "(k * BPB + i) mod BPB = i"
    "BBLOCK (of_nat (k * BPB + i)) (sb s) = BBLOCK (of_nat (k * BPB)) (sb s)"
    "block_used s (k * BPB + i) \<longleftrightarrow> bit_used (view s (BBLOCK (of_nat (k * BPB)) (sb s))) i"
proof -
  have i: "i < BPB" "i < unat (sb_size (sb s)) - k * BPB" using assms by simp_all
  show "k * BPB + i < unat (sb_size (sb s))" using i(2) by linarith
  moreover have "unat (sb_size (sb s)) < 2 ^ 32" using unsigned_less [of "sb_size (sb s)", where 'a = nat] by simp
  ultimately show c: "BBLOCK (of_nat (k * BPB + i)) (sb s) = BBLOCK (of_nat (k * BPB)) (sb s)"
    using i(1) by (intro BBLOCK_chunk) linarith+
  show m: "(k * BPB + i) mod BPB = i" using i(1) by simp
  show "block_used s (k * BPB + i) \<longleftrightarrow> bit_used (view s (BBLOCK (of_nat (k * BPB)) (sb s))) i"
    unfolding block_used_def c m ..
qed

lemma chunk_find:
  fixes s :: "'a kfs_scheme"
  defines "sz \<equiv> unat (sb_size (sb s))"
  assumes "k * BPB < sz"
  shows "find (\<lambda>b. \<not> block_used s b) [k * BPB..<sz] =
    (case find (\<lambda>i. \<not> bit_used (view s (BBLOCK (of_nat (k * BPB)) (sb s))) i) [0..<min BPB (sz - k * BPB)] of
       None \<Rightarrow> find (\<lambda>b. \<not> block_used s b) [(k + 1) * BPB..<sz] | Some i \<Rightarrow> Some (k * BPB + i))"
    (is "_ = (case ?f of None \<Rightarrow> _ | Some i \<Rightarrow> _)")
proof -
  have "find (\<lambda>b. \<not> block_used s b) [k * BPB..<k * BPB + min BPB (sz - k * BPB)] = map_option ((+) (k * BPB)) ?f"
    unfolding find_shift
    by (rule arg_cong [of _ _ "map_option ((+) (k * BPB))"], rule find_cong) (auto simp: chunk_used sz_def)
  then show ?thesis unfolding chunk_upt [OF assms(2)] find_append by (simp split: option.splits)
qed

text \<open>Reading a bitmap block and letting it go again.\<close>

lemma balloc_skip:
  fixes s :: "'a kfs_scheme"
  assumes "may_balloc H s" "c \<notin> H" "in_txn (insert c H) s1" "tframe s s1" "bidx (bufs s1) c = Some i" "view s1 = view s"
    "disk s1 = disk s" "logged s1 = logged s" "log_space s1 = log_space s" "\<forall>x \<in> H. bidx (bufs s1) x = bidx (bufs s) x"
  shows "kspec (brelse i) s1 (\<lambda>_ s2. may_balloc H s2 \<and> block_used s2 = block_used s \<and> sb s2 = sb s \<and>
    (\<forall>f r s'. balloc_post H s2 f r s' \<longrightarrow> balloc_post H s f r s'))"
proof -
  have "in_txn H s" using assms(1) by (simp add: may_balloc_def)
  from tx.clean_law [OF this assms(2)] have "c \<in> logged s1 \<or> view s1 c = disk s1 c" using assms(6-8) by auto
  from tx.rel_law [OF assms(3) insertI1 assms(5) this] obtain s2 where 3: "brelse i s1 = Ok () s2"
    "in_txn (insert c H - {c}) s2" "tframe s1 s2" "bidx (bufs s2) = bidx (bufs s1)" "view s2 = view s1"
    "disk s2 = disk s1" "logged s2 = logged s1" "log_space s2 = log_space s1" by (auto simp: kspec_def)
  have H: "insert c H - {c} = H" using assms(2) by auto
  have fr: "tframe s s2" using assms(4) 3(3) by (rule tframe_trans)
  have v: "view s2 = view s" "disk s2 = disk s" "logged s2 = logged s" "log_space s2 = log_space s"
    "\<forall>x \<in> H. bidx (bufs s2) x = bidx (bufs s) x" using assms(6-10) 3 by simp_all
  from may_balloc_same [OF assms(1) 3(2) [unfolded H] fr v(1,3,4)] balloc_post_mono [OF _ v(1-4) fr v(5)] 3(1)
  show ?thesis by (simp add: kspec_def)
qed

lemma balloc_loop_spec:
  fixes s :: "'a kfs_scheme"
  assumes "may_balloc H s" "k \<le> m" "m = (unat (sb_size (sb s)) + (BPB - 1)) div BPB"
  shows "kspec (balloc_loop ROOTDEV (map (\<lambda>k. k * BPB) [k..<m])) s
    (balloc_post H s (find (\<lambda>b. \<not> block_used s b) [k * BPB..<unat (sb_size (sb s))]))"
  using assms
proof (induction "m - k" arbitrary: k s)
  case 0
  then have "unat (sb_size (sb s)) \<le> k * BPB" by simp
  with 0 balloc_none [of H s] show ?case by simp
next
  case (Suc n)
  define c where "c = BBLOCK (of_nat (k * BPB)) (sb s)"
  have k: "k < m" "k * BPB < unat (sb_size (sb s))" using Suc(2,5) by auto
  have h: "in_txn H s" "card (logged s \<union> H) < NBUF" "c \<notin> H"
    using Suc(3) k(2) by (simp_all add: may_balloc_def c_def del: of_nat_mult)
  define f where "f = find (\<lambda>i. \<not> bit_used (view s c) i) [0..<min BPB (unat (sb_size (sb s)) - k * BPB)]"
  note found = chunk_find [OF k(2), folded c_def, folded f_def]
  from tx.read_law [OF h(1,3)] h(2) obtain i s1 where 1: "bread ROOTDEV c s = Ok i s1" "in_txn (insert c H) s1"
    "tframe s s1" "bidx (bufs s1) c = Some i" "view s1 = view s" "disk s1 = disk s" "logged s1 = logged s"
    "log_space s1 = log_space s" "\<forall>x \<in> H. bidx (bufs s1) x = bidx (bufs s) x" by (auto simp: kspec_def)
  have 2: "buf_data i s1 = Ok (view s c) s1" using tx.data_law [OF 1(2) insertI1 1(4)] 1(5) by (auto simp: kspec_def)
  have ks: "map (\<lambda>k. k * BPB) [k..<m] = k * BPB # map (\<lambda>k. k * BPB) [k + 1..<m]" using k(1) by (simp add: upt_conv_Cons)
  show ?case
  proof (cases f)
    case (Some bi)
    have bi: "bi < min BPB (unat (sb_size (sb s)) - k * BPB)" "\<not> bit_used (view s c) bi"
      using Some by (auto simp: f_def find_Some_iff)
    note ch = chunk_used [OF bi(1), folded c_def]
    have "\<not> block_used s (k * BPB + bi)" using bi(2) by (simp add: ch(4))
    note t = balloc_take [OF Suc(3) ch(1) this, unfolded ch(2,3), OF 1(2-9)]
    have "balloc_loop ROOTDEV (k * BPB # map (\<lambda>k. k * BPB) [k + 1..<m]) s =
      (kbind (set_buf_data i (set_used bi (view s c))) (\<lambda>_. kbind (log_write i) (\<lambda>_. kbind (brelse i) (\<lambda>_.
        kbind (bzero ROOTDEV (of_nat (k * BPB + bi))) (\<lambda>_. kret (of_nat (k * BPB + bi))))))) s1"
      using 1(1) 2 Some by (simp add: kbind_apply c_def f_def)
    with t show ?thesis unfolding ks found Some by (simp add: kspec_def)
  next
    case None
    from balloc_skip [OF Suc(3) h(3) 1(2-9)] obtain s2 where 3: "brelse i s1 = Ok () s2" "may_balloc H s2"
      "block_used s2 = block_used s" "sb s2 = sb s" "\<forall>f r s'. balloc_post H s2 f r s' \<longrightarrow> balloc_post H s f r s'"
      by (auto simp: kspec_def)
    have "kspec (balloc_loop ROOTDEV (map (\<lambda>k. k * BPB) [k + 1..<m])) s2
        (balloc_post H s2 (find (\<lambda>b. \<not> block_used s2 b) [(k + 1) * BPB..<unat (sb_size (sb s2))]))"
      by (rule Suc(1)) (use Suc(2,5) k(1) 3 in simp_all)
    moreover have "balloc_loop ROOTDEV (k * BPB # map (\<lambda>k. k * BPB) [k + 1..<m]) s =
        balloc_loop ROOTDEV (map (\<lambda>k. k * BPB) [k + 1..<m]) s2"
      using 1(1) 2 None 3(1) by (simp add: kbind_apply c_def f_def)
    ultimately show ?thesis using 3(5) unfolding ks found None 3(3,4) by (auto simp: kspec_def)
  qed
qed

lemma balloc_spec:
  assumes "may_balloc H s"
  shows "kspec (balloc ROOTDEV) s (balloc_post H s (find (\<lambda>b. \<not> block_used s b) [0..<unat (sb_size (sb s))]))"
  using balloc_loop_spec [OF assms, of 0] by (simp add: balloc_def bitmap_starts_def kspec_def kbind_apply)

subsection \<open>Freeing a block\<close>

lemma bfree_read:
  fixes s :: "'a kfs_scheme"
  defines "c b \<equiv> BBLOCK (of_nat b) (sb s)"
  assumes "in_txn H s" "c b \<notin> H" "c b \<in> logged s \<or> card (logged s \<union> H) < NBUF" "b < 2 ^ 32"
  obtains i s1 where "bfree ROOTDEV (of_nat b) s = (if \<not> block_used s b then kpanic ''freeing free block''
      else kbind (set_buf_data i (clear_used (b mod BPB) (view s (c b)))) (\<lambda>_. kbind (log_write i) (\<lambda>_. brelse i))) s1"
    "in_txn (insert (c b) H) s1" "tframe s s1" "bidx (bufs s1) (c b) = Some i" "view s1 = view s" "disk s1 = disk s"
    "logged s1 = logged s" "log_space s1 = log_space s"
proof -
  have bi: "unat (of_nat b mod 8192 :: uint32) = b mod 8192" using assms(5) by (simp add: unat_mod unat_of_nat_less)
  from tx.read_law [OF assms(2-4)] obtain i s1 where 1: "bread ROOTDEV (c b) s = Ok i s1" "in_txn (insert (c b) H) s1"
    "tframe s s1" "bidx (bufs s1) (c b) = Some i" "view s1 = view s" "disk s1 = disk s" "logged s1 = logged s"
    "log_space s1 = log_space s" by (auto simp: kspec_def)
  have 2: "buf_data i s1 = Ok (view s (c b)) s1" using tx.data_law [OF 1(2) insertI1 1(4)] 1(5) by (auto simp: kspec_def)
  show thesis by (rule that [OF _ 1(2-8)])
    (use 1(1) 2 in \<open>simp add: bfree_def kbind_apply bi block_used_def c_def\<close>)
qed

lemma bfree_spec:
  fixes s :: "'a kfs_scheme"
  defines "c b \<equiv> BBLOCK (of_nat b) (sb s)"
  assumes "in_txn H s" "c b \<notin> H" "c b \<in> logged s \<or> card (logged s \<union> H) < NBUF" "b < 2 ^ 32"
    and "block_used s b" "0 < log_space s"
  shows "kspec (bfree ROOTDEV (of_nat b)) s (\<lambda>_ s'. in_txn H s' \<and> tframe s s' \<and> disk s' = disk s \<and>
    view s' = (view s)(c b := clear_used (b mod BPB) (view s (c b))) \<and> logged s' = insert (c b) (logged s))"
proof -
  from bfree_read [OF assms(2-5) [unfolded c_def], folded c_def] assms(6) obtain i s1 where
    1: "bfree ROOTDEV (of_nat b) s =
      kbind (set_buf_data i (clear_used (b mod BPB) (view s (c b)))) (\<lambda>_. kbind (log_write i) (\<lambda>_. brelse i)) s1"
    "in_txn (insert (c b) H) s1" "tframe s s1" "bidx (bufs s1) (c b) = Some i" "view s1 = view s" "disk s1 = disk s"
    "logged s1 = logged s" "log_space s1 = log_space s" by auto
  have l: "0 < log_space s1" "length (clear_used (b mod BPB) (view s (c b))) = BSIZE"
    using assms(7) 1(8) tx.size_law [OF assms(2)] by simp_all
  from tx.change_held [OF 1(2) insertI1 1(4) l] obtain s2 where
    2: "kbind (set_buf_data i (clear_used (b mod BPB) (view s (c b)))) (\<lambda>_. kbind (log_write i) (\<lambda>_. brelse i)) s1 = Ok () s2"
    "in_txn (insert (c b) H - {c b}) s2" "tframe s1 s2" "view s2 = (view s1)(c b := clear_used (b mod BPB) (view s (c b)))"
    "disk s2 = disk s1" "logged s2 = insert (c b) (logged s1)" by (auto simp: kspec_def)
  have "insert (c b) H - {c b} = H" using assms(3) by auto
  with 1 2 tframe_trans [OF 1(3) 2(3)] show ?thesis by (simp add: kspec_def)
qed

lemma bfree_free:
  fixes s :: "'a kfs_scheme"
  defines "c b \<equiv> BBLOCK (of_nat b) (sb s)"
  assumes "in_txn H s" "c b \<notin> H" "c b \<in> logged s \<or> card (logged s \<union> H) < NBUF" "b < 2 ^ 32" "\<not> block_used s b"
  shows "bfree ROOTDEV (of_nat b) s = Panic ''freeing free block''"
  by (rule bfree_read [OF assms(2-5) [unfolded c_def]]) (use assms(6) in simp)

subsection \<open>A file system in a transaction\<close>

definition fs_machine :: "superblock \<Rightarrow> (uint32 \<Rightarrow> block) \<Rightarrow> inode list \<Rightarrow> kfs" where
  "fs_machine B d I = klog.extend (boot_machine\<lparr>disk := d, log_outstanding := 1\<rparr>) (kfs.fields B I)"

lemma fs_machine_fields:
  "bufs (fs_machine B d I) = replicate (NBUF + 1) zero_buf" "disk (fs_machine B d I) = d" "curproc (fs_machine B d I) = Some 0"
  "procs (fs_machine B d I) = [zero_proc]" "sb (fs_machine B d I) = B" "inodes (fs_machine B d I) = I"
  "log_outstanding (fs_machine B d I) = 1" "lh_n (fs_machine B d I) = 0" "length (lh_block (fs_machine B d I)) = LOGSIZE"
  "log_size (fs_machine B d I) = 30"
  by (simp_all add: fs_machine_def boot_machine_def klog.defs kfs.defs)

lemma fs_machine_exists:
  assumes "\<And>b. length (d b) = BSIZE"
  shows "\<exists>s :: kfs. in_txn {} s \<and> logged s = {} \<and> view s = d \<and> disk s = d \<and> sb s = B \<and> inodes s = I \<and>
    log_space s = 29 \<and> procs s = [zero_proc] \<and> curproc s = Some 0"
proof -
  define m where "m = fs_machine B d I"
  have "zeroed_bufs (bufs m)" by (auto simp: zeroed_bufs_def m_def fs_machine_fields zero_buf_def)
  then obtain bs where b: "binv (m\<lparr>bufs := bs\<rparr>)"
      "\<forall>b. a_refs (babs (m\<lparr>bufs := bs\<rparr>)) b = 0 \<and> a_lock (babs (m\<lparr>bufs := bs\<rparr>)) b = None"
    using binit_boots [of m] assms by (auto simp: m_def fs_machine_fields)
  define s where "s = m\<lparr>bufs := bs\<rparr>"
  have f: "disk s = d" "sb s = B" "log_outstanding s = 1" "lh_n s = 0" "length (lh_block s) = LOGSIZE" "log_size s = 30"
      "inodes s = I" "procs s = [zero_proc]" "curproc s = Some 0"
    by (simp_all add: s_def m_def fs_machine_fields)
  have t: "txn s = []" "log_space s = 29" by (simp_all add: txn_def log_space_def f)
  have "in_txn {} s" using b by (simp add: in_txn_def s_def [symmetric] t f)
  moreover from txn_clean [OF this] have "view s = d" by (simp add: fun_eq_iff t f)
  ultimately show ?thesis using t f by (intro exI [of _ s]) simp
qed

text \<open>Ten blocks, the bitmap in block 5, blocks 0 to 6 in use.\<close>

definition ex_sb :: superblock where
  "ex_sb = \<lparr>sb_magic = FSMAGIC, sb_size = 10, sb_nblocks = 4, sb_ninodes = 16, sb_nlog = 1, sb_logstart = 2,
     sb_inodestart = 3, sb_bmapstart = 5\<rparr>"

definition ex_disk :: "uint32 \<Rightarrow> block" where
  "ex_disk = (\<lambda>_. replicate BSIZE 0)(5 := (replicate BSIZE 0)[0 := 0x7F])"

lemma ex_machine: "\<exists>s :: kfs. may_balloc {} s \<and> in_txn {} s \<and> logged s = {} \<and> log_space s = 29 \<and> sb s = ex_sb \<and>
    find (\<lambda>b. \<not> block_used s b) [0..<unat (sb_size (sb s))] = Some 7"
proof -
  have "length (ex_disk b) = BSIZE" for b by (simp add: ex_disk_def)
  then obtain s :: kfs where s: "in_txn {} s" "logged s = {}" "view s = ex_disk" "sb s = ex_sb" "log_space s = 29"
    using fs_machine_exists [of ex_disk ex_sb "[]"] by blast
  have u: "block_used s b \<longleftrightarrow> b < 7" if "b < 10" for b
  proof -
    have "BBLOCK (of_nat b) ex_sb = 5" using that by (subst BBLOCK_nat) (simp_all add: ex_sb_def)
    moreover have "b \<in> {0,1,2,3,4,5,6,7,8,9}" using that by auto
    ultimately show ?thesis by (auto simp: block_used_def s ex_disk_def bit_used_def bit_mask_def)
  qed
  have "find (\<lambda>b. \<not> block_used s b) [0..<10] = find (\<lambda>b. \<not> b < 7) [0..<10]" by (rule find_cong) (auto simp: u)
  also have "\<dots> = Some 7" by code_simp
  finally show ?thesis using s by (intro exI [of _ s]) (simp add: may_balloc_def ex_sb_def)
qed

subsection \<open>Properties\<close>

text \<open>
  C9: \<^verbatim>\<open>balloc\<close> takes the lowest-numbered block that the bitmap shows free: it returns that number, sets
  its bit in the bitmap block and clears the block, logs both, and changes no other block.  When
  every block is in use it prints a message, returns 0 and changes nothing.
\<close>

theorem balloc_lowest_free:
  assumes "may_balloc H s"
  shows "\<exists>r s'. balloc ROOTDEV s = Ok r s' \<and> in_txn H s' \<and> disk s' = disk s \<and>
    (case find (\<lambda>b. \<not> block_used s b) [0..<unat (sb_size (sb s))] of
       None \<Rightarrow> r = 0 \<and> view s' = view s \<and> logged s' = logged s
     | Some b \<Rightarrow> r = of_nat b \<and> logged s' = {BBLOCK r (sb s), r} \<union> logged s \<and>
         view s' = (view s)(BBLOCK r (sb s) := set_used (b mod BPB) (view s (BBLOCK r (sb s))), r := replicate BSIZE 0))"
  using balloc_spec [OF assms]
  by (auto simp: kspec_def balloc_post_def Let_def split: option.splits)

theorem balloc_lowest_free_witness:
  "\<exists>s :: kfs. may_balloc {} s \<and> (\<exists>s'. balloc ROOTDEV s = Ok 7 s' \<and> logged s' = {5, 7})"
proof -
  obtain s :: kfs where s: "may_balloc {} s" "find (\<lambda>b. \<not> block_used s b) [0..<unat (sb_size (sb s))] = Some 7"
    "logged s = {}" "sb s = ex_sb" using ex_machine by blast
  have "BBLOCK 7 ex_sb = 5" using BBLOCK_nat [of 7 ex_sb] by (simp add: ex_sb_def)
  with balloc_lowest_free [OF s(1)] s show ?thesis by fastforce
qed



end
