(* ===== verification/Fs_Inode.thy ===== *)
theory Fs_Inode
  imports Fs_Alloc
begin

text \<open>
  Inodes and file contents: an inode written by \<^verbatim>\<open>iupdate\<close> is the inode read back, and \<^verbatim>\<open>readi\<close>
  returns the bytes of the blocks the inode maps.
\<close>

subsection \<open>The on-disk inode\<close>

lemma get_bytes_append:
  assumes "length xs = n"
  shows "get_bytes 0 n (xs @ ys) = xs" "n \<le> k \<Longrightarrow> get_bytes k m (xs @ ys) = get_bytes (k - n) m ys"
  using assms by (simp_all add: get_bytes_def)

lemma get_bytes_within: "get_bytes (a + b) m d = get_bytes b m (get_bytes a n d)" if "b + m \<le> n"
  using that by (simp add: get_bytes_def drop_take min_def add.commute)

lemma length_concat_le [simp]: "length (concat (map (le_bytes 4) as)) = 4 * length as"
  by (induction as) simp_all

lemma get_addr_bytes:
  assumes "i < length as"
  shows "get_bytes (4 * i) 4 (concat (map (le_bytes 4) as)) = le_bytes 4 (as ! i)"
  using assms
proof (induction as arbitrary: i)
  case (Cons a as)
  then show ?case by (cases i) (simp_all add: get_bytes_append)
qed simp

definition dinode_ok :: "dinode \<Rightarrow> bool" where
  "dinode_ok x \<longleftrightarrow> length (d_addrs x) = NDIRECT + 1"

lemma length_dinode_bytes: "dinode_ok x \<Longrightarrow> length (dinode_bytes x) = 64"
  by (simp add: dinode_ok_def dinode_bytes_def)

lemma dinode_at_local: "dinode_at k d = dinode_at 0 (get_bytes (64 * k) 64 d)"
  by (simp add: dinode_at_def Let_def get_bytes_within [of _ _ 64, symmetric, where a = "64 * k"] add.assoc)

lemma dinode_bytes_at: "dinode_ok x \<Longrightarrow> dinode_at 0 (dinode_bytes x) = x"
proof -
  assume x: "dinode_ok x"
  define as where "as = concat (map (le_bytes 4) (d_addrs x))"
  have a: "get_bytes (4 * i) 4 as = le_bytes 4 (d_addrs x ! i)" if "i < NDIRECT + 1" for i
    using get_addr_bytes [of i "d_addrs x"] that x by (simp add: as_def dinode_ok_def)
  have "map (\<lambda>i. le_word (get_bytes (12 + 4 * i) 4 (dinode_bytes x))) [0..<NDIRECT + 1] = d_addrs x"
  proof (rule nth_equalityI)
    fix i assume "i < length (map (\<lambda>i. le_word (get_bytes (12 + 4 * i) 4 (dinode_bytes x))) [0..<NDIRECT + 1])"
    then have i: "i < NDIRECT + 1" by simp
    then show "map (\<lambda>i. le_word (get_bytes (12 + 4 * i) 4 (dinode_bytes x))) [0..<NDIRECT + 1] ! i = d_addrs x ! i"
      using a [OF i] by (simp add: dinode_bytes_def get_bytes_append as_def [symmetric] del: upt_Suc)
  qed (use x in \<open>simp add: dinode_ok_def\<close>)
  then show "dinode_at 0 (dinode_bytes x) = x"
    by (simp add: dinode_at_def Let_def dinode_bytes_def get_bytes_append del: upt_Suc) 
qed

lemma dinode_put:
  assumes "dinode_ok x" "length d = BSIZE" "k < 16"
  shows "dinode_at k (put_dinode k x d) = x" "length (put_dinode k x d) = BSIZE"
    "j < 16 \<Longrightarrow> j \<noteq> k \<Longrightarrow> dinode_at j (put_dinode k x d) = dinode_at j d"
proof -
  have l: "64 * k + length (dinode_bytes x) \<le> length d" using assms by (simp add: length_dinode_bytes)
  show "dinode_at k (put_dinode k x d) = x"
    unfolding dinode_at_local [of k] put_dinode_def
    using assms l by (simp add: byte_simps length_dinode_bytes dinode_bytes_at)
  show "length (put_dinode k x d) = BSIZE" using l assms(2) by (simp add: put_dinode_def byte_simps)
  show "dinode_at j (put_dinode k x d) = dinode_at j d" if "j < 16" "j \<noteq> k"
  proof -
    have "64 * j + 64 \<le> 64 * k \<or> 64 * k + 64 \<le> 64 * j" using that(2) by auto
    then show ?thesis unfolding dinode_at_local [of j] put_dinode_def
      using that assms l by (subst get_put_bytes_other) (auto simp: length_dinode_bytes)
  qed
qed

text \<open>The inode with number \<open>j\<close> as a transaction sees it.\<close>

definition dinode_view :: "'a kfs_scheme \<Rightarrow> uint32 \<Rightarrow> dinode" where
  "dinode_view s j = dinode_at (dip_index j) (view s (IBLOCK j (sb s)))"

lemma dip_index_less: "dip_index j < 16"
  by (simp add: dip_index_def unat_mod)

lemma inum_place:
  assumes "IBLOCK i B = IBLOCK j B" "dip_index i = dip_index j"
  shows "i = j"
proof -
  have "i div 16 = j div 16" using assms(1) by (simp add: IBLOCK_def)
  moreover have "i mod 16 = j mod 16" using assms(2) by (simp add: dip_index_def word_unat_eq_iff)
  ultimately show ?thesis by (metis word_mod_div_equality)
qed

lemma iupdate_spec:
  fixes s :: "'a kfs_scheme"
  defines "x ip \<equiv> inodes s ! ip"
  defines "b ip \<equiv> IBLOCK (i_inum (x ip)) (sb s)"
  assumes "in_txn H s" "i_dev (x ip) = ROOTDEV" "length (i_addrs (x ip)) = NDIRECT + 1"
    and "b ip \<notin> H" "b ip \<in> logged s \<or> card (logged s \<union> H) < NBUF" "0 < log_space s"
  shows "kspec (iupdate ip) s (\<lambda>_ s'. in_txn H s' \<and> tframe s s' \<and> disk s' = disk s \<and>
    view s' = (view s)(b ip := put_dinode (dip_index (i_inum (x ip))) (dinode_of (x ip)) (view s (b ip))) \<and>
    logged s' = insert (b ip) (logged s) \<and> log_space s' = (if b ip \<in> logged s then log_space s else log_space s - 1) \<and>
    (\<forall>j. dinode_view s' j = (if j = i_inum (x ip) then dinode_of (x ip) else dinode_view s j)))"
proof -
  have ok: "dinode_ok (dinode_of (x ip))" using assms(5) by (simp add: dinode_ok_def dinode_of_def)
  define f where "f = put_dinode (dip_index (i_inum (x ip))) (dinode_of (x ip))"
  have f: "length (f d) = BSIZE" if "length d = BSIZE" for d
    using dinode_put(2) [OF ok that dip_index_less] by (simp add: f_def)
  from tx.update_block [OF assms(3,6-8), of f, OF f] obtain s' where
    1: "kbind (bread ROOTDEV (b ip)) (\<lambda>i. kbind (buf_data i) (\<lambda>d. kbind (set_buf_data i (f d)) (\<lambda>_.
      kbind (log_write i) (\<lambda>_. brelse i)))) s = Ok () s'" "in_txn H s'" "tframe s s'" "view s' = (view s)(b ip := f (view s (b ip)))"
    "disk s' = disk s" "logged s' = insert (b ip) (logged s)"
    "log_space s' = (if b ip \<in> logged s then log_space s else log_space s - 1)" by (auto simp: kspec_def)
  have run: "iupdate ip s = Ok () s'" using 1(1) assms(4) by (simp add: iupdate_def kbind_apply x_def b_def f_def)
  have sb: "sb s' = sb s" using tframe_fs [OF 1(3)] by simp
  have l: "length (view s (b ip)) = BSIZE" by (rule tx.size_law [OF assms(3)])
  have "dinode_view s' j = (if j = i_inum (x ip) then dinode_of (x ip) else dinode_view s j)" for j
  proof (cases "IBLOCK j (sb s) = b ip")
    case True
    then have "dip_index j = dip_index (i_inum (x ip)) \<longleftrightarrow> j = i_inum (x ip)" using inum_place by (auto simp: b_def)
    with True dinode_put(1,3) [OF ok l dip_index_less] dip_index_less show ?thesis
      by (auto simp: dinode_view_def sb 1(4) f_def)
  qed (auto simp: dinode_view_def sb 1(4) b_def)
  then show ?thesis using run 1 f_def by (simp add: kspec_def)
qed

subsection \<open>Locking an inode\<close>

interpretation il: sleeplock_field "inode_lock ip" "inode_lock_upd ip" "\<lambda>s. ip < length (inodes s)" "ChInodeLock ip"
  by unfold_locales (simp_all add: inode_lock_def inode_lock_upd_def)

text \<open>An entry of the table that is in use, unlocked, and not read from disk yet.\<close>

definition fresh_entry :: "nat \<Rightarrow> 'a kfs_scheme \<Rightarrow> bool" where
  "fresh_entry ip s \<longleftrightarrow> ip < length (inodes s) \<and> 0 < i_ref (inodes s ! ip) \<and> \<not> i_valid (inodes s ! ip) \<and>
     \<not> sl_locked (i_lock (inodes s ! ip)) \<and> i_dev (inodes s ! ip) = ROOTDEV"

lemma in_txn_cur: "in_txn H s \<Longrightarrow> \<exists>i. curproc s = Some i"
  by (auto simp: in_txn_def binv_def)

lemma ilock_spec:
  fixes s :: "'a kfs_scheme"
  defines "b ip \<equiv> IBLOCK (i_inum (inodes s ! ip)) (sb s)"
  assumes "in_txn H s" "fresh_entry ip s" "b ip \<notin> H" "b ip \<in> logged s \<or> card (logged s \<union> H) < NBUF"
    and "d_type (dinode_view s (i_inum (inodes s ! ip))) \<noteq> 0"
  shows "kspec (ilock ip) s (\<lambda>_ s'. in_txn H s' \<and> disk s' = disk s \<and> view s' = view s \<and> logged s' = logged s \<and>
    log_space s' = log_space s \<and> sb s' = sb s \<and> i_valid (inodes s' ! ip) \<and> sl_locked (i_lock (inodes s' ! ip)) \<and>
    dinode_of (inodes s' ! ip) = dinode_view s (i_inum (inodes s ! ip)) \<and> i_inum (inodes s' ! ip) = i_inum (inodes s ! ip) \<and>
    (\<forall>j. j \<noteq> ip \<longrightarrow> inodes s' ! j = inodes s ! j))"
proof -
  obtain i where cp: "curproc s = Some i" using in_txn_cur [OF assms(2)] ..
  define x where "x = inodes s ! ip"
  have e: "ip < length (inodes s)" "0 < i_ref x" "\<not> i_valid x" "\<not> sl_locked (i_lock x)" "i_dev x = ROOTDEV"
    using assms(3) by (simp_all add: fresh_entry_def x_def)
  define y where "y = x\<lparr>i_lock := (i_lock x)\<lparr>sl_locked := True, sl_pid := p_pid (procs s ! i)\<rparr>\<rparr>"
  define s1 where "s1 = s\<lparr>inodes := (inodes s)[ip := y]\<rparr>"
  have 0: "acquiresleep (ChInodeLock ip) (inode_lock ip) (inode_lock_upd ip) s = Ok () s1"
    using il.acquire_free [OF cp, of ip] e(4) by (simp add: inode_lock_def inode_lock_upd_def s1_def y_def x_def)
  have t1: "in_txn H s1" "view s1 = view s" "logged s1 = logged s" "disk s1 = disk s" "sb s1 = sb s" "log_space s1 = log_space s"
    using assms(2) by (simp_all add: s1_def)
  from tx.read_law [OF t1(1) assms(4)] assms(5) obtain h s2 where 2: "bread ROOTDEV (b ip) s1 = Ok h s2"
    "in_txn (insert (b ip) H) s2" "tframe s1 s2" "bidx (bufs s2) (b ip) = Some h" "view s2 = view s1" "disk s2 = disk s1"
    "logged s2 = logged s1" "log_space s2 = log_space s1" by (auto simp: kspec_def t1)
  have 3: "buf_data h s2 = Ok (view s (b ip)) s2" using tx.data_law [OF 2(2) insertI1 2(4)] 2(5) t1(2) by (auto simp: kspec_def)
  define d where "d = dinode_at (dip_index (i_inum x)) (view s (b ip))"
  define s3 where "s3 = s2\<lparr>inodes := (inodes s2)[ip := load_dinode d y]\<rparr>"
  have i2: "inodes s2 = (inodes s)[ip := y]" "sb s2 = sb s" using tframe_fs [OF 2(3)] by (simp_all add: s1_def)
  have t3: "in_txn (insert (b ip) H) s3" "view s3 = view s" "logged s3 = logged s" "disk s3 = disk s" "log_space s3 = log_space s"
    "bidx (bufs s3) (b ip) = Some h" "sb s3 = sb s" "inodes s3 = (inodes s)[ip := load_dinode d y]"
    using 2 t1 i2 by (simp_all add: s3_def)
  have "b ip \<in> logged s3 \<or> view s3 (b ip) = disk s3 (b ip)" using tx.clean_law [OF assms(2,4)] t3 by auto
  from tx.rel_law [OF t3(1) insertI1 t3(6) this] obtain s4 where 4: "brelse h s3 = Ok () s4"
    "in_txn (insert (b ip) H - {b ip}) s4" "tframe s3 s4" "view s4 = view s3" "disk s4 = disk s3" "logged s4 = logged s3"
    "log_space s4 = log_space s3" by (auto simp: kspec_def)
  have H: "insert (b ip) H - {b ip} = H" using assms(4) by auto
  have i4: "inodes s4 = (inodes s)[ip := load_dinode d y]" "sb s4 = sb s" using tframe_fs [OF 4(3)] t3 by simp_all
  have dt: "d_type d \<noteq> 0" "d = dinode_view s (i_inum x)" using assms(6) by (simp_all add: d_def dinode_view_def b_def x_def)
  define s5 where "s5 = s4\<lparr>inodes := (inodes s)[ip := (load_dinode d y)\<lparr>i_valid := True\<rparr>]\<rparr>"
  have "ilock ip s = Ok () s5"
    using e 0 2(1) 3 4(1) i2 i4 dt t1 unfolding x_def
    by (simp add: ilock_def get_inode_def kbind_apply upd_inode_def Let_def y_def b_def x_def s1_def s3_def s5_def d_def)
  then show ?thesis using 4 H t3 i4 e(1) dt x_def
    by (simp add: kspec_def s5_def dinode_of_def load_dinode_def y_def)
qed

subsection \<open>Reading a file\<close>

text \<open>What a read leaves alone.\<close>

definition same_view :: "uint32 set \<Rightarrow> 'a kfs_scheme \<Rightarrow> 'a kfs_scheme \<Rightarrow> bool" where
  "same_view H s s' \<longleftrightarrow> in_txn H s' \<and> tframe s s' \<and> view s' = view s \<and> disk s' = disk s \<and> logged s' = logged s \<and>
     log_space s' = log_space s"

lemma same_view_refl: "in_txn H s \<Longrightarrow> same_view H s s"
  by (simp add: same_view_def)

lemma same_view_trans: "same_view H s s' \<Longrightarrow> same_view H s' s'' \<Longrightarrow> same_view H s s''"
  unfolding same_view_def by (metis tframe_trans)

lemma same_viewD: "same_view H s s' \<Longrightarrow> in_txn H s' \<and> view s' = view s \<and> logged s' = logged s \<and> inodes s' = inodes s \<and>
    sb s' = sb s"
  unfolding same_view_def using tframe_fs by blast

lemma peek:
  fixes s :: "'a kfs_scheme"
  assumes "in_txn H s" "b \<notin> H" "card (logged s \<union> H) < NBUF"
  obtains i s1 s2 where "bread ROOTDEV b s = Ok i s1" "buf_data i s1 = Ok (view s b) s1" "brelse i s1 = Ok () s2"
    "same_view H s s2" "inodes s1 = inodes s"
proof -
  from tx.read_law [OF assms(1,2)] assms(3) obtain i s1 where 1: "bread ROOTDEV b s = Ok i s1" "in_txn (insert b H) s1"
    "tframe s s1" "bidx (bufs s1) b = Some i" "view s1 = view s" "disk s1 = disk s" "logged s1 = logged s"
    "log_space s1 = log_space s" by (auto simp: kspec_def)
  have 2: "buf_data i s1 = Ok (view s b) s1" using tx.data_law [OF 1(2) insertI1 1(4)] 1(5) by (auto simp: kspec_def)
  have "b \<in> logged s1 \<or> view s1 b = disk s1 b" using tx.clean_law [OF assms(1,2)] 1 by auto
  from tx.rel_law [OF 1(2) insertI1 1(4) this] obtain s2 where 3: "brelse i s1 = Ok () s2" "in_txn (insert b H - {b}) s2"
    "tframe s1 s2" "view s2 = view s1" "disk s2 = disk s1" "logged s2 = logged s1" "log_space s2 = log_space s1"
    by (auto simp: kspec_def)
  have "insert b H - {b} = H" using assms(2) by auto
  then have "same_view H s s2" using 1 3 tframe_trans [OF 1(3) 3(3)] by (simp add: same_view_def)
  with that 1(1) 2 3(1) tframe_fs [OF 1(3)] show thesis by blast
qed

text \<open>The block that holds part \<open>bn\<close> of a file, 0 when there is none.\<close>

definition file_addr :: "'a kfs_scheme \<Rightarrow> inode \<Rightarrow> nat \<Rightarrow> uint32" where
  "file_addr s x bn =
     (if bn < NDIRECT then i_addrs x ! bn
      else if i_addrs x ! NDIRECT = 0 then 0
      else le_word (get_bytes (4 * (bn - NDIRECT)) 4 (view s (i_addrs x ! NDIRECT))))"

definition file_bytes :: "'a kfs_scheme \<Rightarrow> inode \<Rightarrow> nat \<Rightarrow> nat \<Rightarrow> uint8 list" where
  "file_bytes s x off n = map (\<lambda>p. view s (file_addr s x (p div BSIZE)) ! (p mod BSIZE)) [off..<off + n]"

text \<open>All blocks below \<open>sz\<close> bytes are there and none of them is held by the caller.\<close>

definition file_mapped :: "uint32 set \<Rightarrow> 'a kfs_scheme \<Rightarrow> inode \<Rightarrow> nat \<Rightarrow> bool" where
  "file_mapped H s x sz \<longleftrightarrow> sz \<le> MAXFILE * BSIZE \<and> i_dev x = ROOTDEV \<and> i_addrs x ! NDIRECT \<notin> H \<and>
     (\<forall>bn. bn * BSIZE < sz \<longrightarrow> file_addr s x bn \<noteq> 0 \<and> file_addr s x bn \<notin> H)"

lemma file_addr_same: "view s' = view s \<Longrightarrow> file_addr s' = file_addr s"
  by (simp add: file_addr_def fun_eq_iff)

lemma file_bytes_same:
  assumes "view s' = view s"
  shows "file_bytes s' = file_bytes s"
  by (intro ext) (simp add: file_bytes_def assms file_addr_same [OF assms])

lemma bmap_mapped:
  fixes s :: "'a kfs_scheme"
  defines "x ip \<equiv> inodes s ! ip"
  assumes "in_txn H s" "card (logged s \<union> H) < NBUF" "bn < MAXFILE" "file_addr s (x ip) bn \<noteq> 0"
    "i_dev (x ip) = ROOTDEV" "i_addrs (x ip) ! NDIRECT \<notin> H"
  shows "kspec (bmap ip bn) s (\<lambda>a s'. a = file_addr s (x ip) bn \<and> same_view H s s')"
proof (cases "bn < NDIRECT")
  case True
  then show ?thesis using assms(2,5)
    by (simp add: kspec_def bmap_def get_inode_def kbind_apply file_addr_def x_def same_view_refl)
next
  case False
  have nz: "i_addrs (x ip) ! NDIRECT \<noteq> 0" using assms(5) False by (auto simp: file_addr_def)
  obtain i s1 s2 where "bread ROOTDEV (i_addrs (x ip) ! NDIRECT) s = Ok i s1"
    "buf_data i s1 = Ok (view s (i_addrs (x ip) ! NDIRECT)) s1" "brelse i s1 = Ok () s2" "same_view H s s2"
    by (rule peek [OF assms(2,7,3)])
  then show ?thesis using False nz assms(4-6)
    by (simp add: kspec_def bmap_def get_inode_def kbind_apply file_addr_def x_def Let_def)
qed

lemma same_block:
  assumes "off mod b + i < (b::nat)"
  shows "(off + i) div b = off div b" "(off + i) mod b = off mod b + i"
proof -
  have e: "off + i = (off mod b + i) + off div b * b" by simp
  have b: "b \<noteq> 0" using assms by simp
  show "(off + i) div b = off div b"
    by (subst e) (use div_mult_self1 [OF b, of "off mod b + i" "off div b"] div_less [OF assms] in linarith)
  show "(off + i) mod b = off mod b + i"
    by (subst e) (use mod_mult_self1 [of "off mod b + i" "off div b" b] mod_less [OF assms] in linarith)
qed
lemma file_bytes_chunk:
  assumes "m = min n (BSIZE - off mod BSIZE)" "length (view s (file_addr s x (off div BSIZE))) = BSIZE"
  shows "file_bytes s x off m = get_bytes (off mod BSIZE) m (view s (file_addr s x (off div BSIZE)))"
    "file_bytes s x off n = file_bytes s x off m @ file_bytes s x (off + m) (n - m)"
proof -
  have "m \<le> BSIZE - off mod BSIZE" using assms(1) by simp
  then have m: "off mod BSIZE + m \<le> BSIZE" by (subst add.commute, subst le_diff_conv2 [symmetric]) simp_all
  have "off mod BSIZE + i < BSIZE" if "i < m" for i by (rule less_le_trans [OF _ m]) (use that in simp)
  note c = same_block [OF this]
  show "file_bytes s x off m = get_bytes (off mod BSIZE) m (view s (file_addr s x (off div BSIZE)))"
  proof (rule nth_equalityI)
    show "length (file_bytes s x off m) = length (get_bytes (off mod BSIZE) m (view s (file_addr s x (off div BSIZE))))"
      using assms(2) m by (simp add: file_bytes_def length_get_bytes)
    fix i assume "i < length (file_bytes s x off m)"
    then have "i < m" by (simp add: file_bytes_def)
    with m show "file_bytes s x off m ! i = get_bytes (off mod BSIZE) m (view s (file_addr s x (off div BSIZE))) ! i"
      using assms(2) by (simp add: file_bytes_def nth_get_bytes c del: upt_Suc)
  qed
  have "m \<le> n" using assms(1) by simp
  then have "[off..<off + n] = [off..<off + m] @ [off + m..<off + m + (n - m)]"
    using upt_add_eq_append [of off "off + m" "n - m"] by simp
  then show "file_bytes s x off n = file_bytes s x off m @ file_bytes s x (off + m) (n - m)"
    by (simp add: file_bytes_def)
qed

lemma readi_loop_spec:
  fixes s :: "'a kfs_scheme"
  assumes "in_txn H s" "card (logged s \<union> H) < NBUF" "file_mapped H s (inodes s ! ip) sz" "off + n \<le> sz" "n \<le> k"
  shows "kspec (readi_loop k ip ObjDst off n) s (\<lambda>(t, bs) s'. t = int n \<and> bs = file_bytes s (inodes s ! ip) off n \<and>
    same_view H s s')"
  using assms
proof (induction k arbitrary: off n s)
  case 0
  then show ?case by (simp add: kspec_def file_bytes_def same_view_refl)
next
  case (Suc k)
  show ?case
  proof (cases "n = 0")
    case True
    then show ?thesis using Suc.prems(1) by (simp add: kspec_def file_bytes_def same_view_refl)
  next
    case False
    define x where "x = inodes s ! ip"
    define m where "m = min n (BSIZE - off mod BSIZE)"
    define a where "a = file_addr s x (off div BSIZE)"
    have "off div BSIZE * BSIZE \<le> off" by simp
    then have lt: "off div BSIZE * BSIZE < sz" using Suc.prems(4) False by linarith
    then have a: "a \<noteq> 0" "a \<notin> H" "i_dev x = ROOTDEV" "i_addrs x ! NDIRECT \<notin> H" "off div BSIZE < MAXFILE"
      using Suc.prems(3) by (auto simp: file_mapped_def x_def a_def)
    from bmap_mapped [OF Suc.prems(1,2) a(5), of ip] a obtain s1 where 1: "bmap ip (off div BSIZE) s = Ok a s1" "same_view H s s1"
      by (auto simp: kspec_def x_def a_def)
    note v1 = same_viewD [OF 1(2)]
    obtain i s2 s3 where 2: "bread ROOTDEV a s1 = Ok i s2" "buf_data i s2 = Ok (view s1 a) s2" "brelse i s2 = Ok () s3"
      "same_view H s1 s3" "inodes s2 = inodes s1"
      by (rule peek [of H s1 a]) (use v1 a(2) Suc.prems(2) in simp_all)
    note v3 = same_viewD [OF same_view_trans [OF 1(2) 2(4)]]
    have m0: "0 < m" using False by (simp add: m_def)
    have "kspec (readi_loop k ip ObjDst (off + m) (n - m)) s3 (\<lambda>(t, bs) s'. t = int (n - m) \<and>
        bs = file_bytes s3 (inodes s3 ! ip) (off + m) (n - m) \<and> same_view H s3 s')"
      by (rule Suc.IH) (use v3 Suc.prems m0 in \<open>auto simp: file_mapped_def file_addr_same [of s3 s] m_def\<close>)
    then obtain s' where 3: "readi_loop k ip ObjDst (off + m) (n - m) s3 =
        Ok (int (n - m), file_bytes s x (off + m) (n - m)) s'" "same_view H s3 s'"
      using v3 by (auto simp: kspec_def x_def file_bytes_same [of s3 s])
    have len: "length (view s a) = BSIZE" by (rule tx.size_law [OF Suc.prems(1)])
    note fb = file_bytes_chunk [OF m_def len [unfolded a_def], folded a_def]
    have "int m + int (n - m) = int n" "int (n - m) \<noteq> -1" by (simp_all add: m_def)
    then have "readi_loop (Suc k) ip ObjDst off n s = Ok (int n, file_bytes s x off n) s'"
      using False a 1(1) 2 3(1) v1 fb
      by (simp add: kbind_apply get_inode_def x_def Let_def either_copyout_def dest_add_def m_def [symmetric])
    then show ?thesis using same_view_trans [OF same_view_trans [OF 1(2) 2(4)] 3(2)] by (simp add: kspec_def x_def)
  qed
qed

lemma readi_obj:
  fixes s :: "'a kfs_scheme"
  assumes "in_txn H s" "card (logged s \<union> H) < NBUF" "file_mapped H s (inodes s ! ip) (unat (i_size (inodes s ! ip)))"
    and "m = (if i_size (inodes s ! ip) < off \<or> 2 ^ 32 \<le> unat off + unat n then 0
      else min (unat n) (unat (i_size (inodes s ! ip)) - unat off))"
  shows "\<exists>s'. readi ip ObjDst off n s = Ok (int m, file_bytes s (inodes s ! ip) (unat off) m) s' \<and> same_view H s s'"
proof -
  define x where "x = inodes s ! ip"
  have ov: "off + n < off \<longleftrightarrow> 2 ^ 32 \<le> unat off + unat n" using no_olen_add_nat [of off n] by (simp add: not_le [symmetric])
  show ?thesis
  proof (cases "i_size x < off \<or> 2 ^ 32 \<le> unat off + unat n")
    case True
    then show ?thesis using assms(1,4) ov
      by (auto simp: readi_def get_inode_def kbind_apply x_def file_bytes_def same_view_refl)
  next
    case False
    define n' where "n' = (if off + n > i_size x then i_size x - off else n)"
    have s: "unat (off + n) = unat off + unat n" using False unat_add_lem [of off n] by simp
    have le: "off \<le> i_size x" using False by (simp add: not_less)
    have m: "m = unat n'" "unat off + m \<le> unat (i_size x)"
      using False assms(4) le s by (auto simp: n'_def x_def [symmetric] word_less_nat_alt word_le_nat_alt unat_sub_if' min_def split: if_splits)
    have "kspec (readi_loop m ip ObjDst (unat off) m) s (\<lambda>(t, bs) s'. t = int m \<and>
        bs = file_bytes s (inodes s ! ip) (unat off) m \<and> same_view H s s')"
      by (rule readi_loop_spec [OF assms(1-3)]) (use m(2) in \<open>simp_all add: x_def\<close>)
    moreover have "readi ip ObjDst off n s = readi_loop m ip ObjDst (unat off) m s"
      using False ov by (simp add: readi_def get_inode_def kbind_apply x_def [symmetric] Let_def m(1) n'_def)
    ultimately show ?thesis by (auto simp: kspec_def)
  qed
qed

subsection \<open>Properties\<close>

text \<open>
  C11: An inode survives the round trip through its disk block.  After \<^verbatim>\<open>iupdate\<close> has written the
  in-memory inode, \<^verbatim>\<open>ilock\<close> on a table entry for the same inode number that has no valid contents
  loads exactly the type, device numbers, link count, size and block addresses that were written,
  and the inodes with other numbers are what they were.
\<close>

theorem iupdate_ilock:
  fixes s :: "'a kfs_scheme" and ip :: nat and y :: inode
  defines "x \<equiv> inodes s ! ip"
  defines "b \<equiv> IBLOCK (i_inum x) (sb s)"
  assumes "in_txn H s" "ip < length (inodes s)" "i_dev x = ROOTDEV" "length (i_addrs x) = NDIRECT + 1" "i_type x \<noteq> 0"
    and "b \<notin> H" "card (logged s \<union> H) < NBUF" "0 < log_space s"
    and "i_dev y = ROOTDEV" "i_inum y = i_inum x" "0 < i_ref y" "\<not> i_valid y" "\<not> sl_locked (i_lock y)"
  shows "\<exists>s1 s2. iupdate ip s = Ok () s1 \<and> ilock ip (s1\<lparr>inodes := (inodes s1)[ip := y]\<rparr>) = Ok () s2 \<and>
    dinode_of (inodes s2 ! ip) = dinode_of x \<and> i_valid (inodes s2 ! ip) \<and>
    (\<forall>j. j \<noteq> i_inum x \<longrightarrow> dinode_view s2 j = dinode_view s j)"
proof -
  from iupdate_spec [of H s ip] assms obtain s1 where 1: "iupdate ip s = Ok () s1" "in_txn H s1" "tframe s s1"
    "logged s1 = insert b (logged s)" "\<And>j. dinode_view s1 j = (if j = i_inum x then dinode_of x else dinode_view s j)"
    by (auto simp: kspec_def x_def b_def)
  have f: "inodes s1 = inodes s" "sb s1 = sb s" using tframe_fs [OF 1(3)] by simp_all
  define t where "t = s1\<lparr>inodes := (inodes s1)[ip := y]\<rparr>"
  have t: "inodes t ! ip = y" "sb t = sb s" "logged t = insert b (logged s)" "in_txn H t" "dinode_view t = dinode_view s1"
    using assms(4) 1(2,4) by (simp_all add: t_def f dinode_view_def fun_eq_iff)
  have "fresh_entry ip t" using assms(4,11,13-15) by (simp add: fresh_entry_def t(1)) (simp add: t_def f)
  from ilock_spec [OF t(4) this] obtain s2 where 2: "ilock ip t = Ok () s2" "view s2 = view t" "sb s2 = sb t"
    "i_valid (inodes s2 ! ip)" "dinode_of (inodes s2 ! ip) = dinode_view t (i_inum x)"
    using assms(7,8,12) by (auto simp: kspec_def t b_def 1(5) dinode_of_def)
  have "dinode_view s2 = dinode_view t" using 2(2,3) by (simp add: dinode_view_def fun_eq_iff)
  with 1(1,5) 2 t(5) show ?thesis by (auto simp: t_def [symmetric])
qed

text \<open>Inode 5 is in table entry 0; its first block is block 7, which starts with 104, 105, 33.\<close>

definition ex_inode :: inode where
  "ex_inode = \<lparr>i_dev = ROOTDEV, i_inum = 5, i_ref = 1, i_lock = initsleeplock ''inode'', i_valid = True, i_type = T_FILE,
     i_major = 0, i_minor = 0, i_nlink = 1, i_size = 3, i_addrs = 7 # replicate NDIRECT 0\<rparr>"

lemma ex_inode_machine: "\<exists>s :: kfs. in_txn {} s \<and> logged s = {} \<and> log_space s = 29 \<and> sb s = ex_sb \<and> inodes s = [ex_inode] \<and>
    view s = (\<lambda>_. replicate BSIZE 0)(7 := [104, 105, 33] @ replicate 1021 0)"
proof -
  define d :: "uint32 \<Rightarrow> block" where "d = (\<lambda>_. replicate BSIZE 0)(7 := [104, 105, 33] @ replicate 1021 0)"
  have "length (d b) = BSIZE" for b by (simp add: d_def)
  then obtain s :: kfs where "in_txn {} s" "logged s = {}" "log_space s = 29" "sb s = ex_sb" "inodes s = [ex_inode]" "view s = d"
    using fs_machine_exists [of d ex_sb "[ex_inode]"] by blast
  then show ?thesis unfolding d_def by blast
qed

theorem iupdate_ilock_witness:
  "\<exists>(s :: kfs) s1 s2. iupdate 0 s = Ok () s1 \<and> ilock 0 (s1\<lparr>inodes := [ex_inode\<lparr>i_valid := False, i_size := 9\<rparr>]\<rparr>) = Ok () s2 \<and>
    i_size (inodes s2 ! 0) = 3"
proof -
  obtain s :: kfs where s: "in_txn {} s" "logged s = {}" "log_space s = 29" "inodes s = [ex_inode]"
    using ex_inode_machine by blast
  from iupdate_ilock [of "{}" s 0 "ex_inode\<lparr>i_valid := False, i_size := 9\<rparr>"] s(1-3) obtain s1 s2 where
    1: "iupdate 0 s = Ok () s1" "ilock 0 (s1\<lparr>inodes := (inodes s1)[0 := ex_inode\<lparr>i_valid := False, i_size := 9\<rparr>]\<rparr>) = Ok () s2"
    "dinode_of (inodes s2 ! 0) = dinode_of ex_inode"
    by (auto simp: s(4) ex_inode_def initsleeplock_def)
  have "i_size (inodes s2 ! 0) = 3" using arg_cong [OF 1(3), of d_size] by (simp add: dinode_of_def ex_inode_def)
  moreover from iupdate_spec [of "{}" s 0] s 1(1) have "inodes s1 = [ex_inode]"
    using tframe_fs [of s s1] by (auto simp: kspec_def ex_inode_def)
  ultimately show ?thesis using 1(1,2) by auto
qed



end
