(* ===== verification/Dir_Props.thy ===== *)
theory Dir_Props
  imports Dir Fs_Inode
begin

text \<open>
  Path names and directories: \<^verbatim>\<open>skipelem\<close> takes a path apart element by element, the walk of
  \<^verbatim>\<open>namex\<close> ends, and \<^verbatim>\<open>dirlookup\<close> finds the first entry with a name.
\<close>

subsection \<open>Path elements\<close>

text \<open>The elements of a path: the maximal parts without a slash.\<close>

function elems :: "uint8 list \<Rightarrow> uint8 list list" where
  "elems path = (case dropWhile (\<lambda>c. c = SLASH) path of
     [] \<Rightarrow> []
   | c # cs \<Rightarrow> (c # takeWhile (\<lambda>c. c \<noteq> SLASH) cs) # elems (dropWhile (\<lambda>c. c \<noteq> SLASH) cs))"
  by pat_completeness auto

termination elems
proof (relation "measure length", goal_cases)
  case (2 path c cs)
  have "length (dropWhile (\<lambda>c. c \<noteq> SLASH) cs) \<le> length cs" by (rule length_dropWhile_le)
  also have "\<dots> < length (dropWhile (\<lambda>c. c = SLASH) path)" using 2 by simp
  also have "\<dots> \<le> length path" by (rule length_dropWhile_le)
  finally show ?case by simp
qed simp

declare elems.simps [simp del]

lemma elems_drop: "elems (dropWhile (\<lambda>c. c = SLASH) path) = elems path"
  by (subst (1 2) elems.simps) simp

text \<open>The name of an element in a buffer of \<^verbatim>\<open>DIRSIZ\<close> bytes.\<close>

definition buf_name :: "uint8 list \<Rightarrow> uint8 list" where
  "buf_name nm = cstr (take DIRSIZ nm)"

lemma skipelem_None: "skipelem path nm = None \<longleftrightarrow> elems path = []"
  by (subst elems.simps) (simp add: skipelem_def Let_def del: dropWhile_eq_Nil_conv split: list.splits)

lemma skipelem_Some:
  assumes "skipelem path nm = Some (rest, nm')" "0 \<notin> set path" "length nm = DIRSIZ"
  shows "elems path = hd (elems path) # elems rest" "buf_name nm' = take DIRSIZ (hd (elems path))" "length nm' = DIRSIZ"
    "0 \<notin> set rest" "length rest < length path"
proof -
  obtain c cs where p: "dropWhile (\<lambda>c. c = SLASH) path = c # cs"
    using assms(1) by (cases "dropWhile (\<lambda>c. c = SLASH) path") (auto simp: skipelem_def)
  have c: "c \<noteq> SLASH" using hd_dropWhile [of "\<lambda>c. c = SLASH" path] p by simp
  define e where "e = c # takeWhile (\<lambda>c. c \<noteq> SLASH) cs"
  define d where "d = dropWhile (\<lambda>c. c \<noteq> SLASH) cs"
  have r: "rest = dropWhile (\<lambda>c. c = SLASH) d"
    and n: "nm' = (if DIRSIZ \<le> length e then take DIRSIZ e else put_bytes 0 (e @ [0]) nm)"
    using assms(1) p c by (auto simp: skipelem_def Let_def e_def d_def)
  have el: "elems path = e # elems d" by (subst elems.simps) (simp add: p e_def d_def)
  show "elems path = hd (elems path) # elems rest" unfolding el r elems_drop by simp
  have "set (c # cs) \<subseteq> set path" unfolding p [symmetric] by (auto dest: set_dropWhileD)
  moreover have "set e \<subseteq> set (c # cs)" "set rest \<subseteq> set (c # cs)"
    by (auto simp: e_def d_def r dest!: set_takeWhileD set_dropWhileD)
  ultimately have z: "0 \<notin> set e" "0 \<notin> set rest" using assms(2) by auto
  then show "0 \<notin> set rest" by simp
  have all: "\<forall>b \<in> set e. b \<noteq> 0" using z(1) by auto
  show "buf_name nm' = take DIRSIZ (hd (elems path))"
  proof (cases "DIRSIZ \<le> length e")
    case True
    have "\<forall>b \<in> set (take DIRSIZ e). b \<noteq> 0" using all by (auto dest: in_set_takeD)
    then show ?thesis using True n el by (simp add: buf_name_def cstr_def)
  next
    case False
    then have "take DIRSIZ nm' = e @ 0 # drop (Suc (length e)) nm" using n assms(3) by (simp add: put_bytes_def)
    then show ?thesis using False all el by (simp add: buf_name_def cstr_def)
  qed
  show "length nm' = DIRSIZ" using n assms(3) by (auto simp: byte_simps)
  have "length rest \<le> length d" "length d \<le> length cs" by (simp_all add: r d_def length_dropWhile_le)
  moreover have "length (c # cs) \<le> length path" using length_dropWhile_le [of "\<lambda>c. c = SLASH" path] p by simp
  ultimately show "length rest < length path" by simp
qed

text \<open>Taking a path apart with \<^verbatim>\<open>skipelem\<close>.\<close>

fun skipelems :: "nat \<Rightarrow> uint8 list \<Rightarrow> uint8 list \<Rightarrow> uint8 list list" where
  "skipelems 0 path nm = []"
| "skipelems (Suc k) path nm = (case skipelem path nm of
     None \<Rightarrow> [] | Some (rest, nm') \<Rightarrow> buf_name nm' # skipelems k rest nm')"

lemma skipelems_elems:
  assumes "0 \<notin> set path" "length nm = DIRSIZ" "length path \<le> k"
  shows "skipelems k path nm = map (take DIRSIZ) (elems path)"
  using assms
proof (induction k arbitrary: path nm)
  case 0
  then show ?case by (subst elems.simps) simp
next
  case (Suc k)
  show ?case
  proof (cases "skipelem path nm")
    case None
    with skipelem_None [of path nm] show ?thesis by auto
  next
    case (Some r)
    obtain rest nm' where r: "r = (rest, nm')" by (cases r)
    note sk = skipelem_Some [OF Some [unfolded r] Suc.prems(1,2)]
    from sk(5) Suc.prems(3) have "length rest \<le> k" by simp
    from Suc.IH [OF sk(4) sk(3) this] show ?thesis by (subst sk(1)) (simp add: Some r sk(2))
  qed
qed

subsection \<open>The walk ends\<close>

lemma skipelem_shorter: "skipelem path nm = Some (rest, nm') \<Longrightarrow> length rest < length path"
proof -
  assume a: "skipelem path nm = Some (rest, nm')"
  define p where "p = dropWhile (\<lambda>c. c = SLASH) path"
  have p: "p \<noteq> []" "rest = dropWhile (\<lambda>c. c = SLASH) (dropWhile (\<lambda>c. c \<noteq> SLASH) p)"
    using a by (auto simp: skipelem_def Let_def p_def split: if_splits)
  then obtain c cs where c: "p = c # cs" by (cases p) auto
  have "c \<noteq> SLASH" using hd_dropWhile [of "\<lambda>c. c = SLASH" path] c by (simp add: p_def [symmetric])
  then have "length rest \<le> length cs"
    using p(2) c by (simp, metis le_trans length_dropWhile_le)
  moreover have "length p \<le> length path" by (simp add: p_def length_dropWhile_le)
  ultimately show ?thesis using c by simp
qed

lemma namex_loop_fuel:
  assumes "length path < k" "length path < k'"
  shows "(namex_loop k ip path parent nm :: ('a kfs_scheme, (nat \<times> uint8 list) option) kfun) = namex_loop k' ip path parent nm"
  using assms
proof (induction k arbitrary: k' ip path nm)
  case (Suc k)
  from Suc.prems obtain j where j: "k' = Suc j" by (cases k') auto
  show ?case
  proof (cases "skipelem path nm")
    case None
    then show ?thesis by (simp add: j)
  next
    case (Some r)
    obtain rest nm' where r: "r = (rest, nm')" by (cases r)
    have "(namex_loop k ip' rest parent nm' :: ('a kfs_scheme, (nat \<times> uint8 list) option) kfun) =
        namex_loop j ip' rest parent nm'" for ip'
      using Suc.IH [of rest j ip' nm'] skipelem_shorter [OF Some [unfolded r]] Suc.prems j by simp
    then show ?thesis unfolding j namex_loop.simps Some r option.case prod.case by presburger
  qed
qed simp

subsection \<open>Directory entries\<close>

lemma load_two_strings:
  assumes "length s = DIRSIZ" "length t = DIRSIZ"
  shows "load_bytes (two_strings s t) 0 DIRSIZ = s" "load_bytes (two_strings s t) 4096 DIRSIZ = t"
  using assms by (auto simp: two_strings_def load_bytes_def store_bytes_def intro!: nth_equalityI)

lemma namecmp_zero:
  assumes "length s = DIRSIZ" "length t = DIRSIZ"
  shows "namecmp s t = 0 \<longleftrightarrow> buf_name s = buf_name t"
  using assms by (simp add: namecmp_def strncmp_zero load_two_strings buf_name_def)

definition entry :: "'a kfs_scheme \<Rightarrow> inode \<Rightarrow> nat \<Rightarrow> dirent" where
  "entry s x j = dirent_of (file_bytes s x (16 * j) 16)"

definition is_entry :: "uint8 list \<Rightarrow> dirent \<Rightarrow> bool" where
  "is_entry nm e \<longleftrightarrow> de_inum e \<noteq> 0 \<and> buf_name (de_name e) = buf_name nm"

definition dir_ok :: "uint32 set \<Rightarrow> 'a kfs_scheme \<Rightarrow> inode \<Rightarrow> bool" where
  "dir_ok H s x \<longleftrightarrow> in_txn H s \<and> card (logged s \<union> H) < NBUF \<and> i_type x = T_DIR \<and> 16 dvd unat (i_size x) \<and>
     file_mapped H s x (unat (i_size x))"

lemma length_entry_name: "length (de_name (entry s x j)) = DIRSIZ"
  by (simp add: entry_def dirent_of_def file_bytes_def length_get_bytes)

lemma entry_same:
  assumes "view s' = view s"
  shows "entry s' = entry s"
  by (intro ext) (simp add: entry_def file_bytes_same [OF assms])

lemma dir_ok_same:
  assumes "dir_ok H s x" "same_view H s s1"
  shows "dir_ok H s1 x" "entry s1 = entry s" "inodes s1 = inodes s"
proof -
  have v: "in_txn H s1" "view s1 = view s" "logged s1 = logged s" "inodes s1 = inodes s" using same_viewD [OF assms(2)] by auto
  then show "dir_ok H s1 x" using assms(1) by (simp add: dir_ok_def file_mapped_def file_addr_same [OF v(2)])
  show "entry s1 = entry s" using v(2) by (rule entry_same)
  show "inodes s1 = inodes s" by fact
qed

text \<open>One entry of a directory is read.\<close>

lemma read_entry:
  fixes s :: "'a kfs_scheme"
  defines "x dp \<equiv> inodes s ! dp"
  assumes "dir_ok H s (x dp)" "16 * j < unat (i_size (x dp))"
  obtains s1 where "readi dp ObjDst (of_nat (16 * j)) 16 s = Ok (16, file_bytes s (x dp) (16 * j) 16) s1" "same_view H s s1"
proof -
  have d: "in_txn H s" "card (logged s \<union> H) < NBUF" "file_mapped H s (x dp) (unat (i_size (x dp)))" "16 dvd unat (i_size (x dp))"
    using assms(2) by (simp_all add: dir_ok_def)
  have b: "unat (i_size (x dp)) < 2 ^ 32" using unsigned_less [of "i_size (x dp)", where 'a = nat] by simp
  then have o: "unat (of_nat (16 * j) :: uint32) = 16 * j" using assms(3) by (intro unat_of_nat_less) simp
  have le: "16 * j + 16 \<le> unat (i_size (x dp))" using assms(3) d(4) by (auto elim!: dvdE)
  have "16 = (if i_size (x dp) < of_nat (16 * j) \<or> 2 ^ 32 \<le> unat (of_nat (16 * j) :: uint32) + unat (16 :: uint32) then 0
      else min (unat (16 :: uint32)) (unat (i_size (x dp)) - unat (of_nat (16 * j) :: uint32)))"
    unfolding o word_less_nat_alt using le b assms(3) by (simp add: o del: of_nat_mult)
  from readi_obj [OF d(1,2) d(3) [unfolded x_def] this [unfolded x_def], folded x_def] show thesis
    unfolding o using that by auto
qed

lemma dirlookup_loop_spec:
  fixes s :: "'a kfs_scheme" and H :: "uint32 set"
  defines "res s1 x nm n j \<equiv> (case find (\<lambda>j. is_entry nm (entry s1 x j)) [j..<n] of None \<Rightarrow> Ok None s1
     | Some j \<Rightarrow> kbind (iget ROOTDEV (ucast (de_inum (entry s1 x j)))) (\<lambda>ip. kret (Some (ip, of_nat (16 * j)))) s1)"
  assumes "dir_ok H s (inodes s ! dp)" "length nm = DIRSIZ" "n = unat (i_size (inodes s ! dp)) div 16" "n - j \<le> k" "j \<le> n"
  shows "\<exists>s1 :: 'a kfs_scheme. same_view H s s1 \<and> dirlookup_loop k dp nm (of_nat (16 * j)) s = res s1 (inodes s ! dp) nm n j"
  using assms(2-)
proof (induction k arbitrary: s j)
  case 0
  have "in_txn H s" using 0(1) by (simp add: dir_ok_def)
  from same_view_refl [OF this] 0 show ?case by (auto simp: res_def)
next
  case (Suc k)
  define x where "x = inodes s ! dp"
  have "in_txn H s" "16 dvd unat (i_size x)" "i_dev x = ROOTDEV" using Suc.prems(1) by (simp_all add: dir_ok_def x_def file_mapped_def)
  have sz: "unat (i_size x) = 16 * n" using \<open>16 dvd unat (i_size x)\<close> Suc.prems(3) by (auto simp: x_def)
  have "unat (i_size x) < 2 ^ 32" using unsigned_less [of "i_size x", where 'a = nat] by simp
  then have "unat (of_nat (16 * j) :: uint32) = 16 * j" using sz Suc.prems(5) by (intro unat_of_nat_less) simp
  then have lt: "(of_nat (16 * j) :: uint32) < i_size x \<longleftrightarrow> j < n" by (simp add: word_less_nat_alt sz del: of_nat_mult)
  show ?case
  proof (cases "j < n")
    case False
    with Suc.prems(5) lt same_view_refl [OF \<open>in_txn H s\<close>] show ?thesis
      by (auto simp: res_def kbind_apply get_inode_def x_def simp del: of_nat_mult)
  next
    case True
    obtain s1 where 1: "readi dp ObjDst (of_nat (16 * j)) 16 s = Ok (16, file_bytes s x (16 * j) 16) s1" "same_view H s s1"
      by (rule read_entry [of H s dp j]) (use Suc.prems(1) True sz in \<open>simp_all add: x_def\<close>)
    note same = dir_ok_same [OF Suc.prems(1) 1(2)]
    define e where "e = entry s x j"
    have nc: "namecmp nm (de_name e) = 0 \<longleftrightarrow> buf_name (de_name e) = buf_name nm"
      using namecmp_zero [OF Suc.prems(2) length_entry_name, of s x j] by (auto simp: e_def)
    have up: "[j..<n] = j # [Suc j..<n]" using True by (rule upt_conv_Cons)
    have k: "n - Suc j \<le> k" using Suc.prems(4) by simp
    have off: "of_nat (16 * j) + 16 = (of_nat (16 * Suc j) :: uint32)" by simp
    show ?thesis
    proof (cases "is_entry nm e")
      case True
      then have "dirlookup_loop (Suc k) dp nm (of_nat (16 * j)) s = res s1 x nm n j"
        using 1(1) lt \<open>j < n\<close> nc same \<open>i_dev x = ROOTDEV\<close>
        by (simp add: kbind_apply get_inode_def x_def [symmetric] Let_def is_entry_def e_def [symmetric] entry_def [symmetric]
            res_def up del: of_nat_mult)
      with 1(2) show ?thesis by (auto simp: x_def)
    next
      case False
      have "dirlookup_loop (Suc k) dp nm (of_nat (16 * j)) s = dirlookup_loop k dp nm (of_nat (16 * Suc j)) s1"
        unfolding off [symmetric] using False 1(1) lt \<open>j < n\<close> nc
        by (auto simp: kbind_apply get_inode_def x_def [symmetric] Let_def is_entry_def e_def [symmetric] entry_def [symmetric]
            simp del: of_nat_mult)
      moreover have "res s2 x nm n j = res s2 x nm n (Suc j)" if "same_view H s1 s2" for s2
        using False dir_ok_same(2) [OF same(1)] that same by (simp add: res_def up e_def)
      moreover obtain s2 where "same_view H s1 s2" "dirlookup_loop k dp nm (of_nat (16 * Suc j)) s1 = res s2 x nm n (Suc j)"
        using Suc.IH [of s1 "Suc j", unfolded same(3), OF same(1) Suc.prems(2,3) k] \<open>j < n\<close> by (auto simp: x_def simp del: of_nat_mult)
      ultimately have "dirlookup_loop (Suc k) dp nm (of_nat (16 * j)) s = res s2 x nm n j" "same_view H s s2"
        using same_view_trans [OF 1(2)] by metis+
      then show ?thesis unfolding x_def by blast
    qed
  qed
qed

subsection \<open>The inode table\<close>

definition in_use :: "uint32 \<Rightarrow> uint32 \<Rightarrow> inode \<Rightarrow> bool" where
  "in_use dev inum x \<longleftrightarrow> i_ref x > 0 \<and> i_dev x = dev \<and> i_inum x = inum"

text \<open>No inode has two entries in use.\<close>

definition itable_ok :: "inode list \<Rightarrow> bool" where
  "itable_ok is \<longleftrightarrow> length is = NINODE \<and> (\<forall>i < NINODE. 0 \<le> i_ref (is ! i)) \<and>
     (\<forall>i < NINODE. \<forall>j < NINODE. \<forall>dev inum. in_use dev inum (is ! i) \<and> in_use dev inum (is ! j) \<longrightarrow> i = j)"

lemma iget_find_Some:
  "iget_find is dev inum = Some ip \<Longrightarrow> ip < NINODE \<and> in_use dev inum (is ! ip)"
  by (auto simp: iget_find_def find_Some_iff in_use_def)

lemma iget_find_None: "iget_find is dev inum = None \<longleftrightarrow> (\<forall>i < NINODE. \<not> in_use dev inum (is ! i))"
  by (auto simp: iget_find_def find_None_iff in_use_def)

lemma iget_empty_None: "itable_ok is \<Longrightarrow> iget_empty is = None \<longleftrightarrow> (\<forall>i < NINODE. 0 < i_ref (is ! i))"
  by (fastforce simp: iget_empty_def find_None_iff itable_ok_def)

lemma iget_empty_Some: "iget_empty is = Some ip \<Longrightarrow> ip < NINODE \<and> i_ref (is ! ip) = 0"
  by (auto simp: iget_empty_def find_Some_iff)

lemma itable_ok_again:
  assumes "itable_ok is" "ip < NINODE" "in_use dev inum (is ! ip)"
  shows "itable_ok (is[ip := (is ! ip)\<lparr>i_ref := i_ref (is ! ip) + 1\<rparr>])"
proof -
  have u: "in_use d n (is[ip := (is ! ip)\<lparr>i_ref := i_ref (is ! ip) + 1\<rparr>] ! i) \<longleftrightarrow> in_use d n (is ! i)" if "i < NINODE" for d n i
    using that assms by (cases "i = ip") (auto simp: in_use_def itable_ok_def)
  have "0 \<le> i_ref (is[ip := (is ! ip)\<lparr>i_ref := i_ref (is ! ip) + 1\<rparr>] ! i)" if "i < NINODE" for i
    using that assms by (cases "i = ip") (auto simp: in_use_def itable_ok_def)
  with assms(1) u show ?thesis unfolding itable_ok_def by auto
qed

lemma itable_ok_new:
  assumes "itable_ok is" "ip < NINODE" "\<forall>i < NINODE. \<not> in_use dev inum (is ! i)" "i_ref (is ! ip) = 0"
  shows "itable_ok (is[ip := (is ! ip)\<lparr>i_dev := dev, i_inum := inum, i_ref := 1, i_valid := False\<rparr>])"
proof -
  let ?t = "is[ip := (is ! ip)\<lparr>i_dev := dev, i_inum := inum, i_ref := 1, i_valid := False\<rparr>]"
  have l: "length is = NINODE" using assms(1) by (simp add: itable_ok_def)
  have u: "in_use d n (?t ! i) \<longleftrightarrow> (if i = ip then d = dev \<and> n = inum else in_use d n (is ! i))" if "i < NINODE" for d n i
    using that l assms(2) by (auto simp: in_use_def)
  have "0 \<le> i_ref (?t ! i)" if "i < NINODE" for i
    using that assms l by (cases "i = ip") (auto simp: itable_ok_def)
  with assms l u show ?thesis unfolding itable_ok_def by (auto split: if_splits; blast)
qed

subsection \<open>Properties\<close>



text \<open>
  C16: \<^verbatim>\<open>skipelem\<close>, applied again and again, takes a path apart into its elements, the non-empty parts
  between slashes, in order; each is delivered in the name buffer cut to its first 14 bytes.
\<close>

theorem skipelem_splits_path:
  assumes "0 \<notin> set path" "length nm = DIRSIZ"
  shows "skipelems (length path) path nm = map (take DIRSIZ) (elems path)"
  using assms by (rule skipelems_elems) simp

theorem skipelem_splits_path_witness:
  "skipelems (length [47, 47, 47, 97, 47, 47, 98, 98 :: uint8]) [47, 47, 47, 97, 47, 47, 98, 98] (replicate DIRSIZ 1) = [[97], [98, 98]]"
proof -
  have "elems [47, 47, 47, 97, 47, 47, 98, 98] = [[97], [98, 98]]" by (simp add: elems.simps)
  with skipelem_splits_path [of "[47, 47, 47, 97, 47, 47, 98, 98]" "replicate DIRSIZ 1"] show ?thesis by (simp del: skipelems.simps)
qed


text \<open>
  C13: \<^verbatim>\<open>dirlookup\<close> finds the first entry of a directory that is in use and has the given name, names being
  compared up to their terminator or 14 bytes, and returns the result of \<^verbatim>\<open>iget\<close> on its inode number and
  the offset of the entry; without such an entry it returns null.  It changes no block.
\<close>

theorem dirlookup_first_match:
  fixes s :: "'a kfs_scheme" and dp :: nat
  defines "x \<equiv> inodes s ! dp"
  assumes "dir_ok H s x" "length nm = DIRSIZ"
  shows "\<exists>s1. same_view H s s1 \<and> dirlookup dp nm s =
    (case find (\<lambda>j. is_entry nm (entry s x j)) [0..<unat (i_size x) div 16] of
       None \<Rightarrow> Ok None s1
     | Some j \<Rightarrow> kbind (iget ROOTDEV (ucast (de_inum (entry s x j)))) (\<lambda>ip. kret (Some (ip, of_nat (16 * j)))) s1)"
proof -
  have d: "i_type x = T_DIR" using assms(2) by (simp add: dir_ok_def)
  have k: "unat (i_size x) div 16 - 0 \<le> dirent_slots (i_size x)" unfolding dirent_slots_def by (simp add: div_le_mono)
  obtain s1 where 1: "same_view H s s1" "dirlookup_loop (dirent_slots (i_size x)) dp nm (of_nat (16 * 0)) s =
      (case find (\<lambda>j. is_entry nm (entry s1 x j)) [0..<unat (i_size x) div 16] of None \<Rightarrow> Ok None s1
       | Some j \<Rightarrow> kbind (iget ROOTDEV (ucast (de_inum (entry s1 x j)))) (\<lambda>ip. kret (Some (ip, of_nat (16 * j)))) s1)"
    using dirlookup_loop_spec [OF assms(2) [unfolded x_def] assms(3) refl k [unfolded x_def], folded x_def] by blast
  moreover have "dirlookup dp nm s = dirlookup_loop (dirent_slots (i_size x)) dp nm (of_nat (16 * 0)) s"
    using d by (simp add: dirlookup_def kbind_apply get_inode_def x_def)
  ultimately show ?thesis unfolding dir_ok_same(2) [OF assms(2) 1(1)] by (intro exI [of _ s1]) simp
qed

theorem dirlookup_first_match_witness:
  "\<exists>(s :: kfs) s1. dir_ok {} s (inodes s ! 0) \<and> dirlookup 0 (97 # replicate 13 0) s =
     kbind (iget ROOTDEV 9) (\<lambda>ip. kret (Some (ip, 16))) s1"
proof -
  define ents :: "uint8 list" where "ents = [2, 0, 98] @ replicate 13 0 @ [9, 0, 97] @ replicate 13 0 @ [4, 0, 97] @ replicate 13 0"
  define d :: "uint32 \<Rightarrow> block" where "d = (\<lambda>_. replicate BSIZE 0)(7 := ents @ replicate 976 0)"
  define x where "x = ex_inode\<lparr>i_type := T_DIR, i_size := 48\<rparr>"
  have "length (d b) = BSIZE" for b by (simp add: d_def ents_def)
  then obtain s :: kfs where s: "in_txn {} s" "logged s = {}" "view s = d" "inodes s = [x]"
    using fs_machine_exists [of d ex_sb "[x]"] by blast
  have bn: "bn * BSIZE < 48 \<longleftrightarrow> bn = 0" for bn :: nat by (cases bn) simp_all
  have ok: "dir_ok {} s (inodes s ! 0)"
    using s(1,2) by (simp add: dir_ok_def s(4) x_def ex_inode_def file_mapped_def file_addr_def bn)
  have len: "length ents = 48" by (simp add: ents_def)
  have a: "file_addr s x 0 = 7" by (simp add: file_addr_def x_def ex_inode_def)
  have fb: "entry s x j = dirent_of (get_bytes (16 * j) 16 ents)" if "j < 3" for j
  proof -
    have "file_bytes s x (16 * j) 16 = get_bytes (16 * j) 16 (ents @ replicate 976 0)"
      using file_bytes_chunk(1) [of 16 16 "16 * j" s x] that by (simp add: a s(3) d_def ents_def)
    also have "\<dots> = get_bytes (16 * j) 16 ents" using that len by (simp add: get_bytes_def)
    finally show ?thesis by (simp add: entry_def)
  qed
  have e: "dirent_of (get_bytes 0 16 ents) = \<lparr>de_inum = 2, de_name = 98 # replicate 13 0\<rparr>"
    "dirent_of (get_bytes 16 16 ents) = \<lparr>de_inum = 9, de_name = 97 # replicate 13 0\<rparr>"
    "dirent_of (get_bytes 32 16 ents) = \<lparr>de_inum = 4, de_name = 97 # replicate 13 0\<rparr>"
    unfolding ents_def by code_simp+
  have "find (\<lambda>j. is_entry (97 # replicate 13 0) (entry s x j)) [0, 1, 2] = Some 1"
    by (simp add: fb e is_entry_def buf_name_def cstr_def)
  moreover have "[0..<unat (i_size x) div 16] = [0, 1, 2]" by (simp add: x_def upt_rec)
  moreover have "de_inum (entry s x 1) = 9" by (simp add: fb e)
  ultimately show ?thesis using dirlookup_first_match [OF ok, of "97 # replicate 13 0"] ok s(4) by fastforce
qed

end
