(* ===== verification/Sched.thy ===== *)
theory Sched
  imports Proc
begin

text \<open>
  The scheduler and the sleep/wakeup protocol of \<^verbatim>\<open>kernel/proc.c\<close> on several processors.  A step is one
  lock operation or one access to the process table, so that the sections of different processors
  interleave.  \<open>lk\<close> is the lock handed to \<^verbatim>\<open>sleep\<close>, and \<open>ready\<close> the condition it guards; a process
  may yield, wait for the condition and take it, or make it true and call \<^verbatim>\<open>wakeup\<close>, as \<^verbatim>\<open>acquiresleep\<close> and
  \<^verbatim>\<open>releasesleep\<close> of \<^verbatim>\<open>kernel/sleeplock.c\<close> do.  A spin lock is the number of the processor that holds it,
  as \<^verbatim>\<open>lk->cpu\<close> is.  A processor without a runnable process waits for an interrupt at the end of its pass
  over the table; that is a pause in its steps.
\<close>

text \<open>Where \<^verbatim>\<open>scheduler\<close> is on a processor: at entry \<open>p\<close> of the table, or inside process \<open>p\<close>.\<close>

datatype spc = SAcquire nat | STest nat | SIn nat | SBack nat | SRelease nat

text \<open>
  Where the kernel thread of a process is.  \<open>TSched b\<close> is the call of \<^verbatim>\<open>sched\<close>, from \<^verbatim>\<open>sleep\<close> if \<open>b\<close>;
  \<open>TBack\<close> and \<open>TSleepBack\<close> are the points after it, and \<open>TBack\<close> is also the start of \<^verbatim>\<open>forkret\<close>.
\<close>

datatype tpc = TRun
  | TYieldAcq | TYieldSet | TSched bool | TBack
  | TTakeAcq | TTest | TSleepAcq | TSleepRel | TSleepSet | TSleepBack | TSleepFree | TSleepLk
  | TGiveAcq | TGive | TWake nat | TWakeTest nat | TWakeRel nat | TUnlock

datatype act = AYield | ATake | AGive

record smp =
  pstate :: "nat \<Rightarrow> procstate"
  pchan :: "nat \<Rightarrow> chan"
  plock :: "nat \<Rightarrow> nat option"
  lk :: "nat option"
  ready :: bool
  cproc :: "nat \<Rightarrow> nat option"
  spc :: "nat \<Rightarrow> spc"
  tpc :: "nat \<Rightarrow> tpc"
  halted :: "string option"

abbreviation (input) NCPU :: nat where "NCPU \<equiv> 8"

subsection \<open>Lock operations\<close>

text \<open>\<open>None\<close> is another turn of the spin loop.\<close>

definition p_acquire :: "nat \<Rightarrow> nat \<Rightarrow> smp \<Rightarrow> smp option" where
  "p_acquire c i s = (case plock s i of
     None \<Rightarrow> Some (s\<lparr>plock := (plock s)(i := Some c)\<rparr>)
   | Some c' \<Rightarrow> if c' = c then Some (s\<lparr>halted := Some ''acquire''\<rparr>) else None)"

definition p_release :: "nat \<Rightarrow> nat \<Rightarrow> smp \<Rightarrow> smp option" where
  "p_release c i s = Some (if plock s i = Some c then s\<lparr>plock := (plock s)(i := None)\<rparr> else s\<lparr>halted := Some ''release''\<rparr>)"

definition lk_acquire :: "nat \<Rightarrow> smp \<Rightarrow> smp option" where
  "lk_acquire c s = (case lk s of
     None \<Rightarrow> Some (s\<lparr>lk := Some c\<rparr>)
   | Some c' \<Rightarrow> if c' = c then Some (s\<lparr>halted := Some ''acquire''\<rparr>) else None)"

definition lk_release :: "nat \<Rightarrow> smp \<Rightarrow> smp option" where
  "lk_release c s = Some (if lk s = Some c then s\<lparr>lk := None\<rparr> else s\<lparr>halted := Some ''release''\<rparr>)"

definition goto :: "nat \<Rightarrow> tpc \<Rightarrow> smp \<Rightarrow> smp" where
  "goto i pc s = s\<lparr>tpc := (tpc s)(i := pc)\<rparr>"

definition sgoto :: "nat \<Rightarrow> spc \<Rightarrow> smp \<Rightarrow> smp" where
  "sgoto c pc s = s\<lparr>spc := (spc s)(c := pc)\<rparr>"

text \<open>How many locks processor \<open>c\<close> holds: \<^verbatim>\<open>mycpu()->noff\<close>.\<close>

definition noff :: "nat \<Rightarrow> smp \<Rightarrow> nat" where
  "noff c s = length (filter (\<lambda>i. plock s i = Some c) [0..<NPROC]) + (if lk s = Some c then 1 else 0)"

subsection \<open>The code\<close>

text \<open>\<^verbatim>\<open>sched\<close> checks, in this order, and switches to the scheduler; interrupts are off while \<^verbatim>\<open>noff\<close> is not 0.\<close>

definition sched_check :: "nat \<Rightarrow> nat \<Rightarrow> smp \<Rightarrow> string option" where
  "sched_check c i s =
     (if plock s i \<noteq> Some c then Some ''sched p->lock''
      else if noff c s \<noteq> 1 then Some ''sched locks''
      else if pstate s i = RUNNING then Some ''sched running''
      else None)"

definition sched :: "nat \<Rightarrow> nat \<Rightarrow> tpc \<Rightarrow> smp \<Rightarrow> smp" where
  "sched c i ret s = (case sched_check c i s of
     Some m \<Rightarrow> s\<lparr>halted := Some m\<rparr>
   | None \<Rightarrow> sgoto c (SBack i) (goto i ret s))"

definition scheduler_step :: "nat \<Rightarrow> smp \<Rightarrow> smp option" where
  "scheduler_step c s = (case spc s c of
     SAcquire p \<Rightarrow> map_option (sgoto c (STest p)) (p_acquire c p s)
   | STest p \<Rightarrow>
       if pstate s p = RUNNABLE then
         Some (sgoto c (SIn p) (s\<lparr>pstate := (pstate s)(p := RUNNING), cproc := (cproc s)(c := Some p)\<rparr>))
       else Some (sgoto c (SRelease p) s)
   | SIn p \<Rightarrow> None
   | SBack p \<Rightarrow> Some (sgoto c (SRelease p) (s\<lparr>cproc := (cproc s)(c := None)\<rparr>))
   | SRelease p \<Rightarrow> map_option (sgoto c (SAcquire ((p + 1) mod NPROC))) (p_release c p s))"

definition yield_step :: "nat \<Rightarrow> nat \<Rightarrow> smp \<Rightarrow> smp option" where
  "yield_step c i s = (case tpc s i of
     TYieldAcq \<Rightarrow> map_option (goto i TYieldSet) (p_acquire c i s)
   | TYieldSet \<Rightarrow> Some (goto i (TSched False) (s\<lparr>pstate := (pstate s)(i := RUNNABLE)\<rparr>))
   | TSched False \<Rightarrow> Some (sched c i TBack s)
   | TBack \<Rightarrow> map_option (goto i TRun) (p_release c i s)
   | _ \<Rightarrow> None)"

text \<open>\<open>ch\<close> is the channel.\<close>

definition sleep_step :: "chan \<Rightarrow> nat \<Rightarrow> nat \<Rightarrow> smp \<Rightarrow> smp option" where
  "sleep_step ch c i s = (case tpc s i of
     TSleepAcq \<Rightarrow> map_option (goto i TSleepRel) (p_acquire c i s)
   | TSleepRel \<Rightarrow> map_option (goto i TSleepSet) (lk_release c s)
   | TSleepSet \<Rightarrow> Some (goto i (TSched True) (s\<lparr>pchan := (pchan s)(i := ch), pstate := (pstate s)(i := SLEEPING)\<rparr>))
   | TSched True \<Rightarrow> Some (sched c i TSleepBack s)
   | TSleepBack \<Rightarrow> Some (goto i TSleepFree (s\<lparr>pchan := (pchan s)(i := ChNull)\<rparr>))
   | TSleepFree \<Rightarrow> map_option (goto i TSleepLk) (p_release c i s)
   | TSleepLk \<Rightarrow> map_option (goto i TTest) (lk_acquire c s)
   | _ \<Rightarrow> None)"

definition wakeup_step :: "chan \<Rightarrow> nat \<Rightarrow> nat \<Rightarrow> smp \<Rightarrow> smp option" where
  "wakeup_step ch c i s = (case tpc s i of
     TWake k \<Rightarrow>
       if \<not> k < NPROC then Some (goto i TUnlock s)
       else if Some k \<noteq> cproc s c then map_option (goto i (TWakeTest k)) (p_acquire c k s)
       else Some (goto i (TWake (k + 1)) s)
   | TWakeTest k \<Rightarrow> Some (goto i (TWakeRel k)
       (if pstate s k = SLEEPING \<and> pchan s k = ch then s\<lparr>pstate := (pstate s)(k := RUNNABLE)\<rparr> else s))
   | TWakeRel k \<Rightarrow> map_option (goto i (TWake (k + 1))) (p_release c k s)
   | _ \<Rightarrow> None)"

text \<open>
  The callers, with \<open>ready\<close> for a sleep lock that is not locked: \<^verbatim>\<open>acquiresleep\<close> waits for the condition and
  takes it, \<^verbatim>\<open>releasesleep\<close> makes it true and wakes the waiters.
\<close>

definition client_step :: "act \<Rightarrow> nat \<Rightarrow> nat \<Rightarrow> smp \<Rightarrow> smp option" where
  "client_step a c i s = (case tpc s i of
     TRun \<Rightarrow> Some (goto i (case a of AYield \<Rightarrow> TYieldAcq | ATake \<Rightarrow> TTakeAcq | AGive \<Rightarrow> TGiveAcq) s)
   | TTakeAcq \<Rightarrow> map_option (goto i TTest) (lk_acquire c s)
   | TTest \<Rightarrow> if ready s then Some (goto i TUnlock (s\<lparr>ready := False\<rparr>)) else Some (goto i TSleepAcq s)
   | TGiveAcq \<Rightarrow> map_option (goto i TGive) (lk_acquire c s)
   | TGive \<Rightarrow> Some (goto i (TWake 0) (s\<lparr>ready := True\<rparr>))
   | TUnlock \<Rightarrow> map_option (goto i TRun) (lk_release c s)
   | _ \<Rightarrow> None)"

inductive sstep :: "chan \<Rightarrow> smp \<Rightarrow> smp \<Rightarrow> bool" for ch where
  scheduler: "halted s = None \<Longrightarrow> c < NCPU \<Longrightarrow> scheduler_step c s = Some s' \<Longrightarrow> sstep ch s s'"
| yield: "halted s = None \<Longrightarrow> c < NCPU \<Longrightarrow> spc s c = SIn i \<Longrightarrow> yield_step c i s = Some s' \<Longrightarrow> sstep ch s s'"
| sleep: "halted s = None \<Longrightarrow> c < NCPU \<Longrightarrow> spc s c = SIn i \<Longrightarrow> sleep_step ch c i s = Some s' \<Longrightarrow> sstep ch s s'"
| wakeup: "halted s = None \<Longrightarrow> c < NCPU \<Longrightarrow> spc s c = SIn i \<Longrightarrow> wakeup_step ch c i s = Some s' \<Longrightarrow> sstep ch s s'"
| client: "halted s = None \<Longrightarrow> c < NCPU \<Longrightarrow> spc s c = SIn i \<Longrightarrow> client_step a c i s = Some s' \<Longrightarrow> sstep ch s s'"

text \<open>After booting, some processes are runnable and about to start in \<^verbatim>\<open>forkret\<close>, the others unused.\<close>

definition sched_init :: "smp \<Rightarrow> bool" where
  "sched_init s \<longleftrightarrow> (\<forall>i. pstate s i \<in> {UNUSED, RUNNABLE}) \<and> (\<forall>i. plock s i = None) \<and> lk s = None \<and> \<not> ready s \<and>
     (\<forall>c. cproc s c = None) \<and> (\<forall>c. spc s c = SAcquire 0) \<and> (\<forall>i. tpc s i = TBack) \<and> halted s = None"

inductive sreach :: "chan \<Rightarrow> smp \<Rightarrow> bool" for ch where
  init: "sched_init s \<Longrightarrow> sreach ch s"
| step: "sreach ch s \<Longrightarrow> sstep ch s s' \<Longrightarrow> sreach ch s'"

subsection \<open>Who holds what\<close>

fun holdsP :: "tpc \<Rightarrow> nat \<Rightarrow> nat \<Rightarrow> bool" where
  "holdsP TYieldSet j i = (i = j)"
| "holdsP (TSched b) j i = (i = j)"
| "holdsP TBack j i = (i = j)"
| "holdsP TSleepRel j i = (i = j)"
| "holdsP TSleepSet j i = (i = j)"
| "holdsP TSleepBack j i = (i = j)"
| "holdsP TSleepFree j i = (i = j)"
| "holdsP (TWakeTest k) j i = (i = k)"
| "holdsP (TWakeRel k) j i = (i = k)"
| "holdsP _ j i = False"

fun holdsL :: "tpc \<Rightarrow> bool" where
  "holdsL TTest = True"
| "holdsL TSleepAcq = True"
| "holdsL TSleepRel = True"
| "holdsL TGive = True"
| "holdsL (TWake k) = True"
| "holdsL (TWakeTest k) = True"
| "holdsL (TWakeRel k) = True"
| "holdsL TUnlock = True"
| "holdsL _ = False"

fun cpuP :: "smp \<Rightarrow> spc \<Rightarrow> nat \<Rightarrow> bool" where
  "cpuP s (SAcquire p) i = False"
| "cpuP s (SIn j) i = holdsP (tpc s j) j i"
| "cpuP s (STest p) i = (i = p)"
| "cpuP s (SBack p) i = (i = p)"
| "cpuP s (SRelease p) i = (i = p)"

fun cpuL :: "smp \<Rightarrow> spc \<Rightarrow> bool" where
  "cpuL s (SIn j) = holdsL (tpc s j)"
| "cpuL s _ = False"

fun insideof :: "spc \<Rightarrow> nat option" where
  "insideof (SIn j) = Some j"
| "insideof (SBack j) = Some j"
| "insideof _ = None"

fun at_entry :: "spc \<Rightarrow> nat" where
  "at_entry (SAcquire p) = p" | "at_entry (STest p) = p" | "at_entry (SIn p) = p"
| "at_entry (SBack p) = p" | "at_entry (SRelease p) = p"

fun run_state :: "tpc \<Rightarrow> procstate" where
  "run_state (TSched b) = (if b then SLEEPING else RUNNABLE)"
| "run_state _ = RUNNING"

definition locks_ok :: "smp \<Rightarrow> bool" where
  "locks_ok s \<longleftrightarrow> (\<forall>i c. plock s i = Some c \<longleftrightarrow> cpuP s (spc s c) i) \<and> (\<forall>c. lk s = Some c \<longleftrightarrow> cpuL s (spc s c))"

definition place_ok :: "smp \<Rightarrow> bool" where
  "place_ok s \<longleftrightarrow> (\<forall>c. cproc s c = insideof (spc s c)) \<and> (\<forall>c. at_entry (spc s c) < NPROC) \<and>
     (\<forall>c c' i. insideof (spc s c) = Some i \<longrightarrow> insideof (spc s c') = Some i \<longrightarrow> c = c')"

definition state_ok :: "chan \<Rightarrow> smp \<Rightarrow> bool" where
  "state_ok ch s \<longleftrightarrow> (\<forall>c i. spc s c = SIn i \<longrightarrow> pstate s i = run_state (tpc s i)) \<and>
     (\<forall>i. (\<forall>c. spc s c \<noteq> SIn i) \<longrightarrow> tpc s i \<in> {TBack, TSleepBack} \<and> pstate s i \<noteq> RUNNING) \<and>
     (\<forall>i. pstate s i = SLEEPING \<longrightarrow> pchan s i = ch)"

text \<open>A waker that has not come to process \<open>i\<close> yet.\<close>

fun will_wake :: "nat \<Rightarrow> tpc \<Rightarrow> bool" where
  "will_wake i (TWake k) = (k \<le> i)"
| "will_wake i (TWakeTest k) = (k \<le> i)"
| "will_wake i (TWakeRel k) = (k < i)"
| "will_wake i _ = False"

definition wake_ok :: "smp \<Rightarrow> bool" where
  "wake_ok s \<longleftrightarrow> (\<forall>c i. spc s c = SIn i \<longrightarrow> tpc s i \<in> {TSleepAcq, TSleepRel} \<longrightarrow> \<not> ready s) \<and>
     (\<forall>i < NPROC. ready s \<longrightarrow> pstate s i = SLEEPING \<or> ((\<exists>c. spc s c = SIn i) \<and> tpc s i = TSleepSet) \<longrightarrow>
        (\<exists>c j. spc s c = SIn j \<and> will_wake i (tpc s j)))"

definition sched_inv :: "chan \<Rightarrow> smp \<Rightarrow> bool" where
  "sched_inv ch s \<longleftrightarrow> locks_ok s \<and> place_ok s \<and> state_ok ch s \<and> wake_ok s \<and> halted s = None"

lemmas lock_defs = p_acquire_def p_release_def lk_acquire_def lk_release_def goto_def sgoto_def

lemma init_inv: "sched_init s \<Longrightarrow> sched_inv ch s"
  unfolding sched_init_def sched_inv_def locks_ok_def place_ok_def state_ok_def wake_ok_def
  by (auto; metis procstate.distinct)

lemma invD:
  assumes "sched_inv ch s"
  shows "plock s i = Some c \<longleftrightarrow> cpuP s (spc s c) i" "lk s = Some c \<longleftrightarrow> cpuL s (spc s c)"
    "cproc s c = insideof (spc s c)" "at_entry (spc s c) < NPROC" "spc s c = SIn i \<Longrightarrow> spc s c' = SIn i \<Longrightarrow> c = c'"
    "spc s c = SIn i \<Longrightarrow> pstate s i = run_state (tpc s i)"
    "\<forall>c. spc s c \<noteq> SIn i \<Longrightarrow> tpc s i \<in> {TBack, TSleepBack} \<and> pstate s i \<noteq> RUNNING"
    "pstate s i = SLEEPING \<Longrightarrow> pchan s i = ch"
    "spc s c = SIn i \<Longrightarrow> tpc s i \<in> {TSleepAcq, TSleepRel} \<Longrightarrow> \<not> ready s" "halted s = None"
    "insideof (spc s c) = Some i \<Longrightarrow> insideof (spc s c') = Some i \<Longrightarrow> c = c'"
proof -
  show u: "c = c'" if "insideof (spc s c) = Some i" "insideof (spc s c') = Some i"
    using assms that unfolding sched_inv_def place_ok_def by blast
  show "c = c'" if "spc s c = SIn i" "spc s c' = SIn i" using u that by simp
qed (use assms in \<open>unfold sched_inv_def locks_ok_def place_ok_def state_ok_def wake_ok_def, blast+\<close>)

subsection \<open>A step of a thread\<close>

lemma thread_locks:
  assumes inv: "sched_inv ch s" and on: "spc s c = SIn i"
    and s': "spc s' = spc s" "tpc s' = (tpc s)(i := pc)"
    and P: "\<And>x. plock s' x = (if holdsP pc i x then Some c else if holdsP (tpc s i) i x then None else plock s x)"
      "\<And>x. holdsP pc i x \<Longrightarrow> plock s x \<in> {None, Some c}"
    and K: "lk s' = (if holdsL pc then Some c else if holdsL (tpc s i) then None else lk s)"
      "holdsL pc \<Longrightarrow> lk s \<in> {None, Some c}"
  shows "locks_ok s'"
proof -
  have cP: "cpuP s' (spc s' d) x = (if d = c then holdsP pc i x else cpuP s (spc s d) x)" for d x
    using invD(5) [OF inv on, of d] on s' by (cases "spc s d") auto
  have cL: "cpuL s' (spc s' d) = (if d = c then holdsL pc else cpuL s (spc s d))" for d
    using invD(5) [OF inv on, of d] on s' by (cases "spc s d") auto
  have p: "plock s x = Some d \<longleftrightarrow> cpuP s (spc s d) x" "lk s = Some d \<longleftrightarrow> cpuL s (spc s d)" for x d
    using invD(1,2) [OF inv] by auto
  have "plock s' x = Some d \<longleftrightarrow> cpuP s' (spc s' d) x" for x d
    using P(2) [of x] p(1) [of x d] p(1) [of x c] on unfolding P(1) cP by auto
  moreover have "lk s' = Some d \<longleftrightarrow> cpuL s' (spc s' d)" for d
    using K(2) p(2) [of d] p(2) [of c] on unfolding K(1) cL by auto
  ultimately show ?thesis by (simp add: locks_ok_def)
qed

lemma thread_state:
  assumes inv: "sched_inv ch s" and on: "spc s c = SIn i"
    and s': "spc s' = spc s" "tpc s' = (tpc s)(i := pc)" "pstate s' i = run_state pc"
      "\<And>x. x \<noteq> i \<Longrightarrow> pstate s' x = pstate s x \<or> pstate s x = SLEEPING \<and> pstate s' x = RUNNABLE \<and> tpc s i = TWakeTest x"
      "\<And>x. pstate s' x = SLEEPING \<Longrightarrow> pchan s' x = ch"
  shows "state_ok ch s'"
proof -
  have "pstate s' x = run_state (tpc s' x)" if x: "spc s d = SIn x" for d x
  proof (cases "x = i")
    case False
    have ps: "pstate s x = run_state (tpc s x)" using invD(6) [OF inv x] .
    have "\<not> (pstate s x = SLEEPING \<and> tpc s i = TWakeTest x)"
    proof
      assume a: "pstate s x = SLEEPING \<and> tpc s i = TWakeTest x"
      then obtain b where "tpc s x = TSched b" using ps by (cases "tpc s x") auto
      then have "plock s x = Some d" using invD(1) [OF inv, of x d] x by simp
      moreover have "plock s x = Some c" using invD(1) [OF inv, of x c] on a by simp
      ultimately show False using on x False by simp
    qed
    then show ?thesis using s'(4) [OF False] ps s'(2) False by auto
  qed (use s' in simp)
  moreover have "tpc s' x \<in> {TBack, TSleepBack} \<and> pstate s' x \<noteq> RUNNING" if x: "\<forall>d. spc s d \<noteq> SIn x" for x
    using invD(7) [OF inv x] s'(2) s'(4) [of x] x on by (cases "x = i") auto
  ultimately show ?thesis using s'(1,5) unfolding state_ok_def by simp
qed

lemma thread_inv:
  assumes inv: "sched_inv ch s" and on: "spc s c = SIn i"
    and s': "spc s' = spc s" "tpc s' = (tpc s)(i := pc)" "cproc s' = cproc s" "halted s' = None"
    and P: "\<And>x. plock s' x = (if holdsP pc i x then Some c else if holdsP (tpc s i) i x then None else plock s x)"
      "\<And>x. holdsP pc i x \<Longrightarrow> plock s x \<in> {None, Some c}"
    and K: "lk s' = (if holdsL pc then Some c else if holdsL (tpc s i) then None else lk s)"
      "holdsL pc \<Longrightarrow> lk s \<in> {None, Some c}"
    and S: "pstate s' i = run_state pc"
      "\<And>x. x \<noteq> i \<Longrightarrow> pstate s' x = pstate s x \<or> pstate s x = SLEEPING \<and> pstate s' x = RUNNABLE \<and> tpc s i = TWakeTest x"
      "\<And>x. pstate s' x = SLEEPING \<Longrightarrow> pchan s' x = ch"
    and W: "wake_ok s'"
  shows "sched_inv ch s'"
proof -
  have "place_ok s'" using inv s'(1,3) by (simp add: sched_inv_def place_ok_def)
  with thread_locks [OF inv on s'(1,2) P K] thread_state [OF inv on s'(1,2) S] W s'(4) show ?thesis
    by (simp add: sched_inv_def)
qed

text \<open>The condition stays as it is and nobody falls asleep: sleepers are still ahead of a waker.\<close>

definition waiting :: "smp \<Rightarrow> nat \<Rightarrow> bool" where
  "waiting s x \<longleftrightarrow> pstate s x = SLEEPING \<or> ((\<exists>c. spc s c = SIn x) \<and> tpc s x = TSleepSet)"

lemma wake_ok_alt: "wake_ok s \<longleftrightarrow> (\<forall>c i. spc s c = SIn i \<longrightarrow> tpc s i \<in> {TSleepAcq, TSleepRel} \<longrightarrow> \<not> ready s) \<and>
    (\<forall>i < NPROC. ready s \<longrightarrow> waiting s i \<longrightarrow> (\<exists>c j. spc s c = SIn j \<and> will_wake i (tpc s j)))"
  by (simp add: wake_ok_def waiting_def)

lemma thread_wake:
  assumes inv: "sched_inv ch s" and on: "spc s c = SIn i"
    and s': "spc s' = spc s" "tpc s' = (tpc s)(i := pc)" "ready s' \<Longrightarrow> ready s" "ready s' \<Longrightarrow> pc \<notin> {TSleepAcq, TSleepRel}"
    and W: "\<And>x. x < NPROC \<Longrightarrow> ready s' \<Longrightarrow> waiting s' x \<Longrightarrow> waiting s x \<and> (will_wake x (tpc s i) \<longrightarrow> will_wake x pc)"
  shows "wake_ok s'"
proof -
  have w: "wake_ok s" using inv by (simp add: sched_inv_def)
  have "\<exists>d j. spc s' d = SIn j \<and> will_wake x (tpc s' j)" if x: "x < NPROC" "ready s'" "waiting s' x" for x
  proof -
    from w x s'(3) W [OF x] obtain d j where "spc s d = SIn j" "will_wake x (tpc s j)" by (auto simp: wake_ok_alt)
    with W [OF x] s'(1,2) show ?thesis by (cases "j = i") auto
  qed
  moreover have "\<not> ready s'" if "spc s' d = SIn j" "tpc s' j \<in> {TSleepAcq, TSleepRel}" for d j
    using that s' invD(9) [OF inv, of d j] by (cases "j = i") auto
  ultimately show ?thesis by (simp add: wake_ok_alt)
qed

lemma thread_step:
  assumes inv: "sched_inv ch s" and on: "spc s c = SIn i"
    and s': "spc s' = spc s" "tpc s' = (tpc s)(i := pc)" "cproc s' = cproc s" "halted s' = None"
    and P: "\<And>x. plock s' x = (if holdsP pc i x then Some c else if holdsP (tpc s i) i x then None else plock s x)"
      "\<And>x. holdsP pc i x \<Longrightarrow> plock s x \<in> {None, Some c}"
    and K: "lk s' = (if holdsL pc then Some c else if holdsL (tpc s i) then None else lk s)"
      "holdsL pc \<Longrightarrow> lk s \<in> {None, Some c}"
    and S: "pstate s' i = run_state pc"
      "\<And>x. x \<noteq> i \<Longrightarrow> pstate s' x = pstate s x \<or> pstate s x = SLEEPING \<and> pstate s' x = RUNNABLE \<and> tpc s i = TWakeTest x"
      "\<And>x. pstate s' x = SLEEPING \<Longrightarrow> pchan s' x = ch"
    and R: "ready s' \<Longrightarrow> ready s \<and> pc \<notin> {TSleepAcq, TSleepRel, TSleepSet}"
    and W: "\<And>x. x < NPROC \<Longrightarrow> x \<noteq> i \<Longrightarrow> ready s' \<Longrightarrow> waiting s' x \<Longrightarrow> will_wake x (tpc s i) \<Longrightarrow> will_wake x pc"
    and Z: "pc = TSched True \<Longrightarrow> tpc s i = TSleepSet"
  shows "sched_inv ch s'"
proof (rule thread_inv [OF inv on s' P K S])
  show "wake_ok s'"
  proof (rule thread_wake [OF inv on s'(1,2)])
    fix x assume x: "x < NPROC" "ready s'" "waiting s' x"
    show "waiting s x \<and> (will_wake x (tpc s i) \<longrightarrow> will_wake x pc)"
    proof (cases "x = i")
      case True
      have "pstate s' i = SLEEPING" using x(2,3) R s'(2) True by (auto simp: waiting_def)
      then have "pc = TSched True" using S(1) by (cases pc) (auto split: if_splits)
      then have "tpc s i = TSleepSet" by (rule Z)
      then show ?thesis using on True by (auto simp: waiting_def)
    next
      case False
      then show ?thesis using x s'(1,2) S(2) [OF False] W [OF x(1) False x(2,3)] by (auto simp: waiting_def)
    qed
  qed (use R in auto)
qed

text \<open>The facts about thread \<open>i\<close> on processor \<open>c\<close> that the cases below use.\<close>

lemma onD:
  assumes "sched_inv ch s" "spc s c = SIn i"
  shows "plock s x = Some c \<longleftrightarrow> holdsP (tpc s i) i x" "lk s = Some c \<longleftrightarrow> holdsL (tpc s i)" "pstate s i = run_state (tpc s i)"
    "cproc s c = Some i" "halted s = None"
  using invD(1) [OF assms(1), of x c] invD(2) [OF assms(1), of c] invD(6) [OF assms] invD(3) [OF assms(1), of c]
    invD(10) [OF assms(1)] assms(2)
  by simp_all

lemma p_acquire_Some:
  assumes "p_acquire c x s = Some t" "plock s x \<noteq> Some c"
  shows "plock s x = None" "t = s\<lparr>plock := (plock s)(x := Some c)\<rparr>"
  using assms by (auto simp: p_acquire_def split: option.splits if_splits)

lemma lk_acquire_Some:
  assumes "lk_acquire c s = Some t" "lk s \<noteq> Some c"
  shows "lk s = None" "t = s\<lparr>lk := Some c\<rparr>"
  using assms by (auto simp: lk_acquire_def split: option.splits if_splits)

lemma yield_inv:
  assumes inv: "sched_inv ch s" and on: "spc s c = SIn i" and st: "yield_step c i s = Some s'" "tpc s i \<noteq> TSched False"
  shows "sched_inv ch s'"
proof -
  note o = onD [OF inv on] and chan = invD(8) [OF inv]
  show ?thesis
  proof (cases "tpc s i")
    case TYieldAcq
    then obtain t where t: "p_acquire c i s = Some t" "s' = goto i TYieldSet t" using st by (auto simp: yield_step_def)
    note a = p_acquire_Some [OF t(1)]
    show ?thesis
      by (rule thread_step [OF inv on, where pc = TYieldSet]) (use TYieldAcq t(2) a o chan in \<open>auto simp: goto_def split: if_splits\<close>)
  next
    case TYieldSet
    then have s': "s' = goto i (TSched False) (s\<lparr>pstate := (pstate s)(i := RUNNABLE)\<rparr>)" using st by (simp add: yield_step_def)
    show ?thesis
      by (rule thread_step [OF inv on, where pc = "TSched False"]) (use TYieldSet s' o chan in \<open>auto simp: goto_def split: if_splits\<close>)
  next
    case TBack
    then have s': "s' = goto i TRun (s\<lparr>plock := (plock s)(i := None)\<rparr>)" using st o(1) [of i] by (simp add: yield_step_def p_release_def)
    show ?thesis
      by (rule thread_step [OF inv on, where pc = TRun]) (use TBack s' o chan in \<open>auto simp: goto_def split: if_splits\<close>)
  qed (use st in \<open>auto simp: yield_step_def split: bool.splits\<close>)
qed

lemma sleep_inv:
  assumes inv: "sched_inv ch s" and on: "spc s c = SIn i" and st: "sleep_step ch c i s = Some s'" "tpc s i \<noteq> TSched True"
  shows "sched_inv ch s'"
proof -
  note o = onD [OF inv on] and chan = invD(8) [OF inv] and nr = invD(9) [OF inv on]
  show ?thesis
  proof (cases "tpc s i")
    case TSleepAcq
    then obtain t where t: "p_acquire c i s = Some t" "s' = goto i TSleepRel t" using st by (auto simp: sleep_step_def)
    note a = p_acquire_Some [OF t(1)]
    show ?thesis
      by (rule thread_step [OF inv on, where pc = TSleepRel]) (use TSleepAcq t(2) a o chan nr in \<open>auto simp: goto_def split: if_splits\<close>)
  next
    case TSleepRel
    then have s': "s' = goto i TSleepSet (s\<lparr>lk := None\<rparr>)" using st o(2) by (simp add: sleep_step_def lk_release_def)
    show ?thesis
      by (rule thread_step [OF inv on, where pc = TSleepSet]) (use TSleepRel s' o chan nr in \<open>auto simp: goto_def split: if_splits\<close>)
  next
    case TSleepSet
    then have s': "s' = goto i (TSched True) (s\<lparr>pchan := (pchan s)(i := ch), pstate := (pstate s)(i := SLEEPING)\<rparr>)"
      using st by (simp add: sleep_step_def)
    show ?thesis
      by (rule thread_step [OF inv on, where pc = "TSched True"]) (use TSleepSet s' o chan in \<open>auto simp: goto_def split: if_splits\<close>)
  next
    case TSleepBack
    then have s': "s' = goto i TSleepFree (s\<lparr>pchan := (pchan s)(i := ChNull)\<rparr>)" using st by (simp add: sleep_step_def)
    show ?thesis
      by (rule thread_step [OF inv on, where pc = TSleepFree]) (use TSleepBack s' o chan in \<open>auto simp: goto_def split: if_splits\<close>)
  next
    case TSleepFree
    then have s': "s' = goto i TSleepLk (s\<lparr>plock := (plock s)(i := None)\<rparr>)" using st o(1) [of i] by (simp add: sleep_step_def p_release_def)
    show ?thesis
      by (rule thread_step [OF inv on, where pc = TSleepLk]) (use TSleepFree s' o chan in \<open>auto simp: goto_def split: if_splits\<close>)
  next
    case TSleepLk
    then obtain t where t: "lk_acquire c s = Some t" "s' = goto i TTest t" using st by (auto simp: sleep_step_def)
    note a = lk_acquire_Some [OF t(1)]
    show ?thesis
      by (rule thread_step [OF inv on, where pc = TTest]) (use TSleepLk t(2) a o chan in \<open>auto simp: goto_def split: if_splits\<close>)
  qed (use st in \<open>auto simp: sleep_step_def split: bool.splits\<close>)
qed

lemma wakeup_inv:
  assumes inv: "sched_inv ch s" and on: "spc s c = SIn i" and st: "wakeup_step ch c i s = Some s'"
  shows "sched_inv ch s'"
proof -
  note o = onD [OF inv on] and chan = invD(8) [OF inv]
  show ?thesis
  proof (cases "tpc s i")
    case (TWake k)
    consider "\<not> k < NPROC" "s' = goto i TUnlock s" | "k = i" "s' = goto i (TWake (k + 1)) s"
      | t where "k \<noteq> i" "p_acquire c k s = Some t" "s' = goto i (TWakeTest k) t"
      using st TWake o(4) by (auto simp: wakeup_step_def split: if_splits)
    then show ?thesis
    proof cases
      case 1
      show ?thesis
        by (rule thread_step [OF inv on, where pc = TUnlock]) (use TWake 1 o chan in \<open>auto simp: goto_def split: if_splits\<close>)
    next
      case 2
      show ?thesis
        by (rule thread_step [OF inv on, where pc = "TWake (k + 1)"]) (use TWake 2 o chan in \<open>auto simp: goto_def split: if_splits\<close>)
    next
      case 3
      note a = p_acquire_Some [OF 3(2)]
      show ?thesis
        by (rule thread_step [OF inv on, where pc = "TWakeTest k"]) (use TWake 3(1,3) a o chan in \<open>auto simp: goto_def split: if_splits\<close>)
    qed
  next
    case (TWakeTest k)
    define t where "t = (if pstate s k = SLEEPING \<and> pchan s k = ch then s\<lparr>pstate := (pstate s)(k := RUNNABLE)\<rparr> else s)"
    have s': "s' = goto i (TWakeRel k) t" using st TWakeTest by (simp add: wakeup_step_def t_def)
    have k: "\<not> (spc s d = SIn k \<and> tpc s k = TSleepSet)" for d
      using invD(1) [OF inv, of k d] o(1) [of k] on TWakeTest by auto
    show ?thesis
    proof (rule thread_step [OF inv on, where pc = "TWakeRel k"])
      fix x assume x: "x \<noteq> i" "waiting s' x" "will_wake x (tpc s i)"
      have "x \<noteq> k" using x(1,2) k chan [of k] by (auto simp: waiting_def s' goto_def t_def split: if_splits)
      then show "will_wake x (TWakeRel k)" using x(3) TWakeTest by simp
    qed (use TWakeTest s' o chan in \<open>auto simp: goto_def t_def split: if_splits\<close>)
  next
    case (TWakeRel k)
    then have s': "s' = goto i (TWake (k + 1)) (s\<lparr>plock := (plock s)(k := None)\<rparr>)" using st o(1) [of k]
      by (simp add: wakeup_step_def p_release_def)
    show ?thesis
      by (rule thread_step [OF inv on, where pc = "TWake (k + 1)"]) (use TWakeRel s' o chan in \<open>auto simp: goto_def split: if_splits\<close>)
  qed (use st in \<open>auto simp: wakeup_step_def\<close>)
qed

lemma give_inv:
  assumes inv: "sched_inv ch s" and on: "spc s c = SIn i" and pc: "tpc s i = TGive"
  shows "sched_inv ch (goto i (TWake 0) (s\<lparr>ready := True\<rparr>))"
proof (rule thread_inv [OF inv on, where pc = "TWake 0"])
  note o = onD [OF inv on]
  show "wake_ok (goto i (TWake 0) (s\<lparr>ready := True\<rparr>))"
  proof -
    have "tpc s j \<notin> {TSleepAcq, TSleepRel}" if "spc s d = SIn j" for d j
      using invD(2) [OF inv, of d] o(2) that on pc by auto
    with on show ?thesis by (auto simp: wake_ok_def goto_def)
  qed
qed (use pc onD [OF inv on] invD(8) [OF inv] in \<open>auto simp: goto_def split: if_splits\<close>)

lemma client_inv:
  assumes inv: "sched_inv ch s" and on: "spc s c = SIn i" and st: "client_step a c i s = Some s'"
  shows "sched_inv ch s'"
proof -
  note o = onD [OF inv on] and chan = invD(8) [OF inv]
  show ?thesis
  proof (cases "tpc s i")
    case TRun
    define pc where "pc = (case a of AYield \<Rightarrow> TYieldAcq | ATake \<Rightarrow> TTakeAcq | AGive \<Rightarrow> TGiveAcq)"
    have s': "s' = goto i pc s" using st TRun by (simp add: client_step_def pc_def)
    show ?thesis
      by (rule thread_step [OF inv on, where pc = pc])
        (use TRun s' o chan in \<open>auto simp: goto_def pc_def split: if_splits act.splits\<close>)
  next
    case TTakeAcq
    then obtain t where t: "lk_acquire c s = Some t" "s' = goto i TTest t" using st by (auto simp: client_step_def)
    note l = lk_acquire_Some [OF t(1)]
    show ?thesis
      by (rule thread_step [OF inv on, where pc = TTest]) (use TTakeAcq t(2) l o chan in \<open>auto simp: goto_def split: if_splits\<close>)
  next
    case TTest
    then have "s' = goto i TUnlock (s\<lparr>ready := False\<rparr>) \<or> \<not> ready s \<and> s' = goto i TSleepAcq s"
      using st by (auto simp: client_step_def split: if_splits)
    then show ?thesis
    proof (elim disjE conjE)
      assume s': "s' = goto i TUnlock (s\<lparr>ready := False\<rparr>)"
      show ?thesis
        by (rule thread_step [OF inv on, where pc = TUnlock]) (use TTest s' o chan in \<open>auto simp: goto_def split: if_splits\<close>)
    next
      assume s': "\<not> ready s" "s' = goto i TSleepAcq s"
      show ?thesis
        by (rule thread_step [OF inv on, where pc = TSleepAcq]) (use TTest s' o chan in \<open>auto simp: goto_def split: if_splits\<close>)
    qed
  next
    case TGiveAcq
    then obtain t where t: "lk_acquire c s = Some t" "s' = goto i TGive t" using st by (auto simp: client_step_def)
    note l = lk_acquire_Some [OF t(1)]
    show ?thesis
      by (rule thread_step [OF inv on, where pc = TGive]) (use TGiveAcq t(2) l o chan in \<open>auto simp: goto_def split: if_splits\<close>)
  next
    case TGive
    then show ?thesis using give_inv [OF inv on] st by (simp add: client_step_def)
  next
    case TUnlock
    then have s': "s' = goto i TRun (s\<lparr>lk := None\<rparr>)" using st o(2) by (simp add: client_step_def lk_release_def)
    show ?thesis
      by (rule thread_step [OF inv on, where pc = TRun]) (use TUnlock s' o chan in \<open>auto simp: goto_def split: if_splits\<close>)
  qed (use st in \<open>auto simp: client_step_def\<close>)
qed

subsection \<open>Switching\<close>

text \<open>The checks of \<^verbatim>\<open>sched\<close> succeed.\<close>

lemma sched_check_None:
  assumes inv: "sched_inv ch s" and on: "spc s c = SIn i" and pc: "tpc s i = TSched b"
  shows "sched_check c i s = None"
proof -
  note o = onD [OF inv on]
  have i: "i < NPROC" using invD(4) [OF inv, of c] on by simp
  have "filter (\<lambda>x. plock s x = Some c) [0..<NPROC] = filter (\<lambda>x. x = i) [0..<NPROC]"
    by (rule filter_cong) (use o(1) pc in auto)
  moreover have "length (filter (\<lambda>x. x = i) [0..<NPROC]) = 1"
    using i by (subst distinct_length_filter) (auto simp: Collect_conv_if)
  ultimately have "noff c s = 1" using o(2) pc by (simp add: noff_def)
  then show ?thesis using o(1,3) pc by (simp add: sched_check_def)
qed

text \<open>A processor changes its place and no lock does: the locks it holds are what its new place says.\<close>

lemma move_inv:
  assumes inv: "sched_inv ch s"
    and s': "spc s' = (spc s)(c := pc)" "halted s' = None" "cproc s' = (cproc s)(c := insideof pc)" "at_entry pc < NPROC"
    and U: "\<And>i d. insideof pc = Some i \<Longrightarrow> d \<noteq> c \<Longrightarrow> insideof (spc s d) \<noteq> Some i"
    and I: "\<And>i. pc = SIn i \<Longrightarrow> (\<forall>d. spc s d \<noteq> SIn i) \<and> pstate s' i = run_state (tpc s' i)"
      "\<And>x. \<forall>d. spc s' d \<noteq> SIn x \<Longrightarrow> tpc s' x \<in> {TBack, TSleepBack} \<and> pstate s' x \<noteq> RUNNING"
    and T: "\<And>x. spc s c \<noteq> SIn x \<Longrightarrow> pc \<noteq> SIn x \<Longrightarrow> tpc s' x = tpc s x \<and> pstate s' x = pstate s x"
    and P: "\<And>x. plock s' x = (if cpuP s' pc x then Some c else if cpuP s (spc s c) x then None else plock s x)"
      "\<And>x. cpuP s' pc x \<Longrightarrow> plock s x \<in> {None, Some c}"
    and K: "lk s' = lk s" "\<not> cpuL s (spc s c)" "\<not> cpuL s' pc"
    and S: "\<And>x. pstate s' x = SLEEPING \<Longrightarrow> pstate s x = SLEEPING \<and> pchan s' x = pchan s x"
    and R: "ready s' = ready s" "\<And>j. spc s c = SIn j \<Longrightarrow> \<forall>x. \<not> will_wake x (tpc s j)"
      "\<And>j. pc = SIn j \<Longrightarrow> tpc s' j \<notin> {TSleepAcq, TSleepRel, TSleepSet}"
  shows "sched_inv ch s'"
proof -
  have other: "tpc s' x = tpc s x \<and> pstate s' x = pstate s x" if "spc s d = SIn x" "d \<noteq> c" for d x
    using T [of x] I(1) [of x] invD(5) [OF inv that(1), of c] that by blast
  have cP: "cpuP s' (spc s' d) x = (if d = c then cpuP s' pc x else cpuP s (spc s d) x)" for d x
    using other [of d] s'(1) by (cases "spc s d") auto
  have cL: "cpuL s' (spc s' d) = (if d = c then False else cpuL s (spc s d))" for d
    using other [of d] s'(1) K(3) by (cases "spc s d") auto
  have "plock s' x = Some d \<longleftrightarrow> cpuP s' (spc s' d) x" for x d
    using P(2) [of x] invD(1) [OF inv, of x d] invD(1) [OF inv, of x c] unfolding P(1) cP by auto
  moreover have "lk s' = Some d \<longleftrightarrow> cpuL s' (spc s' d)" for d
    using invD(2) [OF inv, of d] K unfolding cL by auto
  moreover have "place_ok s'"
  proof -
    have "d = d'" if "insideof (spc s' d) = Some i" "insideof (spc s' d') = Some i" for d d' i
      using that U [of i d] U [of i d'] invD(11) [OF inv, of d i d'] s'(1) by (auto split: if_splits)
    moreover have "cproc s' d = insideof (spc s' d) \<and> at_entry (spc s' d) < NPROC" for d
      using invD(3,4) [OF inv, of d] s' by simp
    ultimately show ?thesis unfolding place_ok_def by blast
  qed
  moreover have "state_ok ch s'"
    using invD(6,8) [OF inv] other I S s'(1) unfolding state_ok_def by (auto split: if_splits)
  moreover have "wake_ok s'"
  proof -
    have w: "wake_ok s" using inv by (simp add: sched_inv_def)
    have "waiting s x" if "waiting s' x" for x
      using that S [of x] R(3) [of x] other s'(1) by (auto simp: waiting_def split: if_splits)
    moreover have "\<exists>d j. spc s' d = SIn j \<and> will_wake x (tpc s' j)" if d: "spc s d = SIn j" "will_wake x (tpc s j)" for d j x
    proof -
      have "d \<noteq> c" using R(2) d by auto
      with d other [OF d(1)] s'(1) show ?thesis by (intro exI [of _ d] exI [of _ j]) auto
    qed
    moreover have "\<not> ready s'" if "spc s' d = SIn j" "tpc s' j \<in> {TSleepAcq, TSleepRel}" for d j
      using that R(1,3) other s'(1) invD(9) [OF inv, of d j] by (auto split: if_splits)
    ultimately show ?thesis using w R(1) unfolding wake_ok_alt by blast
  qed
  ultimately show ?thesis using s'(2) by (simp add: sched_inv_def locks_ok_def)
qed

lemma sched_keeps_inv:
  assumes inv: "sched_inv ch s" and on: "spc s c = SIn i" and pc: "tpc s i = TSched b" and ret: "ret \<in> {TBack, TSleepBack}"
  shows "sched_inv ch (sched c i ret s)"
proof -
  note o = onD [OF inv on]
  have s': "sched c i ret s = sgoto c (SBack i) (goto i ret s)" using sched_check_None [OF inv on pc] by (simp add: sched_def)
  have i: "i < NPROC" using invD(4) [OF inv, of c] on by simp
  have off: "spc s d \<noteq> SIn i" if "d \<noteq> c" for d using invD(5) [OF inv on, of d] that by auto
  show ?thesis unfolding s'
  proof (rule move_inv [OF inv, where pc = "SBack i" and c = c])
    fix x assume "\<forall>d. spc (sgoto c (SBack i) (goto i ret s)) d \<noteq> SIn x"
    then have "spc s d \<noteq> SIn x" if "x \<noteq> i" for d using that on by (cases "d = c") (auto simp: sgoto_def goto_def dest!: spec [of _ d])
    then show "tpc (sgoto c (SBack i) (goto i ret s)) x \<in> {TBack, TSleepBack} \<and>
        pstate (sgoto c (SBack i) (goto i ret s)) x \<noteq> RUNNING"
      using invD(7) [OF inv, of x] ret o(3) pc on by (cases "x = i") (auto simp: sgoto_def goto_def split: if_splits)
  qed (use i on o pc ret invD(4,8) [OF inv] invD(11) [OF inv, of c i] in \<open>auto simp: sgoto_def goto_def split: if_splits\<close>)
qed

lemma scheduler_inv:
  assumes inv: "sched_inv ch s" and st: "scheduler_step c s = Some s'"
  shows "sched_inv ch s'"
proof -
  have e: "at_entry (spc s c) < NPROC" "cproc s c = insideof (spc s c)" "halted s = None"
    and pl: "\<And>x. plock s x = Some c \<longleftrightarrow> cpuP s (spc s c) x"
    using invD(1,3,4,10) [OF inv] by auto
  have off: "tpc s x \<in> {TBack, TSleepBack} \<and> pstate s x \<noteq> RUNNING" if "\<forall>d. d \<noteq> c \<longrightarrow> spc s d \<noteq> SIn x" "spc s c \<noteq> SIn x" for x
    using invD(7) [OF inv, of x] that by metis
  show ?thesis
  proof (cases "spc s c")
    case (SAcquire p)
    then obtain t where t: "p_acquire c p s = Some t" "s' = sgoto c (STest p) t" using st by (auto simp: scheduler_step_def)
    have "plock s p \<noteq> Some c" using pl SAcquire by simp
    note a = p_acquire_Some [OF t(1) this]
    show ?thesis
      by (rule move_inv [OF inv, where pc = "STest p" and c = c])
        (use SAcquire t(2) a e pl off in \<open>auto simp: sgoto_def split: if_splits\<close>)
  next
    case (STest p)
    have pp: "plock s p = Some c" using pl STest by simp
    show ?thesis
    proof (cases "pstate s p = RUNNABLE")
      case True
      have out: "\<forall>d. spc s d \<noteq> SIn p"
      proof (intro allI notI)
        fix d assume d: "spc s d = SIn p"
        have "tpc s p = TSched False" using invD(6) [OF inv d] True by (cases "tpc s p") (auto split: if_splits)
        then have "plock s p = Some d" using invD(1) [OF inv, of p d] d by simp
        with pp STest d show False by simp
      qed
      have out': "insideof (spc s d) \<noteq> Some p" if "d \<noteq> c" for d
        using out invD(1) [OF inv, of p d] pp that by (cases "spc s d") auto
      note off_p = invD(7) [OF inv out]
      have s': "s' = sgoto c (SIn p) (s\<lparr>pstate := (pstate s)(p := RUNNING), cproc := (cproc s)(c := Some p)\<rparr>)"
        using st STest True by (simp add: scheduler_step_def)
      have off': "tpc s x \<in> {TBack, TSleepBack} \<and> pstate s x \<noteq> RUNNING" if "\<forall>d. d = c \<or> spc s d \<noteq> SIn x" for x
        using off [of x] that STest by auto
      have tp: "tpc s p \<noteq> TSched b" "\<not> holdsL (tpc s p)" "holdsP (tpc s p) p x \<longleftrightarrow> x = p" "run_state (tpc s p) = RUNNING"
          "tpc s p \<notin> {TSleepAcq, TSleepRel, TSleepSet}" for b x
        using off_p by auto
      show ?thesis
        by (rule move_inv [OF inv, where pc = "SIn p" and c = c])
          (use STest s' pp e pl off' out out' tp in \<open>auto simp: sgoto_def split: if_splits\<close>)
    next
      case False
      then have s': "s' = sgoto c (SRelease p) s" using st STest by (simp add: scheduler_step_def)
      show ?thesis
        by (rule move_inv [OF inv, where pc = "SRelease p" and c = c])
          (use STest s' pp e pl off in \<open>auto simp: sgoto_def split: if_splits\<close>)
    qed
  next
    case (SBack p)
    then have s': "s' = sgoto c (SRelease p) (s\<lparr>cproc := (cproc s)(c := None)\<rparr>)" using st by (simp add: scheduler_step_def)
    show ?thesis
      by (rule move_inv [OF inv, where pc = "SRelease p" and c = c])
        (use SBack s' e pl off in \<open>auto simp: sgoto_def split: if_splits\<close>)
  next
    case (SRelease p)
    then have s': "s' = sgoto c (SAcquire ((p + 1) mod NPROC)) (s\<lparr>plock := (plock s)(p := None)\<rparr>)"
      using st pl by (simp add: scheduler_step_def p_release_def)
    show ?thesis
      by (rule move_inv [OF inv, where pc = "SAcquire ((p + 1) mod NPROC)" and c = c])
        (use SRelease s' e pl off in \<open>auto simp: sgoto_def split: if_splits\<close>)
  qed (use st in \<open>simp add: scheduler_step_def\<close>)
qed

lemma sstep_inv: "sstep ch s s' \<Longrightarrow> sched_inv ch s \<Longrightarrow> sched_inv ch s'"
proof (induction rule: sstep.induct)
  case (yield s c i s')
  then show ?case
    using yield_inv [OF yield(5,3,4)] sched_keeps_inv [OF yield(5,3)] by (cases "tpc s i = TSched False") (auto simp: yield_step_def)
next
  case (sleep s c i s')
  then show ?case
    using sleep_inv [OF sleep(5,3,4)] sched_keeps_inv [OF sleep(5,3)] by (cases "tpc s i = TSched True") (auto simp: sleep_step_def)
qed (auto dest: scheduler_inv wakeup_inv client_inv)

lemma sreach_inv: "sreach ch s \<Longrightarrow> sched_inv ch s"
  by (induction rule: sreach.induct) (auto intro: init_inv sstep_inv)

subsection \<open>A runnable process gets its turn\<close>

fun strace :: "chan \<Rightarrow> smp \<Rightarrow> smp list \<Rightarrow> bool" where
  "strace ch s [] = True"
| "strace ch s (t # ts) = (sstep ch s t \<and> strace ch t ts)"

text \<open>The scheduler of processor \<open>c\<close> moves to the next entry of the table.\<close>

definition moves_on :: "nat \<Rightarrow> smp \<Rightarrow> smp \<Rightarrow> bool" where
  "moves_on c s t \<longleftrightarrow> (case (spc s c, spc t c) of (SRelease _, SAcquire _) \<Rightarrow> True | _ \<Rightarrow> False)"

fun advances :: "nat \<Rightarrow> smp \<Rightarrow> smp list \<Rightarrow> nat" where
  "advances c s [] = 0"
| "advances c s (t # ts) = (if moves_on c s t then 1 else 0) + advances c t ts"

text \<open>How often it has to, before it is at entry \<open>p\<close>.\<close>

definition dist :: "nat \<Rightarrow> nat \<Rightarrow> nat" where
  "dist q p = (p + NPROC - q) mod NPROC"

fun turns :: "nat \<Rightarrow> spc \<Rightarrow> nat" where
  "turns p (SAcquire q) = dist q p"
| "turns p (STest q) = dist q p"
| "turns p (SIn q) = dist ((q + 1) mod NPROC) p + 1"
| "turns p (SBack q) = dist ((q + 1) mod NPROC) p + 1"
| "turns p (SRelease q) = dist ((q + 1) mod NPROC) p + 1"

lemma turns_le: "turns p q \<le> NPROC"
  by (cases q) (simp_all add: dist_def)

lemma dist_eq:
  assumes "p < NPROC" "q < NPROC"
  shows "dist q p = (if q \<le> p then p - q else p + NPROC - q)"
proof (cases "q \<le> p")
  case True
  then have "p + NPROC - q = (p - q) + NPROC" by simp
  then have "dist q p = (p - q) mod NPROC" unfolding dist_def by (simp only: mod_add_self2)
  then show ?thesis using True assms by simp
qed (use assms in \<open>simp add: dist_def\<close>)

lemma dist_Suc:
  assumes "p < NPROC" "q < NPROC" "p \<noteq> q"
  shows "dist q p = dist ((q + 1) mod NPROC) p + 1"
proof (cases "q + 1 = NPROC")
  case True
  then have "(q + 1) mod NPROC = 0" by simp
  then show ?thesis using True assms dist_eq [of p q] dist_eq [of p 0] by simp
next
  case False
  then have "(q + 1) mod NPROC = q + 1" using assms by simp
  then show ?thesis using False assms dist_eq [of p q] dist_eq [of p "q + 1"] by auto
qed

lemma runnable_stays:
  assumes inv: "sched_inv ch s" and st: "sstep ch s t" and r: "pstate s p = RUNNABLE" "pstate t p \<noteq> RUNNING"
  shows "pstate t p = RUNNABLE"
  using st
proof cases
  case (scheduler c)
  then show ?thesis using r
    by (auto simp: scheduler_step_def lock_defs split: spc.splits option.splits if_splits)
next
  case (yield c i)
  have "pstate s i = run_state (tpc s i)" using invD(6) [OF inv yield(3)] .
  then show ?thesis using r yield
    by (auto simp: yield_step_def lock_defs sched_def split: tpc.splits option.splits if_splits bool.splits)
next
  case (sleep c i)
  have "pstate s i = run_state (tpc s i)" using invD(6) [OF inv sleep(3)] .
  then show ?thesis using r sleep
    by (auto simp: sleep_step_def lock_defs sched_def split: tpc.splits option.splits if_splits bool.splits)
next
  case (wakeup c i)
  then show ?thesis using r
    by (auto simp: wakeup_step_def lock_defs split: tpc.splits option.splits if_splits)
next
  case (client c i a)
  then show ?thesis using r
    by (auto simp: client_step_def lock_defs split: tpc.splits option.splits if_splits)
qed

text \<open>Other steps do not move a scheduler, except for its own and the return of the process it runs.\<close>

lemma spc_step:
  assumes "sstep ch s t"
  shows "spc t c = spc s c \<or> scheduler_step c s = Some t \<or> (\<exists>i. spc s c = SIn i \<and> spc t c = SBack i)"
  using assms
proof cases
  case (scheduler d)
  then show ?thesis
    by (cases "d = c") (auto simp: scheduler_step_def lock_defs split: spc.splits option.splits if_splits)
next
  case (yield d i)
  then show ?thesis
    by (auto simp: yield_step_def lock_defs sched_def split: tpc.splits option.splits if_splits bool.splits)
next
  case (sleep d i)
  then show ?thesis
    by (auto simp: sleep_step_def lock_defs sched_def split: tpc.splits option.splits if_splits bool.splits)
next
  case (wakeup d i)
  then show ?thesis by (auto simp: wakeup_step_def lock_defs split: tpc.splits option.splits if_splits)
next
  case (client d i a)
  then show ?thesis by (auto simp: client_step_def lock_defs split: tpc.splits option.splits if_splits)
qed

lemma turns_step:
  assumes inv: "sched_inv ch s" and st: "sstep ch s t" and p: "p < NPROC" and r: "pstate s p = RUNNABLE" "pstate t p \<noteq> RUNNING"
  shows "turns p (spc t c) + (if moves_on c s t then 1 else 0) \<le> turns p (spc s c)"
proof -
  have q: "at_entry (spc s c) < NPROC" by (rule invD(4) [OF inv])
  from spc_step [OF st, of c] show ?thesis
  proof (elim disjE exE conjE)
    assume "spc t c = spc s c"
    then show ?thesis by (cases "spc s c") (simp_all add: moves_on_def)
  next
    assume a: "scheduler_step c s = Some t"
    show ?thesis
    proof (cases "spc s c")
      case (STest x)
      then have "x \<noteq> p" using a r by (auto simp: scheduler_step_def sgoto_def)
      then show ?thesis using STest a dist_Suc [OF p, of x] q
        by (auto simp: scheduler_step_def sgoto_def moves_on_def split: if_splits)
    qed (use a in \<open>auto simp: scheduler_step_def lock_defs moves_on_def split: option.splits if_splits\<close>)
  next
    fix i assume "spc s c = SIn i" "spc t c = SBack i"
    then show ?thesis by (simp add: moves_on_def)
  qed
qed

lemma starved_turns:
  assumes "sched_inv ch s" "strace ch s ts" "p < NPROC" "pstate s p = RUNNABLE" "\<forall>t \<in> set ts. pstate t p \<noteq> RUNNING"
  shows "advances c s ts \<le> turns p (spc s c)"
  using assms
proof (induction ts arbitrary: s)
  case (Cons t ts)
  have st: "sstep ch s t" "pstate t p \<noteq> RUNNING" using Cons.prems by simp_all
  have "advances c t ts \<le> turns p (spc t c)"
    by (rule Cons.IH) (use Cons.prems sstep_inv [OF st(1) Cons.prems(1)] runnable_stays [OF Cons.prems(1) st(1) Cons.prems(4) st(2)] in simp_all)
  with turns_step [OF Cons.prems(1) st(1) Cons.prems(3,4) st(2), of c] show ?case by simp
qed simp

subsection \<open>Executing a schedule\<close>

text \<open>A schedule says which processor steps next and, where its process has a choice, what the process does.\<close>

definition cpu_step :: "chan \<Rightarrow> nat \<times> act \<Rightarrow> smp \<Rightarrow> smp option" where
  "cpu_step ch e s = (case e of (c, a) \<Rightarrow>
     if halted s \<noteq> None \<or> \<not> c < NCPU then None
     else case spc s c of
       SIn i \<Rightarrow> (case yield_step c i s of Some t \<Rightarrow> Some t | None \<Rightarrow>
         (case sleep_step ch c i s of Some t \<Rightarrow> Some t | None \<Rightarrow>
           (case wakeup_step ch c i s of Some t \<Rightarrow> Some t | None \<Rightarrow> client_step a c i s)))
     | _ \<Rightarrow> scheduler_step c s)"

fun exec_trace :: "chan \<Rightarrow> (nat \<times> act) list \<Rightarrow> smp \<Rightarrow> smp list option" where
  "exec_trace ch [] s = Some []"
| "exec_trace ch (e # es) s = (case cpu_step ch e s of
     None \<Rightarrow> None | Some t \<Rightarrow> map_option ((#) t) (exec_trace ch es t))"

lemma cpu_step_sstep: "cpu_step ch e s = Some t \<Longrightarrow> sstep ch s t"
  by (auto simp: cpu_step_def split: prod.splits if_splits spc.splits option.splits intro: sstep.intros)

lemma exec_strace: "exec_trace ch es s = Some ts \<Longrightarrow> strace ch s ts"
  by (induction es arbitrary: s ts) (auto split: option.splits intro: cpu_step_sstep)

lemma strace_reach: "strace ch s ts \<Longrightarrow> sreach ch s \<Longrightarrow> sreach ch (last (s # ts))"
proof (induction ts arbitrary: s)
  case (Cons t ts)
  then have "sreach ch t" using sreach.step by auto
  with Cons show ?case by simp
qed simp

definition boot_smp :: smp where
  "boot_smp = \<lparr>pstate = (\<lambda>i. if i < 2 then RUNNABLE else UNUSED), pchan = (\<lambda>_. ChNull), plock = (\<lambda>_. None), lk = None,
     ready = False, cproc = (\<lambda>_. None), spc = (\<lambda>_. SAcquire 0), tpc = (\<lambda>_. TBack), halted = None\<rparr>"

lemma boot_reach: "sreach ch boot_smp"
  by (rule sreach.init) (simp add: sched_init_def boot_smp_def)

text \<open>Process 0 waits on processor 0; then process 1, on processor 1, makes the condition true.\<close>

definition sleep_schedule :: "(nat \<times> act) list" where
  "sleep_schedule = replicate 3 (0, AYield) @ replicate 6 (1, AYield) @ replicate 10 (0, ATake) @ replicate 4 (1, AGive)"

subsection \<open>Properties\<close>



text \<open>
  C5: No wakeup is lost.  If the condition holds and a process still sleeps, then another process holds the
  condition lock, is inside \<^verbatim>\<open>wakeup\<close> on some processor, and has not come to the sleeper yet.  So nobody
  sleeps on a condition that holds while the lock is free.
\<close>

theorem no_lost_wakeup:
  assumes "sreach ch s" "ready s" "i < NPROC" "pstate s i = SLEEPING"
  shows "\<exists>c j. cproc s c = Some j \<and> j \<noteq> i \<and> lk s = Some c \<and> will_wake i (tpc s j)"
proof -
  note inv = sreach_inv [OF assms(1)]
  have "wake_ok s" using inv by (simp add: sched_inv_def)
  then obtain c j where j: "spc s c = SIn j" "will_wake i (tpc s j)" using assms unfolding wake_ok_def by blast
  have "pstate s j = RUNNING" "holdsL (tpc s j)" using invD(6) [OF inv j(1)] j(2) by (cases "tpc s j"; simp)+
  moreover from this have "lk s = Some c" using onD(2) [OF inv j(1)] by simp
  ultimately show ?thesis using j assms(4) onD(4) [OF inv j(1)] by (intro exI [of _ c] exI [of _ j]) auto
qed

theorem no_lost_wakeup_witness:
  "\<exists>s. sreach (ChProc 7) s \<and> ready s \<and> pstate s 0 = SLEEPING \<and> (\<exists>c j. lk s = Some c \<and> will_wake 0 (tpc s j))"
proof -
  have "case exec_trace (ChProc 7) sleep_schedule boot_smp of None \<Rightarrow> False
    | Some ts \<Rightarrow> ready (last (boot_smp # ts)) \<and> pstate (last (boot_smp # ts)) 0 = SLEEPING" by code_simp
  then obtain ts where ts: "exec_trace (ChProc 7) sleep_schedule boot_smp = Some ts" "ready (last (boot_smp # ts))"
    "pstate (last (boot_smp # ts)) 0 = SLEEPING" by (auto split: option.splits)
  have r: "sreach (ChProc 7) (last (boot_smp # ts))" using strace_reach [OF exec_strace [OF ts(1)] boot_reach] .
  from no_lost_wakeup [OF r ts(2) _ ts(3)] r ts(2,3) show ?thesis by auto
qed

text \<open>
  C6: A runnable process gets a processor before the scheduler of any processor has gone once round the
  table: along every run in which that scheduler moves on more often than it is away from the entry of
  the process, which is at most \<^verbatim>\<open>NPROC\<close> times, the process is marked \<^verbatim>\<open>RUNNING\<close> at some point.
\<close>

theorem runnable_gets_turn:
  assumes "sreach ch s" "p < NPROC" "pstate s p = RUNNABLE" "strace ch s ts" "turns p (spc s c) < advances c s ts"
  shows "turns p (spc s c) \<le> NPROC \<and> (\<exists>t \<in> set ts. pstate t p = RUNNING)"
  using starved_turns [OF sreach_inv [OF assms(1)] assms(4,2,3), of c] assms(5) turns_le by fastforce

theorem runnable_gets_turn_witness:
  "\<exists>ts. strace ChNull boot_smp ts \<and> 1 < advances 0 boot_smp ts \<and> (\<exists>t \<in> set ts. pstate t 1 = RUNNING)"
proof -
  have "case exec_trace ChNull (replicate 22 (0, AYield)) boot_smp of None \<Rightarrow> False | Some ts \<Rightarrow> 1 < advances 0 boot_smp ts"
    by code_simp
  then obtain ts where ts: "exec_trace ChNull (replicate 22 (0, AYield)) boot_smp = Some ts" "1 < advances 0 boot_smp ts"
    by (auto split: option.splits)
  have "turns 1 (spc boot_smp 0) < advances 0 boot_smp ts" "pstate boot_smp 1 = RUNNABLE"
    using ts(2) by (simp_all add: boot_smp_def dist_def)
  from runnable_gets_turn [OF boot_reach _ this(2) exec_strace [OF ts(1)] this(1)] ts(2) exec_strace [OF ts(1)]
  show ?thesis by auto
qed

end
