(* ===== verification/Virtio.thy ===== *)
theory Virtio
  imports Bio Kstring
begin

text \<open>
  The disk driver, \<^verbatim>\<open>kernel/virtio_disk.c\<close>.  The descriptor table, the rings and the driver's own
  book-keeping are fields of the state; an address given to the device is the name of the object it
  points to.  The driver releases its lock in two places, where it sleeps: \<open>virtio_submit\<close> runs from
  the start of \<^verbatim>\<open>virtio_disk_rw\<close> to the wait for completion, \<open>virtio_finish\<close> from there to the end.  The
  device is a relation on states, given as an argument.
\<close>

abbreviation (input) NUM :: nat where "NUM \<equiv> 8"

abbreviation (input) VRING_DESC_F_NEXT :: uint16 where "VRING_DESC_F_NEXT \<equiv> 1"
abbreviation (input) VRING_DESC_F_WRITE :: uint16 where "VRING_DESC_F_WRITE \<equiv> 2"
abbreviation (input) VIRTIO_BLK_T_IN :: uint32 where "VIRTIO_BLK_T_IN \<equiv> 0"
abbreviation (input) VIRTIO_BLK_T_OUT :: uint32 where "VIRTIO_BLK_T_OUT \<equiv> 1"

text \<open>\<^verbatim>\<open>&disk.ops[i]\<close>, \<^verbatim>\<open>b->data\<close> and \<^verbatim>\<open>&disk.info[i].status\<close>.\<close>

datatype vaddr = ANull | AOps nat | AData nat | AStatus nat

record virtq_desc =
  vd_addr :: vaddr
  vd_len :: uint32
  vd_flags :: uint16
  vd_next :: uint16

record virtio_blk_req =
  vr_type :: uint32
  vr_reserved :: uint32
  vr_sector :: uint64

text \<open>
  \<open>todo\<close> holds the chain heads the device has seen in the available ring and not returned;
  \<open>mmio\<close> records the writes to the device's registers.
\<close>

record kvirtio = kbio +
  vdesc :: "virtq_desc list"
  avail_idx :: uint16
  avail_ring :: "uint16 list"
  dev_used_idx :: uint16
  used_ring :: "uint32 list"
  vfree :: "bool list"
  used_idx :: uint16
  info_b :: "nat option list"
  info_status :: "uint8 list"
  vops :: "virtio_blk_req list"
  todo :: "nat set"
  mmio :: "(nat \<times> uint32) list"

definition zero_desc :: virtq_desc where
  "zero_desc = \<lparr>vd_addr = ANull, vd_len = 0, vd_flags = 0, vd_next = 0\<rparr>"

subsection \<open>Initialisation\<close>

definition mmio_write :: "nat \<Rightarrow> uint32 \<Rightarrow> ('a kvirtio_scheme, unit) kfun" where
  "mmio_write r v = kmodify (\<lambda>s. s\<lparr>mmio := mmio s @ [(r, v)]\<rparr>)"

text \<open>\<open>reg\<close> gives the value a register reads as after a sequence of writes.\<close>

definition virtio_negotiate :: "((nat \<times> uint32) list \<Rightarrow> nat \<Rightarrow> uint32) \<Rightarrow> ('a kvirtio_scheme, uint32) kfun" where
  "virtio_negotiate reg = kbind (kget mmio) (\<lambda>m.
     if reg m 0 \<noteq> 0x74726976 \<or> reg m 4 \<noteq> 2 \<or> reg m 8 \<noteq> 2 \<or> reg m 0xc \<noteq> 0x554d4551 then kpanic ''could not find virtio disk''
     else kbind (mmio_write 0x70 0) (\<lambda>_. kbind (mmio_write 0x70 1) (\<lambda>_. kbind (mmio_write 0x70 3) (\<lambda>_.
       kbind (kget mmio) (\<lambda>m1.
       kbind (mmio_write 0x20 (reg m1 0x10 AND NOT (push_bit 5 1) AND NOT (push_bit 7 1) AND NOT (push_bit 11 1) AND
         NOT (push_bit 12 1) AND NOT (push_bit 27 1) AND NOT (push_bit 29 1) AND NOT (push_bit 28 1))) (\<lambda>_.
       kbind (mmio_write 0x70 11) (\<lambda>_.
       kbind (kget mmio) (\<lambda>m2.
       if reg m2 0x70 AND 8 = 0 then kpanic ''virtio disk FEATURES_OK unset'' else kret (reg m2 0x70)))))))))"

definition kalloc_zeroed :: "('a kvirtio_scheme, nat \<times> nat \<times> nat) kfun" where
  "kalloc_zeroed = kbind kalloc (\<lambda>d. kbind kalloc (\<lambda>a. kbind kalloc (\<lambda>u.
     if d = 0 \<or> a = 0 \<or> u = 0 then kpanic ''virtio disk kalloc''
     else kbind (kmodify (\<lambda>s. s\<lparr>mem := memset (memset (memset (mem s) d 0 PGSIZE) a 0 PGSIZE) u 0 PGSIZE,
         vdesc := replicate NUM zero_desc, avail_idx := 0, avail_ring := replicate NUM 0, dev_used_idx := 0,
         used_ring := replicate NUM 0\<rparr>)) (\<lambda>_. kret (d, a, u)))))"

definition virtio_disk_init :: "((nat \<times> uint32) list \<Rightarrow> nat \<Rightarrow> uint32) \<Rightarrow> ('a kvirtio_scheme, unit) kfun" where
  "virtio_disk_init reg = kbind (virtio_negotiate reg) (\<lambda>status.
     kbind (mmio_write 0x30 0) (\<lambda>_.
     kbind (kget mmio) (\<lambda>m.
     if reg m 0x44 \<noteq> 0 then kpanic ''virtio disk should not be ready''
     else if reg m 0x34 = 0 then kpanic ''virtio disk has no queue 0''
     else if reg m 0x34 < 8 then kpanic ''virtio disk max queue too short''
     else kbind kalloc_zeroed (\<lambda>(d, a, u).
       kbind (mmio_write 0x38 8) (\<lambda>_.
       kbind (kforeach [(0x80, d), (0x90, a), (0xa0, u)] (\<lambda>(r, p).
         kbind (mmio_write r (of_nat p)) (\<lambda>_. mmio_write (r + 4) (of_nat (p div 2 ^ 32))))) (\<lambda>_.
       kbind (mmio_write 0x44 1) (\<lambda>_.
       kbind (kmodify (\<lambda>s. s\<lparr>vfree := replicate NUM True\<rparr>)) (\<lambda>_.
       mmio_write 0x70 (status OR 4)))))))))"

subsection \<open>Descriptors\<close>

definition alloc_desc :: "('a kvirtio_scheme, int) kfun" where
  "alloc_desc = kbind (kget (\<lambda>s. find (\<lambda>i. vfree s ! i) [0..<NUM])) (\<lambda>r.
     case r of
       Some i \<Rightarrow> kbind (kmodify (\<lambda>s. s\<lparr>vfree := (vfree s)[i := False]\<rparr>)) (\<lambda>_. kret (int i))
     | None \<Rightarrow> kret (-1))"

definition free_desc :: "nat \<Rightarrow> ('a kvirtio_scheme, unit) kfun" where
  "free_desc i = kbind (kget vfree) (\<lambda>f.
     if i \<ge> NUM then kpanic ''free_desc 1''
     else if f ! i then kpanic ''free_desc 2''
     else kbind (kmodify (\<lambda>s. s\<lparr>vdesc := (vdesc s)[i := zero_desc], vfree := (vfree s)[i := True]\<rparr>)) (\<lambda>_.
       wakeup ChDiskFree))"

text \<open>Every turn frees a descriptor that was in use, so more than \<^verbatim>\<open>NUM\<close> turns are not possible.\<close>

fun free_chain_loop :: "nat \<Rightarrow> nat \<Rightarrow> ('a kvirtio_scheme, unit) kfun" where
  "free_chain_loop 0 i = kpanic ''free_chain: fuel''"
| "free_chain_loop (Suc k) i = kbind (kget (\<lambda>s. vdesc s ! i)) (\<lambda>d.
     kbind (free_desc i) (\<lambda>_.
     if vd_flags d AND VRING_DESC_F_NEXT \<noteq> 0 then free_chain_loop k (unat (vd_next d)) else kret ()))"

definition free_chain :: "nat \<Rightarrow> ('a kvirtio_scheme, unit) kfun" where
  "free_chain i = free_chain_loop (NUM + 1) i"

fun alloc_descs :: "nat \<Rightarrow> nat list \<Rightarrow> ('a kvirtio_scheme, nat list option) kfun" where
  "alloc_descs 0 idx = kret (Some idx)"
| "alloc_descs (Suc k) idx = kbind alloc_desc (\<lambda>d.
     if d < 0 then kbind (kforeach idx free_desc) (\<lambda>_. kret None)
     else alloc_descs k (idx @ [nat d]))"

definition alloc3_desc :: "('a kvirtio_scheme, nat list option) kfun" where
  "alloc3_desc = alloc_descs 3 []"

subsection \<open>Requests\<close>

definition virtio_format :: "nat \<Rightarrow> bool \<Rightarrow> nat \<Rightarrow> nat \<Rightarrow> nat \<Rightarrow> 'a kvirtio_scheme \<Rightarrow> 'a kvirtio_scheme" where
  "virtio_format b write i0 i1 i2 s =
     (let sector = ucast (b_blockno (bufs s ! b) * 2);
          op = \<lparr>vr_type = (if write then VIRTIO_BLK_T_OUT else VIRTIO_BLK_T_IN), vr_reserved = 0, vr_sector = sector\<rparr>;
          d0 = \<lparr>vd_addr = AOps i0, vd_len = 16, vd_flags = VRING_DESC_F_NEXT, vd_next = of_nat i1\<rparr>;
          d1 = \<lparr>vd_addr = AData b, vd_len = 1024, vd_flags = (if write then 0 else VRING_DESC_F_WRITE) OR VRING_DESC_F_NEXT,
            vd_next = of_nat i2\<rparr>;
          d2 = \<lparr>vd_addr = AStatus i0, vd_len = 1, vd_flags = VRING_DESC_F_WRITE, vd_next = 0\<rparr>
      in s\<lparr>vops := (vops s)[i0 := op], vdesc := (vdesc s)[i0 := d0, i1 := d1, i2 := d2],
           info_status := (info_status s)[i0 := 0xff], bufs := (bufs s)[b := (bufs s ! b)\<lparr>b_disk := True\<rparr>],
           info_b := (info_b s)[i0 := Some b]\<rparr>)"

text \<open>
  The entry of the ring is written before the index is advanced; the device then sees the entry.
\<close>

definition virtio_publish :: "nat \<Rightarrow> ('a kvirtio_scheme, unit) kfun" where
  "virtio_publish i0 =
     kbind (kmodify (\<lambda>s. s\<lparr>avail_ring := (avail_ring s)[unat (avail_idx s) mod NUM := of_nat i0]\<rparr>)) (\<lambda>_.
     kbind (kmodify (\<lambda>s. s\<lparr>avail_idx := avail_idx s + 1, todo := insert (unat (avail_ring s ! (unat (avail_idx s) mod NUM))) (todo s)\<rparr>)) (\<lambda>_.
     mmio_write 0x50 0))"

definition virtio_submit :: "nat \<Rightarrow> bool \<Rightarrow> ('a kvirtio_scheme, nat) kfun" where
  "virtio_submit b write = kbind alloc3_desc (\<lambda>r.
     case r of
       Some [i0, i1, i2] \<Rightarrow>
         kbind (kmodify (virtio_format b write i0 i1 i2)) (\<lambda>_.
         kbind (virtio_publish i0) (\<lambda>_. kret i0))
     | _ \<Rightarrow> sleep ChDiskFree)"

definition virtio_finish :: "nat \<Rightarrow> nat \<Rightarrow> ('a kvirtio_scheme, unit) kfun" where
  "virtio_finish b i0 = kbind (kget (\<lambda>s. b_disk (bufs s ! b))) (\<lambda>busy.
     if busy then sleep (ChBufDisk b)
     else kbind (kmodify (\<lambda>s. s\<lparr>info_b := (info_b s)[i0 := None]\<rparr>)) (\<lambda>_. free_chain i0))"

subsection \<open>The interrupt\<close>

text \<open>The loop runs once for each entry between the two indices.\<close>

fun virtio_intr_loop :: "nat \<Rightarrow> ('a kvirtio_scheme, unit) kfun" where
  "virtio_intr_loop 0 = kret ()"
| "virtio_intr_loop (Suc k) = kbind (kget (\<lambda>s. unat (used_ring s ! (unat (used_idx s) mod NUM)))) (\<lambda>id.
     kbind (kget (\<lambda>s. (info_status s ! id, info_b s ! id))) (\<lambda>(st, ib).
     if st \<noteq> 0 then kpanic ''virtio_disk_intr status''
     else case ib of
       None \<Rightarrow> null_deref
     | Some b \<Rightarrow> kbind (upd_buf b (\<lambda>x. x\<lparr>b_disk := False\<rparr>)) (\<lambda>_.
         kbind (wakeup (ChBufDisk b)) (\<lambda>_.
         kbind (kmodify (\<lambda>s. s\<lparr>used_idx := used_idx s + 1\<rparr>)) (\<lambda>_. virtio_intr_loop k)))))"

definition virtio_disk_intr :: "uint32 \<Rightarrow> ('a kvirtio_scheme, unit) kfun" where
  "virtio_disk_intr istatus = kbind (mmio_write 0x64 (istatus AND 3)) (\<lambda>_.
     kbind (kget (\<lambda>s. unat (dev_used_idx s - used_idx s))) (\<lambda>n. virtio_intr_loop n))"

end
