(* ===== verification/Ring.thy ===== *)
theory Ring
  imports Prelude
begin

text \<open>
  Ring buffers with free-running machine-word indices, the scheme shared by pipes, the
  console and the UART driver: an index is reduced modulo the size only when the array is
  accessed, and differences of indices count elements even after they wrap around.
\<close>

definition ring_contents :: "nat \<Rightarrow> 'b list \<Rightarrow> 'w::len word \<Rightarrow> 'w word \<Rightarrow> 'b list" where
  "ring_contents N buf r w = map (\<lambda>k. buf ! (unat (r + of_nat k) mod N)) [0..<unat (w - r)]"

lemma length_ring_contents [simp]: "length (ring_contents N buf r w) = unat (w - r)"
  by (simp add: ring_contents_def)

lemma ring_contents_empty [simp]: "ring_contents N buf r r = []"
  by (simp add: ring_contents_def)

lemma ring_contents_Nil_iff: "ring_contents N buf r w = [] \<longleftrightarrow> w = r"
  by (simp add: ring_contents_def unat_eq_0)

locale ring =
  fixes N :: nat and W :: "'w::len itself"
  assumes size_pos: "0 < N" and size_dvd: "N dvd 2 ^ LENGTH('w)" and size_less: "N < 2 ^ LENGTH('w)"
begin

lemma index_add: "unat (r + of_nat k :: 'w word) mod N = (unat r + k) mod N"
  using size_dvd by (simp add: unat_word_ariths unat_of_nat mod_mod_cancel mod_simps)

lemma index_inj:
  assumes "i < N" and "j < N" and "(a + i) mod N = (a + j) mod N"
  shows "i = j"
proof -
  have "i mod N = j mod N" using assms(3) by (simp add: mod_add_left_eq nat_mod_eq_iff mod_eq_nat1E)
  then show ?thesis using assms(1,2) by simp
qed

lemma count_put: "unat (w - r :: 'w word) < N \<Longrightarrow> unat (w + 1 - r) = Suc (unat (w - r))"
proof -
  assume "unat (w - r) < N"
  then have "unat (w - r) + 1 < 2 ^ LENGTH('w)" using size_less by simp
  moreover have "w + 1 - r = (w - r) + 1" by simp
  ultimately show ?thesis by (simp only: unat_word_ariths unat_1 mod_less Suc_eq_plus1)
qed

lemma count_get: "w \<noteq> r \<Longrightarrow> unat (w - r :: 'w word) = Suc (unat (w - (r + 1)))"
proof -
  assume "w \<noteq> r"
  then have "w - r \<noteq> 0" by simp
  moreover have "w - (r + 1) = (w - r) - 1" by simp
  ultimately show ?thesis by (metis Suc_pred' unat_gt_0 unat_minus_one)
qed

lemma full_iff: "unat (w - r :: 'w word) \<le> N \<Longrightarrow> w = r + of_nat N \<longleftrightarrow> unat (w - r) = N"
proof -
  have "w = r + of_nat N \<longleftrightarrow> w - r = of_nat N" by (auto simp: algebra_simps)
  also have "\<dots> \<longleftrightarrow> unat (w - r) = N"
    using size_less by (metis unat_of_nat_less word_unat_eq_iff)
  finally show ?thesis .
qed

lemma contents_put:
  assumes "length buf = N" and "unat (w - r :: 'w word) < N"
  shows "ring_contents N (buf[unat w mod N := c]) r (w + 1) = ring_contents N buf r w @ [c]"
proof -
  define n where "n = unat (w - r)"
  have w: "w = r + of_nat n" by (simp add: n_def)
  have slot: "unat w mod N = (unat r + n) mod N" unfolding w by (rule index_add)
  have "(unat r + n) mod N \<noteq> (unat r + k) mod N" if "k < n" for k
    using index_inj [of n k "unat r"] that assms(2) by (auto simp: n_def)
  moreover have "unat w mod N < length buf" using size_pos assms(1) by simp
  ultimately show ?thesis
    using count_put [OF assms(2)]
    by (simp add: ring_contents_def n_def [symmetric] index_add slot nth_list_update)
qed

lemma contents_get:
  assumes "w \<noteq> (r :: 'w word)"
  shows "ring_contents N buf r w = buf ! (unat r mod N) # ring_contents N buf (r + 1) w"
proof -
  have "[0..<unat (w - r)] = 0 # map Suc [0..<unat (w - (r + 1))]"
    unfolding count_get [OF assms] by (simp only: upt_conv_Cons map_Suc_upt zero_less_Suc)
  then show ?thesis by (simp add: ring_contents_def add.assoc comp_def)
qed

lemma contents_split:
  assumes "unat (m - r :: 'w word) \<le> unat (w - r)"
  shows "ring_contents N buf r w = ring_contents N buf r m @ ring_contents N buf m w"
proof -
  have "w - m = (w - r) - (m - r)" by simp
  then have "unat (w - m) = unat (w - r) - unat (m - r)"
    using assms by (metis unat_sub word_le_nat_alt)
  then have "[0..<unat (w - r)] = [0..<unat (m - r)] @ map (\<lambda>k. k + unat (m - r)) [0..<unat (w - m)]"
    using assms by (simp add: map_add_upt upt_add_eq_append [symmetric])
      (metis le_add_diff_inverse upt_add_eq_append zero_le)
  moreover have "r + of_nat (k + unat (m - r)) = m + of_nat k" for k by simp
  ultimately show ?thesis by (simp add: ring_contents_def comp_def add.commute)
qed

text \<open>Elements taken from the front, counted by the movement of the read index.\<close>

lemma contents_taken:
  assumes "ring_contents N buf r w = xs @ ring_contents N buf r' w"
  shows "xs = ring_contents N buf r (r' :: 'w word)"
proof -
  have len: "unat (w - r) = length xs + unat (w - r')" using arg_cong [OF assms, of length] by simp
  have "r' - r = (w - r) - (w - r')" by simp
  moreover have "unat ((w - r) - (w - r')) = unat (w - r) - unat (w - r')"
    by (rule unat_sub) (simp add: word_le_nat_alt len)
  ultimately have n: "unat (r' - r) = length xs" using len by simp
  then have "ring_contents N buf r w = ring_contents N buf r r' @ ring_contents N buf r' w"
    using len by (intro contents_split) simp
  with assms show ?thesis by simp
qed

lemma contents_last:
  assumes "w \<noteq> (r :: 'w word)"
  shows "ring_contents N buf r w = ring_contents N buf r (w - 1) @ [buf ! (unat (w - 1) mod N)]"
proof -
  have "w - 1 - r = (w - r) - 1" "w - r \<noteq> 0" using assms by auto
  then have "unat (w - r) = Suc (unat (w - 1 - r))" by (metis Suc_pred' unat_gt_0 unat_minus_one)
  moreover have "r + of_nat (unat (w - 1 - r)) = w - 1" by simp
  ultimately show ?thesis by (simp add: ring_contents_def)
qed

end

end
