(* ===== verification/Virtio_Props.thy ===== *)
theory Virtio_Props
  imports Virtio Ring
begin

text \<open>
  The disk driver keeps its descriptors in order under every interleaving of requests, completions
  and interrupts, and a request that has finished has moved its block.
\<close>

interpretation used: ring NUM "TYPE(16)"
  by unfold_locales simp_all

subsection \<open>The device\<close>

text \<open>
  What the virtio specification says about a block request: the device follows the chain from its head
  through the header, the data and the status byte, transfers one block, writes 0 to the status,
  puts the head into the used ring and advances the ring's index.
\<close>

definition transfer :: "nat \<Rightarrow> 'a kvirtio_scheme \<Rightarrow> 'a kvirtio_scheme" where
  "transfer h s =
     (let d0 = vdesc s ! h; d1 = vdesc s ! unat (vd_next d0); d2 = vdesc s ! unat (vd_next d1);
          op = (case vd_addr d0 of AOps k \<Rightarrow> vops s ! k | _ \<Rightarrow> \<lparr>vr_type = 0, vr_reserved = 0, vr_sector = 0\<rparr>);
          blk = ucast (vr_sector op div 2);
          s1 = (case vd_addr d1 of
             AData b \<Rightarrow>
               if vr_type op = VIRTIO_BLK_T_OUT then s\<lparr>disk := (disk s)(blk := b_data (bufs s ! b))\<rparr>
               else s\<lparr>bufs := (bufs s)[b := (bufs s ! b)\<lparr>b_data := disk s blk\<rparr>]\<rparr>
           | _ \<Rightarrow> s);
          s2 = (case vd_addr d2 of AStatus k \<Rightarrow> s1\<lparr>info_status := (info_status s1)[k := 0]\<rparr> | _ \<Rightarrow> s1)
      in s2\<lparr>used_ring := (used_ring s2)[unat (dev_used_idx s2) mod NUM := of_nat h], dev_used_idx := dev_used_idx s2 + 1,
            todo := todo s2 - {h}\<rparr>)"

definition device_ok :: "('a kvirtio_scheme \<Rightarrow> 'a kvirtio_scheme \<Rightarrow> bool) \<Rightarrow> bool" where
  "device_ok dev \<longleftrightarrow> (\<forall>s s'. dev s s' \<longrightarrow> (\<exists>h \<in> todo s. s' = transfer h s))"

subsection \<open>Runs of the driver\<close>

definition in_flight :: "'a kvirtio_scheme \<Rightarrow> nat \<Rightarrow> nat \<Rightarrow> bool" where
  "in_flight s h b \<longleftrightarrow> h < NUM \<and> info_b s ! h = Some b"

text \<open>
  A caller holds the lock of its buffer, and the cache has one buffer per block, so a buffer is not
  handed to the driver while a request for it or for its block is under way.
\<close>

definition may_submit :: "'a kvirtio_scheme \<Rightarrow> nat \<Rightarrow> bool" where
  "may_submit s b \<longleftrightarrow> b < length (bufs s) \<and> b_blockno (bufs s ! b) < 2 ^ 31 \<and>
     (\<forall>h b'. in_flight s h b' \<longrightarrow> b' \<noteq> b \<and> b_blockno (bufs s ! b') \<noteq> b_blockno (bufs s ! b))"

inductive vstep :: "('a kvirtio_scheme \<Rightarrow> 'a kvirtio_scheme \<Rightarrow> bool) \<Rightarrow> 'a kvirtio_scheme \<Rightarrow> 'a kvirtio_scheme \<Rightarrow> bool" for dev where
  submit: "may_submit s b \<Longrightarrow> virtio_submit b w s = Ok h s' \<Longrightarrow> vstep dev s s'"
| submit_wait: "may_submit s b \<Longrightarrow> virtio_submit b w s = Blocked c s' \<Longrightarrow> vstep dev s s'"
| device: "dev s s' \<Longrightarrow> vstep dev s s'"
| intr: "virtio_disk_intr v s = Ok () s' \<Longrightarrow> vstep dev s s'"
| finish: "in_flight s h b \<Longrightarrow> virtio_finish b h s = Ok () s' \<Longrightarrow> vstep dev s s'"
| finish_wait: "in_flight s h b \<Longrightarrow> virtio_finish b h s = Blocked c s' \<Longrightarrow> vstep dev s s'"
| holder: "(\<And>h. \<not> in_flight s h b) \<Longrightarrow> vstep dev s (s\<lparr>bufs := (bufs s)[b := x]\<rparr>)"

text \<open>
  Besides the driver and the device, the holder of a buffer that is not with the driver changes it as
  it likes.  The driver starts from the state that \<^verbatim>\<open>virtio_disk_init\<close> leaves.\<close>

definition virtio_start :: "'a kvirtio_scheme \<Rightarrow> bool" where
  "virtio_start s \<longleftrightarrow> vdesc s = replicate NUM zero_desc \<and> avail_idx s = 0 \<and> length (avail_ring s) = NUM \<and> dev_used_idx s = 0 \<and>
     length (used_ring s) = NUM \<and> vfree s = replicate NUM True \<and> used_idx s = 0 \<and> info_b s = replicate NUM None \<and>
     length (info_status s) = NUM \<and> length (vops s) = NUM \<and> todo s = {} \<and> (\<forall>x \<in> set (bufs s). \<not> b_disk x) \<and>
     curproc s \<noteq> None"

inductive vreach :: "('a kvirtio_scheme \<Rightarrow> 'a kvirtio_scheme \<Rightarrow> bool) \<Rightarrow> 'a kvirtio_scheme \<Rightarrow> bool" for dev where
  start: "virtio_start s \<Longrightarrow> vreach dev s"
| step: "vreach dev s \<Longrightarrow> vstep dev s s' \<Longrightarrow> vreach dev s'"

subsection \<open>The invariant\<close>

text \<open>A request: its second and third descriptor, its buffer, and whether it writes.\<close>

record request =
  r_data :: nat
  r_stat :: nat
  r_buf :: nat
  r_write :: bool

definition parts :: "nat \<Rightarrow> request \<Rightarrow> nat set" where
  "parts h r = {h, r_data r, r_stat r}"

definition formatted :: "'a kvirtio_scheme \<Rightarrow> nat \<Rightarrow> request \<Rightarrow> bool" where
  "formatted s h r \<longleftrightarrow> parts h r \<subseteq> {..<NUM} \<and> distinct [h, r_data r, r_stat r] \<and> info_b s ! h = Some (r_buf r) \<and>
     r_buf r < length (bufs s) \<and> b_blockno (bufs s ! r_buf r) < 2 ^ 31 \<and>
     vdesc s ! h = \<lparr>vd_addr = AOps h, vd_len = 16, vd_flags = VRING_DESC_F_NEXT, vd_next = of_nat (r_data r)\<rparr> \<and>
     vdesc s ! r_data r = \<lparr>vd_addr = AData (r_buf r), vd_len = 1024,
       vd_flags = (if r_write r then 0 else VRING_DESC_F_WRITE) OR VRING_DESC_F_NEXT, vd_next = of_nat (r_stat r)\<rparr> \<and>
     vdesc s ! r_stat r = \<lparr>vd_addr = AStatus h, vd_len = 1, vd_flags = VRING_DESC_F_WRITE, vd_next = 0\<rparr> \<and>
     vops s ! h = \<lparr>vr_type = (if r_write r then VIRTIO_BLK_T_OUT else VIRTIO_BLK_T_IN),
       vr_reserved = 0, vr_sector = ucast (b_blockno (bufs s ! r_buf r) * 2)\<rparr>"

text \<open>Heads the device has returned and the driver has not looked at.\<close>

definition returned :: "'a kvirtio_scheme \<Rightarrow> nat list" where
  "returned s = map unat (ring_contents NUM (used_ring s) (used_idx s) (dev_used_idx s))"

definition sizes_ok :: "'a kvirtio_scheme \<Rightarrow> bool" where
  "sizes_ok s \<longleftrightarrow> length (vdesc s) = NUM \<and> length (avail_ring s) = NUM \<and> length (used_ring s) = NUM \<and> length (vfree s) = NUM \<and>
     length (info_b s) = NUM \<and> length (info_status s) = NUM \<and> length (vops s) = NUM \<and> curproc s \<noteq> None"

definition apart :: "'a kvirtio_scheme \<Rightarrow> (nat \<rightharpoonup> request) \<Rightarrow> bool" where
  "apart s A \<longleftrightarrow> (\<forall>h r h' r'. A h = Some r \<longrightarrow> A h' = Some r' \<longrightarrow> h \<noteq> h' \<longrightarrow>
     parts h r \<inter> parts h' r' = {} \<and> r_buf r \<noteq> r_buf r' \<and> b_blockno (bufs s ! r_buf r) \<noteq> b_blockno (bufs s ! r_buf r'))"

definition vinv :: "'a kvirtio_scheme \<Rightarrow> (nat \<rightharpoonup> request) \<Rightarrow> bool" where
  "vinv s A \<longleftrightarrow> sizes_ok s \<and> (\<forall>h r. A h = Some r \<longrightarrow> formatted s h r) \<and> (\<forall>h < NUM. A h = None \<longrightarrow> info_b s ! h = None) \<and>
     apart s A \<and> (\<forall>i < NUM. \<not> vfree s ! i \<longleftrightarrow> (\<exists>h r. A h = Some r \<and> i \<in> parts h r)) \<and>
     todo s \<subseteq> dom A \<and> distinct (returned s) \<and> set (returned s) \<subseteq> dom A - todo s \<and>
     (\<forall>h r. A h = Some r \<longrightarrow> (b_disk (bufs s ! r_buf r) \<longleftrightarrow> h \<in> todo s \<union> set (returned s))) \<and>
     (\<forall>h r. A h = Some r \<longrightarrow> h \<notin> todo s \<longrightarrow> info_status s ! h = 0 \<and>
        disk s (b_blockno (bufs s ! r_buf r)) = b_data (bufs s ! r_buf r))"

text \<open>What a step of the driver that moves no data keeps.\<close>

definition same_data :: "'a kvirtio_scheme \<Rightarrow> 'a kvirtio_scheme \<Rightarrow> bool" where
  "same_data s t \<longleftrightarrow> disk t = disk s \<and> length (bufs t) = length (bufs s) \<and>
     (\<forall>i < length (bufs s). b_blockno (bufs t ! i) = b_blockno (bufs s ! i) \<and> b_data (bufs t ! i) = b_data (bufs s ! i))"

lemma same_data_refl [simp]: "same_data s s" "same_data s (t\<lparr>procs := p\<rparr>) \<longleftrightarrow> same_data s t" "same_data s (t\<lparr>mmio := m\<rparr>) \<longleftrightarrow> same_data s t"
  "same_data (s\<lparr>mmio := m\<rparr>) t \<longleftrightarrow> same_data s t"
  by (auto simp: same_data_def)

lemma set_disk_nth [simp]:
  "b_blockno (bs[b := (bs ! b)\<lparr>b_disk := v\<rparr>] ! i) = b_blockno (bs ! i)" "b_data (bs[b := (bs ! b)\<lparr>b_disk := v\<rparr>] ! i) = b_data (bs ! i)"
proof -
  have "bs[b := (bs ! b)\<lparr>b_disk := v\<rparr>] ! i = (if i = b \<and> b < length bs then (bs ! b)\<lparr>b_disk := v\<rparr> else bs ! i)"
    by (cases "b < length bs") (auto simp: nth_list_update list_update_beyond)
  then show "b_blockno (bs[b := (bs ! b)\<lparr>b_disk := v\<rparr>] ! i) = b_blockno (bs ! i)" "b_data (bs[b := (bs ! b)\<lparr>b_disk := v\<rparr>] ! i) = b_data (bs ! i)"
    by auto
qed

lemma same_data_trans: "same_data s t \<Longrightarrow> same_data t u \<Longrightarrow> same_data s u"
  by (simp add: same_data_def)

lemma start_inv: "virtio_start s \<Longrightarrow> vinv s Map.empty"
  by (auto simp: virtio_start_def vinv_def sizes_ok_def apart_def returned_def)

lemma vinvD:
  assumes "vinv s A"
  shows "sizes_ok s" "A h = Some r \<Longrightarrow> formatted s h r" "h < NUM \<Longrightarrow> A h = None \<Longrightarrow> info_b s ! h = None" "apart s A"
    "i < NUM \<Longrightarrow> \<not> vfree s ! i \<longleftrightarrow> (\<exists>h r. A h = Some r \<and> i \<in> parts h r)" "todo s \<subseteq> dom A" "distinct (returned s)"
    "set (returned s) \<subseteq> dom A - todo s" "A h = Some r \<Longrightarrow> b_disk (bufs s ! r_buf r) \<longleftrightarrow> h \<in> todo s \<union> set (returned s)"
    "A h = Some r \<Longrightarrow> h \<notin> todo s \<Longrightarrow> info_status s ! h = 0 \<and>
        disk s (b_blockno (bufs s ! r_buf r)) = b_data (bufs s ! r_buf r)"
  using assms unfolding vinv_def by blast+

lemma vinv_procs [simp]: "vinv (s\<lparr>procs := p\<rparr>) A \<longleftrightarrow> vinv s A" "vinv (s\<lparr>mmio := m\<rparr>) A \<longleftrightarrow> vinv s A"
  by (simp_all add: vinv_def sizes_ok_def formatted_def apart_def returned_def)

lemma head_less: "vinv s A \<Longrightarrow> A h = Some r \<Longrightarrow> h < NUM"
  using vinvD(2) by (fastforce simp: formatted_def parts_def)

subsection \<open>The device\<close>

lemma sector_block:
  assumes "bn < (2 ^ 31 :: uint32)"
  shows "(ucast ((ucast (bn * 2) :: uint64) div 2) :: uint32) = bn"
proof -
  have b: "unat bn < 2 ^ 31" using assms by (simp add: word_less_nat_alt)
  then have m: "unat (bn * 2) = unat bn * 2" by (simp add: unat_word_ariths)
  have "unat (ucast (bn * 2) :: uint64) = unat bn * 2"
    unfolding m [symmetric] unsigned_ucast_eq using m b by (intro take_bit_nat_eq_self) simp
  then have "unat ((ucast (bn * 2) :: uint64) div 2) = unat bn" by (simp add: unat_div)
  then have "unat (ucast ((ucast (bn * 2) :: uint64) div 2) :: uint32) = unat bn"
    unfolding unsigned_ucast_eq using b by (simp add: take_bit_nat_eq_self)
  then show ?thesis by (simp only: word_unat_eq_iff)
qed

lemma returned_room:
  assumes "vinv s A" "h \<in> todo s"
  shows "unat (dev_used_idx s - used_idx s) < NUM"
proof -
  have "set (returned s) \<subseteq> {..<NUM} - {h}" using vinvD(8) [OF assms(1)] head_less [OF assms(1)] assms(2) by auto
  then have "card (set (returned s)) \<le> card ({..<NUM} - {h})" by (intro card_mono) auto
  moreover have "h < NUM" using vinvD(6) [OF assms(1)] assms(2) head_less [OF assms(1)] by auto
  moreover have "card (set (returned s)) = length (returned s)" using vinvD(7) [OF assms(1)] by (rule distinct_card)
  ultimately have "length (returned s) < NUM" by simp
  then show ?thesis by (simp add: returned_def)
qed

lemma transfer_eq:
  fixes s :: "'a kvirtio_scheme"
  assumes "formatted s h r"
  defines "bn \<equiv> b_blockno (bufs s ! r_buf r)"
  shows "transfer h s = s\<lparr>
    disk := (if r_write r then (disk s)(bn := b_data (bufs s ! r_buf r)) else disk s),
    bufs := (if r_write r then bufs s else (bufs s)[r_buf r := (bufs s ! r_buf r)\<lparr>b_data := disk s bn\<rparr>]),
    info_status := (info_status s)[h := 0],
    used_ring := (used_ring s)[unat (dev_used_idx s) mod NUM := of_nat h], dev_used_idx := dev_used_idx s + 1,
    todo := todo s - {h}\<rparr>"
proof -
  have f: "h < NUM" "r_data r < NUM" "r_stat r < NUM" "bn < 2 ^ 31" using assms by (auto simp: formatted_def parts_def)
  have u: "unat (of_nat i :: uint16) = i" if "i < NUM" for i using that by (simp add: unat_of_nat_less)
  show ?thesis using assms(1) sector_block [OF f(4)] f(2,3)
    by (simp add: transfer_def formatted_def Let_def u bn_def)
qed

lemma transfer_inv:
  fixes s :: "'a kvirtio_scheme"
  assumes inv: "vinv s A" and h: "h \<in> todo s"
  shows "vinv (transfer h s) A"
proof -
  obtain r where r: "A h = Some r" using vinvD(6) [OF inv] h by auto
  note f = vinvD(2) [OF inv r]
  define t where "t = transfer h s"
  note t = transfer_eq [OF f, folded t_def]
  have hn: "h < NUM" using head_less [OF inv r] .
  have len: "length (used_ring s) = NUM" "length (info_status s) = NUM" using vinvD(1) [OF inv] by (simp_all add: sizes_ok_def)
  have ret: "returned t = returned s @ [h]"
    using used.contents_put [OF len(1) returned_room [OF inv h], of "of_nat h"] hn
    by (simp add: returned_def t unat_of_nat_less)
  have "bufs t = (if r_write r then bufs s else (bufs s)[r_buf r := (bufs s ! r_buf r)\<lparr>b_data := disk s (b_blockno (bufs s ! r_buf r))\<rparr>])"
    by (simp add: t)
  then have b: "b_blockno (bufs t ! i) = b_blockno (bufs s ! i)" "b_disk (bufs t ! i) = b_disk (bufs s ! i)" "length (bufs t) = length (bufs s)" for i
    using f by (cases "i = r_buf r"; auto simp: formatted_def)+
  have "sizes_ok t" using vinvD(1) [OF inv] by (simp add: sizes_ok_def t)
  moreover have "formatted t h' r'" if "A h' = Some r'" for h' r'
    using vinvD(2) [OF inv that] by (simp add: formatted_def b) (simp add: t)
  moreover have "apart t A" using vinvD(4) [OF inv] by (simp add: apart_def b)
  moreover have "info_status t ! h' = 0 \<and> disk t (b_blockno (bufs t ! r_buf r')) = b_data (bufs t ! r_buf r')"
    if a: "A h' = Some r'" "h' \<notin> todo t" for h' r'
  proof (cases "h' = h")
    case True
    then show ?thesis using a r f len hn by (auto simp: t formatted_def)
  next
    case False
    then have "h' \<notin> todo s" using a by (simp add: t)
    moreover have "r_buf r' \<noteq> r_buf r" "b_blockno (bufs s ! r_buf r') \<noteq> b_blockno (bufs s ! r_buf r)"
      using vinvD(4) [OF inv] a(1) r False by (auto simp: apart_def)
    ultimately show ?thesis using vinvD(10) [OF inv a(1)] False by (simp add: t)
  qed
  moreover have "todo t = todo s - {h}" "vfree t = vfree s" "info_b t = info_b s" by (simp_all add: t)
  moreover have "h \<notin> set (returned s)" using vinvD(8) [OF inv] h by auto
  ultimately show ?thesis unfolding t_def [symmetric] vinv_def ret
    using vinvD(3,5-9) [OF inv] h r by (auto simp: b)
qed

subsection \<open>The interrupt\<close>

lemma intr_turn:
  fixes s :: "'a kvirtio_scheme"
  assumes inv: "vinv s A" and q: "returned s = h # q"
  obtains t where "virtio_intr_loop (Suc k) s = virtio_intr_loop k t" "vinv t A" "returned t = q" "same_data s t"
proof -
  obtain r where r: "A h = Some r" and hq: "h \<notin> todo s" using vinvD(8) [OF inv] q by auto
  note f = vinvD(2) [OF inv r] and st = vinvD(10) [OF inv r hq]
  define b where "b = r_buf r"
  have ne: "dev_used_idx s \<noteq> used_idx s" using q by (auto simp: returned_def)
  have ring: "ring_contents NUM (used_ring s) (used_idx s) (dev_used_idx s) = used_ring s ! (unat (used_idx s) mod NUM) #
      ring_contents NUM (used_ring s) (used_idx s + 1) (dev_used_idx s)" by (rule used.contents_get [OF ne])
  then have id: "unat (used_ring s ! (unat (used_idx s) mod NUM)) = h"
    and tl: "map unat (ring_contents NUM (used_ring s) (used_idx s + 1) (dev_used_idx s)) = q" using q by (simp_all add: returned_def)
  define t0 where "t0 = s\<lparr>bufs := (bufs s)[b := (bufs s ! b)\<lparr>b_disk := False\<rparr>], used_idx := used_idx s + 1\<rparr>"
  define t where "t = s\<lparr>bufs := (bufs s)[b := (bufs s ! b)\<lparr>b_disk := False\<rparr>],
      procs := wake_all (ChBufDisk b) (curproc s) (procs s), used_idx := used_idx s + 1\<rparr>"
  have tt: "t = t0\<lparr>procs := wake_all (ChBufDisk b) (curproc s) (procs s)\<rparr>" by (cases s) (simp add: t_def t0_def)
  have "virtio_intr_loop (Suc k) s = virtio_intr_loop k t"
    using f st id by (simp add: kbind_apply formatted_def upd_buf_def wakeup_Ok t_def b_def)
  moreover have ret: "returned t0 = q" using tl by (simp add: returned_def t0_def)
  moreover have "returned t = returned t0" by (simp add: returned_def tt)
  moreover have "vinv t0 A"
  proof -
    have b: "b < length (bufs s)" using f by (simp add: formatted_def b_def)
    then have bf: "b_blockno (bufs t0 ! i) = b_blockno (bufs s ! i)" "b_data (bufs t0 ! i) = b_data (bufs s ! i)"
        "b_disk (bufs t0 ! i) \<longleftrightarrow> i \<noteq> b \<and> b_disk (bufs s ! i)" "length (bufs t0) = length (bufs s)" for i
      by (cases "i = b"; simp add: t0_def)+
    have same: "vdesc t0 = vdesc s" "vops t0 = vops s" "info_b t0 = info_b s" "info_status t0 = info_status s" "disk t0 = disk s"
        "todo t0 = todo s" "vfree t0 = vfree s" "sizes_ok t0 \<longleftrightarrow> sizes_ok s"
      by (simp_all add: t0_def sizes_ok_def)
    have fm: "formatted t0 h' r' \<longleftrightarrow> formatted s h' r'" for h' r' by (simp add: formatted_def bf same)
    have "r_buf r' = b \<longleftrightarrow> h' = h" if "A h' = Some r'" for h' r'
      using vinvD(4) [OF inv] r that by (auto simp: apart_def b_def)
    with vinvD [OF inv] q ret hq show ?thesis
      unfolding vinv_def by (auto simp: fm bf same apart_def)
  qed
  moreover have "same_data s t0" by (simp add: same_data_def t0_def)
  ultimately show thesis using that [of t] by (simp add: tt)
qed

lemma intr_inv:
  fixes s :: "'a kvirtio_scheme"
  assumes "vinv s A" "length (returned s) = n"
  shows "\<exists>t. virtio_intr_loop n s = Ok () t \<and> vinv t A \<and> same_data s t \<and> returned t = []"
  using assms
proof (induction n arbitrary: s)
  case (Suc n)
  then obtain h q where q: "returned s = h # q" by (cases "returned s") auto
  from intr_turn [OF Suc.prems(1) q, of n] obtain t where
    t: "virtio_intr_loop (Suc n) s = virtio_intr_loop n t" "vinv t A" "returned t = q" "same_data s t" .
  from Suc.IH [OF t(2)] t(3) q Suc.prems(2) obtain u where
    "virtio_intr_loop n t = Ok () u" "vinv u A" "same_data t u" "returned u = []" by auto
  then show ?case unfolding t(1) using same_data_trans [OF t(4)] by blast
qed simp

subsection \<open>Freeing and allocating descriptors\<close>

lemma free_desc_Ok:
  fixes s :: "'a kvirtio_scheme"
  assumes "i < NUM" "\<not> vfree s ! i"
  shows "\<exists>p. free_desc i s = Ok () (s\<lparr>vdesc := (vdesc s)[i := zero_desc], vfree := (vfree s)[i := True], procs := p\<rparr>)"
  using assms by (simp add: free_desc_def kbind_apply wakeup_Ok) blast

lemma kvirtio_reorder:
  fixes s :: "'a kvirtio_scheme"
  shows "s\<lparr>vdesc := d, vfree := f, procs := p, vdesc := d', vfree := f', procs := p'\<rparr> = s\<lparr>vdesc := d', vfree := f', procs := p'\<rparr>"
  by (cases s) simp

lemma free_chain_three:
  fixes s :: "'a kvirtio_scheme"
  assumes f: "parts h r \<subseteq> {..<NUM}" "distinct [h, r_data r, r_stat r]" "sizes_ok s" "\<forall>i \<in> parts h r. \<not> vfree s ! i"
    and d: "vdesc s ! h = \<lparr>vd_addr = AOps h, vd_len = 16, vd_flags = VRING_DESC_F_NEXT, vd_next = of_nat (r_data r)\<rparr>"
      "vdesc s ! r_data r = \<lparr>vd_addr = AData b, vd_len = 1024, vd_flags = (if w then 0 else VRING_DESC_F_WRITE) OR VRING_DESC_F_NEXT,
         vd_next = of_nat (r_stat r)\<rparr>"
      "vdesc s ! r_stat r = \<lparr>vd_addr = AStatus h, vd_len = 1, vd_flags = VRING_DESC_F_WRITE, vd_next = 0\<rparr>"
  shows "\<exists>p. free_chain h s = Ok () (s\<lparr>vdesc := (vdesc s)[h := zero_desc, r_data r := zero_desc, r_stat r := zero_desc],
    vfree := (vfree s)[h := True, r_data r := True, r_stat r := True], procs := p\<rparr>)"
proof -
  have n: "h < NUM" "r_data r < NUM" "r_stat r < NUM" "length (vfree s) = NUM" "length (vdesc s) = NUM"
    and nf: "\<not> vfree s ! h" "\<not> vfree s ! r_data r" "\<not> vfree s ! r_stat r"
    using f by (auto simp: parts_def sizes_ok_def)
  have u: "unat (of_nat (r_data r) :: uint16) = r_data r" "unat (of_nat (r_stat r) :: uint16) = r_stat r"
    using n by (simp_all add: unat_of_nat_less)
  obtain p1 where 1: "free_desc h s = Ok () (s\<lparr>vdesc := (vdesc s)[h := zero_desc], vfree := (vfree s)[h := True], procs := p1\<rparr>)"
    (is "_ = Ok () ?s1") using free_desc_Ok [OF n(1) nf(1)] by blast
  have "\<not> vfree ?s1 ! r_data r" using nf(2) f(2) by simp
  from free_desc_Ok [OF n(2) this] obtain p2 where 2: "free_desc (r_data r) ?s1 =
      Ok () (s\<lparr>vdesc := (vdesc s)[h := zero_desc, r_data r := zero_desc], vfree := (vfree s)[h := True, r_data r := True], procs := p2\<rparr>)"
    (is "_ = Ok () ?s2") by (auto simp: kvirtio_reorder)
  have "\<not> vfree ?s2 ! r_stat r" using nf(3) f(2) by simp
  from free_desc_Ok [OF n(3) this] obtain p3 where 3: "free_desc (r_stat r) ?s2 = Ok () (s\<lparr>
      vdesc := (vdesc s)[h := zero_desc, r_data r := zero_desc, r_stat r := zero_desc],
      vfree := (vfree s)[h := True, r_data r := True, r_stat r := True], procs := p3\<rparr>)" by (auto simp: kvirtio_reorder)
  have fl: "((if w then 0 else 2) OR 1) AND 1 \<noteq> (0 :: uint16)" "2 AND 1 = (0 :: uint16)" by (cases w; simp)+
  have run: "free_chain_loop (Suc (Suc (Suc k))) h s = Ok () (s\<lparr>
      vdesc := (vdesc s)[h := zero_desc, r_data r := zero_desc, r_stat r := zero_desc],
      vfree := (vfree s)[h := True, r_data r := True, r_stat r := True], procs := p3\<rparr>)" for k
    using 1 2 3 d f(2) u fl by (simp add: kbind_apply)
  have "NUM + 1 = Suc (Suc (Suc 6))" by simp
  then have "free_chain h s = free_chain_loop (Suc (Suc (Suc 6))) h s" unfolding free_chain_def by (rule arg_cong)
  then show ?thesis unfolding run by blast
qed

text \<open>A request leaves: its descriptors are free again and the others are untouched.\<close>

lemma vinv_remove:
  fixes s t :: "'a kvirtio_scheme"
  assumes inv: "vinv s A" and r: "A h = Some r" and out: "h \<notin> todo s" "h \<notin> set (returned s)"
    and t: "sizes_ok t" "info_b t = (info_b s)[h := None]" "bufs t = bufs s" "vops t = vops s" "disk t = disk s"
      "info_status t = info_status s" "todo t = todo s" "returned t = returned s"
      "\<And>i. i \<notin> parts h r \<Longrightarrow> vdesc t ! i = vdesc s ! i" "\<And>i. i < NUM \<Longrightarrow> vfree t ! i \<longleftrightarrow> vfree s ! i \<or> i \<in> parts h r"
  shows "vinv t (A(h := None))"
proof -
  have hn: "h < NUM" "length (info_b s) = NUM" using head_less [OF inv r] vinvD(1) [OF inv] by (simp_all add: sizes_ok_def)
  have ap: "parts h' r' \<inter> parts h r = {}" if "A h' = Some r'" "h' \<noteq> h" for h' r'
    using vinvD(4) [OF inv] r that unfolding apart_def by blast
  have "formatted t h' r'" if a: "(A(h := None)) h' = Some r'" for h' r'
  proof -
    have a': "A h' = Some r'" "h' \<noteq> h" using a by (auto split: if_splits)
    then have "vdesc t ! i = vdesc s ! i" if "i \<in> parts h' r'" for i using ap t(9) that by blast
    then show ?thesis using vinvD(2) [OF inv a'(1)] a'(2) t by (simp add: formatted_def parts_def)
  qed
  moreover have "apart t (A(h := None))" using vinvD(4) [OF inv] t(3) unfolding apart_def by (auto split: if_splits)
  moreover have "\<not> vfree t ! i \<longleftrightarrow> (\<exists>h' r'. (A(h := None)) h' = Some r' \<and> i \<in> parts h' r')" if i: "i < NUM" for i
  proof -
    have "\<not> vfree t ! i \<longleftrightarrow> (\<exists>h' r'. A h' = Some r' \<and> i \<in> parts h' r') \<and> i \<notin> parts h r"
      using t(10) [OF i] vinvD(5) [OF inv i] by auto
    also have "\<dots> \<longleftrightarrow> (\<exists>h' r'. A h' = Some r' \<and> h' \<noteq> h \<and> i \<in> parts h' r')" using ap r by (metis disjoint_iff option.inject)
    also have "\<dots> \<longleftrightarrow> (\<exists>h' r'. (A(h := None)) h' = Some r' \<and> i \<in> parts h' r')" by (metis fun_upd_apply option.distinct(1))
    finally show ?thesis .
  qed
  moreover have "\<forall>h' < NUM. (A(h := None)) h' = None \<longrightarrow> info_b t ! h' = None"
    using vinvD(3) [OF inv] hn t(2) by (auto simp: nth_list_update)
  moreover have "todo t \<subseteq> dom (A(h := None))" "distinct (returned t)" "set (returned t) \<subseteq> dom (A(h := None)) - todo t"
    using vinvD(6-8) [OF inv] out t by auto
  moreover have "b_disk (bufs t ! r_buf r') \<longleftrightarrow> h' \<in> todo t \<union> set (returned t)" if "(A(h := None)) h' = Some r'" for h' r'
    using vinvD(9) [OF inv, of h' r'] that t by (auto split: if_splits)
  moreover have "info_status t ! h' = 0 \<and> disk t (b_blockno (bufs t ! r_buf r')) = b_data (bufs t ! r_buf r')"
    if "(A(h := None)) h' = Some r'" "h' \<notin> todo t" for h' r'
    using vinvD(10) [OF inv, of h' r'] that t by (auto split: if_splits)
  ultimately show ?thesis using t(1) unfolding vinv_def by blast
qed

lemma finish_inv:
  fixes s :: "'a kvirtio_scheme"
  assumes inv: "vinv s A" and fl: "in_flight s h b"
  shows "(\<exists>s'. virtio_finish b h s = Ok () s' \<and> vinv s' (A(h := None)) \<and> same_data s s' \<and> h \<notin> todo s \<and> info_b s' ! h = None) \<or>
    (\<exists>s'. virtio_finish b h s = Blocked (ChBufDisk b) s' \<and> vinv s' A \<and> same_data s s')"
proof -
  have hn: "h < NUM" "info_b s ! h = Some b" using fl by (simp_all add: in_flight_def)
  obtain r where r: "A h = Some r" using vinvD(3) [OF inv hn(1)] hn(2) by (cases "A h") auto
  note f = vinvD(2) [OF inv r] and sz = vinvD(1) [OF inv]
  have b: "b = r_buf r" using f hn(2) by (simp add: formatted_def)
  show ?thesis
  proof (cases "b_disk (bufs s ! b)")
    case True
    obtain i where "curproc s = Some i" using sz by (auto simp: sizes_ok_def)
    then show ?thesis using True inv
      by (simp add: virtio_finish_def kbind_apply sleep_def myproc_def upd_proc_def)
  next
    case False
    then have out: "h \<notin> todo s" "h \<notin> set (returned s)" using vinvD(9) [OF inv r] b by auto
    define s1 where "s1 = s\<lparr>info_b := (info_b s)[h := None]\<rparr>"
    have nf: "\<forall>i \<in> parts h r. \<not> vfree s ! i" using vinvD(5) [OF inv] f r by (auto simp: formatted_def)
    have "\<exists>p. free_chain h s1 = Ok () (s1\<lparr>vdesc := (vdesc s1)[h := zero_desc, r_data r := zero_desc, r_stat r := zero_desc],
        vfree := (vfree s1)[h := True, r_data r := True, r_stat r := True], procs := p\<rparr>)"
      by (rule free_chain_three [where b = "r_buf r" and w = "r_write r"]) (use f sz nf in \<open>auto simp: formatted_def s1_def sizes_ok_def\<close>)
    then obtain p where run: "virtio_finish b h s = Ok () (s1\<lparr>vdesc := (vdesc s1)[h := zero_desc, r_data r := zero_desc, r_stat r := zero_desc],
        vfree := (vfree s1)[h := True, r_data r := True, r_stat r := True], procs := p\<rparr>)"
      using False by (auto simp: virtio_finish_def kbind_apply s1_def)
    define t where "t = s1\<lparr>vdesc := (vdesc s1)[h := zero_desc, r_data r := zero_desc, r_stat r := zero_desc],
        vfree := (vfree s1)[h := True, r_data r := True, r_stat r := True]\<rparr>"
    have "vinv t (A(h := None))"
    proof (rule vinv_remove [OF inv r out])
      show "vdesc t ! i = vdesc s ! i" if "i \<notin> parts h r" for i using that by (auto simp: t_def s1_def parts_def)
      show "vfree t ! i \<longleftrightarrow> vfree s ! i \<or> i \<in> parts h r" if "i < NUM" for i
        using that sz f by (auto simp: t_def s1_def parts_def formatted_def sizes_ok_def nth_list_update)
    qed (use sz in \<open>simp_all add: t_def s1_def sizes_ok_def returned_def\<close>)
    moreover have "same_data s t" "info_b t ! h = None" using hn(1) sz by (simp_all add: same_data_def t_def s1_def sizes_ok_def)
    ultimately show ?thesis using run out(1) by (auto simp: t_def)
  qed
qed

lemma free_descs:
  fixes s :: "'a kvirtio_scheme"
  assumes "distinct idx" "\<forall>i \<in> set idx. i < NUM \<and> \<not> vfree s ! i" "length (vfree s) = NUM" "length (vdesc s) = NUM"
  shows "\<exists>p d f. kforeach idx free_desc s = Ok () (s\<lparr>vdesc := d, vfree := f, procs := p\<rparr>) \<and> length d = NUM \<and> length f = NUM \<and>
    (\<forall>j. j \<notin> set idx \<longrightarrow> d ! j = vdesc s ! j) \<and> (\<forall>j < NUM. f ! j \<longleftrightarrow> vfree s ! j \<or> j \<in> set idx)"
  using assms
proof (induction idx arbitrary: s)
  case Nil
  show ?case by (rule exI [of _ "procs s"], rule exI [of _ "vdesc s"], rule exI [of _ "vfree s"]) (use Nil in simp)
next
  case (Cons i idx)
  obtain p where 1: "free_desc i s = Ok () (s\<lparr>vdesc := (vdesc s)[i := zero_desc], vfree := (vfree s)[i := True], procs := p\<rparr>)"
    (is "_ = Ok () ?t") using free_desc_Ok [of i s] Cons.prems by auto
  have "\<forall>j \<in> set idx. j < NUM \<and> \<not> vfree ?t ! j" using Cons.prems(1-3) by (auto simp: nth_list_update)
  from Cons.IH [of ?t] this Cons.prems obtain p' d f where
    2: "kforeach idx free_desc ?t = Ok () (?t\<lparr>vdesc := d, vfree := f, procs := p'\<rparr>)" "length d = NUM" "length f = NUM"
    "\<forall>j. j \<notin> set idx \<longrightarrow> d ! j = vdesc ?t ! j" "\<forall>j < NUM. f ! j \<longleftrightarrow> vfree ?t ! j \<or> j \<in> set idx" by auto
  have "kforeach (i # idx) free_desc s = Ok () (s\<lparr>vdesc := d, vfree := f, procs := p'\<rparr>)"
    using 1 2(1) by (simp add: kbind_apply kvirtio_reorder)
  moreover have "\<forall>j. j \<notin> set (i # idx) \<longrightarrow> d ! j = vdesc s ! j" using 2(4) by simp
  moreover have "\<forall>j < NUM. f ! j \<longleftrightarrow> vfree s ! j \<or> j \<in> set (i # idx)" using 2(5) Cons.prems(2,3) by (auto simp: nth_list_update)
  ultimately show ?case using 2(2,3) by blast
qed

lemma alloc_descs_spec:
  fixes s :: "'a kvirtio_scheme"
  assumes "distinct idx" "\<forall>i \<in> set idx. i < NUM \<and> \<not> vfree s ! i" "length (vfree s) = NUM" "length (vdesc s) = NUM"
  shows "(\<exists>l f. alloc_descs k idx s = Ok (Some (idx @ l)) (s\<lparr>vfree := f\<rparr>) \<and> length l = k \<and> distinct l \<and> length f = NUM \<and>
      (\<forall>i \<in> set l. i < NUM \<and> vfree s ! i) \<and> (\<forall>j < NUM. f ! j \<longleftrightarrow> vfree s ! j \<and> j \<notin> set l)) \<or>
    (\<exists>p d f. alloc_descs k idx s = Ok None (s\<lparr>vdesc := d, vfree := f, procs := p\<rparr>) \<and> length d = NUM \<and> length f = NUM \<and>
      (\<forall>j. j < NUM \<longrightarrow> \<not> vfree s ! j \<longrightarrow> j \<notin> set idx \<longrightarrow> d ! j = vdesc s ! j) \<and> (\<forall>j < NUM. f ! j \<longleftrightarrow> vfree s ! j \<or> j \<in> set idx))"
  using assms
proof (induction k arbitrary: idx s)
  case 0
  show ?case by (rule disjI1, rule exI [of _ "[]"], rule exI [of _ "vfree s"]) (use 0 in simp)
next
  case (Suc k)
  show ?case
  proof (cases "find (\<lambda>i. vfree s ! i) [0..<NUM]")
    case None
    from free_descs [OF Suc.prems] obtain p d f where
      1: "kforeach idx free_desc s = Ok () (s\<lparr>vdesc := d, vfree := f, procs := p\<rparr>)" "length d = NUM" "length f = NUM"
      "\<forall>j. j \<notin> set idx \<longrightarrow> d ! j = vdesc s ! j" "\<forall>j < NUM. f ! j \<longleftrightarrow> vfree s ! j \<or> j \<in> set idx" by blast
    have "alloc_descs (Suc k) idx s = Ok None (s\<lparr>vdesc := d, vfree := f, procs := p\<rparr>)"
      using None 1(1) by (simp add: alloc_desc_def kbind_apply)
    with 1 show ?thesis by (intro disjI2 exI [of _ p] exI [of _ d] exI [of _ f]) simp
  next
    case (Some i)
    then have i: "i < NUM" "vfree s ! i" by (auto simp: find_Some_iff)
    define t where "t = s\<lparr>vfree := (vfree s)[i := False]\<rparr>"
    have step: "alloc_descs (Suc k) idx s = alloc_descs k (idx @ [i]) t"
      using Some by (simp add: alloc_desc_def kbind_apply t_def)
    have ft: "vfree t ! j \<longleftrightarrow> vfree s ! j \<and> j \<noteq> i" if "j < NUM" for j using that Suc.prems(3) i by (auto simp: t_def nth_list_update)
    have pre: "distinct (idx @ [i])" "\<forall>j \<in> set (idx @ [i]). j < NUM \<and> \<not> vfree t ! j" "length (vfree t) = NUM" "length (vdesc t) = NUM"
      using Suc.prems i ft by (auto simp: t_def)
    from Suc.IH [OF pre] show ?thesis
    proof (elim disjE exE conjE)
      fix l f
      assume a: "alloc_descs k (idx @ [i]) t = Ok (Some ((idx @ [i]) @ l)) (t\<lparr>vfree := f\<rparr>)" "length l = k" "distinct l" "length f = NUM"
        "\<forall>j \<in> set l. j < NUM \<and> vfree t ! j" "\<forall>j < NUM. f ! j \<longleftrightarrow> vfree t ! j \<and> j \<notin> set l"
      have "alloc_descs (Suc k) idx s = Ok (Some (idx @ i # l)) (s\<lparr>vfree := f\<rparr>)" using a(1) step by (simp add: t_def)
      moreover have "distinct (i # l)" "\<forall>j \<in> set (i # l). j < NUM \<and> vfree s ! j" using a(3,5) ft i by auto
      moreover have "\<forall>j < NUM. f ! j \<longleftrightarrow> vfree s ! j \<and> j \<notin> set (i # l)" using a(6) ft by auto
      ultimately show ?thesis using a(2,4) by (intro disjI1 exI [of _ "i # l"] exI [of _ f]) simp
    next
      fix p d f
      assume a: "alloc_descs k (idx @ [i]) t = Ok None (t\<lparr>vdesc := d, vfree := f, procs := p\<rparr>)" "length d = NUM" "length f = NUM"
        "\<forall>j. j < NUM \<longrightarrow> \<not> vfree t ! j \<longrightarrow> j \<notin> set (idx @ [i]) \<longrightarrow> d ! j = vdesc t ! j" "\<forall>j < NUM. f ! j \<longleftrightarrow> vfree t ! j \<or> j \<in> set (idx @ [i])"
      have "alloc_descs (Suc k) idx s = Ok None (s\<lparr>vdesc := d, vfree := f, procs := p\<rparr>)" using a(1) step by (cases s) (simp add: t_def)
      moreover have "\<forall>j. j < NUM \<longrightarrow> \<not> vfree s ! j \<longrightarrow> j \<notin> set idx \<longrightarrow> d ! j = vdesc s ! j" using a(4) ft i by (auto simp: t_def)
      moreover have "\<forall>j < NUM. f ! j \<longleftrightarrow> vfree s ! j \<or> j \<in> set idx" using a(5) ft i by auto
      ultimately show ?thesis using a(2,3) by (intro disjI2 exI [of _ p] exI [of _ d] exI [of _ f]) simp
    qed
  qed
qed

subsection \<open>Submitting a request\<close>

lemma vinv_failed:
  fixes s :: "'a kvirtio_scheme"
  assumes inv: "vinv s A" and d: "length d = NUM" "length f = NUM" "\<forall>j < NUM. \<not> vfree s ! j \<longrightarrow> d ! j = vdesc s ! j"
    "\<forall>j < NUM. f ! j \<longleftrightarrow> vfree s ! j"
  shows "vinv (s\<lparr>vdesc := d, vfree := f, procs := p\<rparr>) A"
proof -
  have "formatted (s\<lparr>vdesc := d, vfree := f\<rparr>) h r" if a: "A h = Some r" for h r
  proof -
    have f: "formatted s h r" using vinvD(2) [OF inv a] .
    then have "d ! i = vdesc s ! i" if "i \<in> parts h r" for i using vinvD(5) [OF inv, of i] a that d(3) by (auto simp: formatted_def)
    then show ?thesis using f by (simp add: formatted_def parts_def)
  qed
  then have "vinv (s\<lparr>vdesc := d, vfree := f\<rparr>) A"
    using inv d unfolding vinv_def by (auto simp: sizes_ok_def apart_def returned_def)
  moreover have "s\<lparr>vdesc := d, vfree := f, procs := p\<rparr> = (s\<lparr>vdesc := d, vfree := f\<rparr>)\<lparr>procs := p\<rparr>" by simp
  ultimately show ?thesis by (simp only: vinv_procs)
qed

text \<open>A request enters.\<close>

lemma vinv_add:
  fixes s t :: "'a kvirtio_scheme"
  assumes inv: "vinv s A" and ms: "may_submit s b" and r: "r = \<lparr>r_data = i1, r_stat = i2, r_buf = b, r_write = w\<rparr>"
    and i: "distinct [i0, i1, i2]" "\<forall>i \<in> parts i0 r. i < NUM \<and> vfree s ! i"
    and t: "sizes_ok t" "info_b t = (info_b s)[i0 := Some b]" "bufs t = (bufs s)[b := (bufs s ! b)\<lparr>b_disk := True\<rparr>]"
      "disk t = disk s" "todo t = insert i0 (todo s)" "returned t = returned s" "formatted t i0 r"
      "\<And>i. i \<notin> parts i0 r \<Longrightarrow> vdesc t ! i = vdesc s ! i" "\<And>i. i \<noteq> i0 \<Longrightarrow> vops t ! i = vops s ! i \<and> info_status t ! i = info_status s ! i"
      "\<And>i. i < NUM \<Longrightarrow> vfree t ! i \<longleftrightarrow> vfree s ! i \<and> i \<notin> parts i0 r"
  shows "vinv t (A(i0 \<mapsto> r))"
proof -
  have ap: "parts h' r' \<inter> parts i0 r = {}" if "A h' = Some r'" for h' r'
    using vinvD(5) [OF inv] i(2) that by blast
  have new: "h' \<noteq> i0" "r_buf r' \<noteq> b" "b_blockno (bufs s ! r_buf r') \<noteq> b_blockno (bufs s ! b)" if a: "A h' = Some r'" for h' r'
  proof -
    show "h' \<noteq> i0" using ap [OF a] by (auto simp: parts_def)
    have "in_flight s h' (r_buf r')" using vinvD(2) [OF inv a] head_less [OF inv a] by (simp add: in_flight_def formatted_def)
    then show "r_buf r' \<noteq> b" "b_blockno (bufs s ! r_buf r') \<noteq> b_blockno (bufs s ! b)" using ms unfolding may_submit_def by blast+
  qed
  have bl: "b < length (bufs s)" using ms by (simp add: may_submit_def)
  have bn: "b_blockno (bufs t ! j) = b_blockno (bufs s ! j)" "b_data (bufs t ! j) = b_data (bufs s ! j)"
      "b_disk (bufs t ! j) \<longleftrightarrow> j = b \<or> b_disk (bufs s ! j)" "length (bufs t) = length (bufs s)" for j
    using bl by (cases "j = b"; simp add: t(3))+
  have rb: "r_buf r = b" using r by simp
  have "formatted t h' r'" if a: "A h' = Some r'" for h' r'
  proof -
    have "vdesc t ! j = vdesc s ! j" if "j \<in> parts h' r'" for j using ap [OF a] t(8) that by blast
    moreover have "vops t ! h' = vops s ! h'" "info_b t ! h' = info_b s ! h'" using new(1) [OF a] t(2,9) by auto
    ultimately show ?thesis using vinvD(2) [OF inv a] by (simp add: formatted_def parts_def bn)
  qed
  then have fm: "\<forall>h' r'. (A(i0 \<mapsto> r)) h' = Some r' \<longrightarrow> formatted t h' r'" using t(7) by auto
  have "apart t (A(i0 \<mapsto> r))"
    unfolding apart_def bn using vinvD(4) [OF inv] ap new rb unfolding apart_def fun_upd_apply
    by (metis Int_commute option.inject)
  moreover have "\<not> vfree t ! j \<longleftrightarrow> (\<exists>h' r'. (A(i0 \<mapsto> r)) h' = Some r' \<and> j \<in> parts h' r')" if j: "j < NUM" for j
    using t(10) [OF j] vinvD(5) [OF inv j] new(1) by (auto split: if_splits)
  moreover have "\<forall>h' < NUM. (A(i0 \<mapsto> r)) h' = None \<longrightarrow> info_b t ! h' = None" using vinvD(3) [OF inv] t(2) by auto
  moreover have "todo t \<subseteq> dom (A(i0 \<mapsto> r))" "distinct (returned t)" using vinvD(6,7) [OF inv] t(5,6) by auto
  moreover have "A i0 = None" using new(1) by (cases "A i0") auto
  then have "set (returned t) \<subseteq> dom (A(i0 \<mapsto> r)) - todo t" using vinvD(8) [OF inv] t(5,6) by auto
  moreover have "b_disk (bufs t ! r_buf r') \<longleftrightarrow> h' \<in> todo t \<union> set (returned t)" if "(A(i0 \<mapsto> r)) h' = Some r'" for h' r'
    using vinvD(9) [OF inv, of h' r'] new [of h' r'] that t(5,6) rb by (auto simp: bn split: if_splits)
  moreover have "info_status t ! h' = 0 \<and> disk t (b_blockno (bufs t ! r_buf r')) = b_data (bufs t ! r_buf r')"
    if "(A(i0 \<mapsto> r)) h' = Some r'" "h' \<notin> todo t" for h' r'
    using vinvD(10) [OF inv, of h' r'] that t(4,5,9) by (auto simp: bn split: if_splits)
  ultimately show ?thesis using t(1) fm unfolding vinv_def by blast
qed

lemma submit_inv:
  fixes s :: "'a kvirtio_scheme"
  assumes inv: "vinv s A" and ms: "may_submit s b"
  shows "(\<exists>h s' r. virtio_submit b w s = Ok h s' \<and> A h = None \<and> vinv s' (A(h \<mapsto> r)) \<and> r_buf r = b \<and> r_write r = w \<and> same_data s s') \<or>
    (\<exists>s'. virtio_submit b w s = Blocked ChDiskFree s' \<and> vinv s' A \<and> same_data s s')"
proof -
  have sz: "sizes_ok s" using vinvD(1) [OF inv] .
  then obtain i where cp: "curproc s = Some i" by (auto simp: sizes_ok_def)
  have l: "length (vfree s) = NUM" "length (vdesc s) = NUM" using sz by (simp_all add: sizes_ok_def)
  have "distinct []" "\<forall>i \<in> set []. i < NUM \<and> \<not> vfree s ! i" by simp_all
  from alloc_descs_spec [OF this l, of 3] show ?thesis
  proof (elim disjE exE conjE)
    fix l f
    assume a: "alloc_descs 3 [] s = Ok (Some ([] @ l)) (s\<lparr>vfree := f\<rparr>)" "length l = 3" "distinct l" "length f = NUM"
      "\<forall>j \<in> set l. j < NUM \<and> vfree s ! j" "\<forall>j < NUM. f ! j \<longleftrightarrow> vfree s ! j \<and> j \<notin> set l"
    obtain i0 i1 i2 where i: "l = [i0, i1, i2]" using a(2) by (auto simp: eval_nat_numeral length_Suc_conv)
    define r where "r = \<lparr>r_data = i1, r_stat = i2, r_buf = b, r_write = w\<rparr>"
    define k where "k = unat (avail_idx s) mod NUM"
    define t where "t = (virtio_format b w i0 i1 i2 (s\<lparr>vfree := f\<rparr>))\<lparr>avail_ring := (avail_ring s)[k := of_nat i0],
      avail_idx := avail_idx s + 1, todo := insert i0 (todo s)\<rparr>"
    have n: "i0 < NUM" "i1 < NUM" "i2 < NUM" "distinct [i0, i1, i2]" "k < NUM" using a(3,5) i by (auto simp: k_def)
    have len: "length (avail_ring s) = NUM" "length (info_b s) = NUM" "length (vops s) = NUM" "length (info_status s) = NUM"
      using sz by (simp_all add: sizes_ok_def)
    have u: "unat (of_nat i0 :: uint16) = i0" using n by (simp add: unat_of_nat_less)
    have run: "virtio_submit b w s = Ok i0 (t\<lparr>mmio := mmio s @ [(0x50, 0)]\<rparr>)"
      using a(1) n(5) len u i by (simp add: virtio_submit_def alloc3_desc_def kbind_apply virtio_publish_def mmio_write_def t_def k_def
          virtio_format_def Let_def)
    have "vinv t (A(i0 \<mapsto> r))"
      by (rule vinv_add [OF inv ms r_def n(4)])
        (use a(4-6) i n len l sz ms in \<open>auto simp: t_def virtio_format_def Let_def sizes_ok_def formatted_def r_def parts_def returned_def may_submit_def\<close>)
    moreover have "A i0 = None"
    proof (rule ccontr)
      assume "A i0 \<noteq> None"
      then obtain r' where "A i0 = Some r'" by auto
      then have "\<not> vfree s ! i0" using vinvD(5) [OF inv n(1)] by (auto simp: parts_def)
      then show False using a(5) i by simp
    qed
    moreover have "same_data s t" by (simp add: same_data_def t_def virtio_format_def Let_def)
    ultimately show ?thesis using run by (auto simp: r_def)
  next
    fix p d f
    assume a: "alloc_descs 3 [] s = Ok None (s\<lparr>vdesc := d, vfree := f, procs := p\<rparr>)" "length d = NUM" "length f = NUM"
      "\<forall>j. j < NUM \<longrightarrow> \<not> vfree s ! j \<longrightarrow> j \<notin> set [] \<longrightarrow> d ! j = vdesc s ! j" "\<forall>j < NUM. f ! j \<longleftrightarrow> vfree s ! j \<or> j \<in> set []"
    from vinv_failed [OF inv a(2,3)] a(4,5) have "vinv (s\<lparr>vdesc := d, vfree := f, procs := q\<rparr>) A" for q by simp
    moreover have "same_data s (s\<lparr>vdesc := d, vfree := f\<rparr>)" by (simp add: same_data_def)
    ultimately show ?thesis using a(1) cp
      by (auto simp: virtio_submit_def alloc3_desc_def kbind_apply sleep_def myproc_def upd_proc_def)
  qed
qed

subsection \<open>Any interleaving\<close>

text \<open>What no step changes of a request that stays with the driver: the block it is for and the data it moves.\<close>

definition kept :: "request \<Rightarrow> 'a kvirtio_scheme \<Rightarrow> 'a kvirtio_scheme \<Rightarrow> bool" where
  "kept r s t \<longleftrightarrow> (let b = r_buf r; n = b_blockno (bufs s ! b) in b_blockno (bufs t ! b) = n \<and>
     (if r_write r then b_data (bufs t ! b) = b_data (bufs s ! b) else disk t n = disk s n))"

lemma kept_trans: "kept r s t \<Longrightarrow> kept r t u \<Longrightarrow> kept r s u"
  by (auto simp: kept_def Let_def split: if_splits)

lemma kept_same: "formatted s h r \<Longrightarrow> same_data s t \<Longrightarrow> kept r s t"
  by (simp add: kept_def same_data_def formatted_def Let_def)

lemma kept_transfer:
  assumes inv: "vinv s A" and h: "h \<in> todo s" and r: "A g = Some r"
  shows "kept r s (transfer h s)"
proof -
  obtain q where q: "A h = Some q" using vinvD(6) [OF inv] h by auto
  have n: "r_buf q < length (bufs s)" using vinvD(2) [OF inv q] by (simp add: formatted_def)
  show ?thesis
  proof (cases "g = h")
    case True
    then show ?thesis using q r n unfolding transfer_eq [OF vinvD(2) [OF inv q]] by (simp add: kept_def Let_def)
  next
    case False
    then have "r_buf r \<noteq> r_buf q" "b_blockno (bufs s ! r_buf r) \<noteq> b_blockno (bufs s ! r_buf q)"
      using vinvD(4) [OF inv] q r unfolding apart_def by blast+
    then show ?thesis unfolding transfer_eq [OF vinvD(2) [OF inv q]] by (simp add: kept_def Let_def)
  qed
qed

lemma holder_inv:
  assumes inv: "vinv s A" and b: "\<And>h. \<not> in_flight s h b"
  shows "vinv (s\<lparr>bufs := (bufs s)[b := x]\<rparr>) A" "A h = Some r \<Longrightarrow> kept r s (s\<lparr>bufs := (bufs s)[b := x]\<rparr>)"
proof -
  let ?t = "s\<lparr>bufs := (bufs s)[b := x]\<rparr>"
  have ne: "r_buf r \<noteq> b" if "A h = Some r" for h r
    using b [of h] vinvD(2) [OF inv that] head_less [OF inv that] by (auto simp: in_flight_def formatted_def)
  have same: "bufs ?t ! r_buf r = bufs s ! r_buf r" if "A h = Some r" for h r using ne [OF that] by simp
  have "formatted ?t h r \<longleftrightarrow> formatted s h r" if "A h = Some r" for h r using same [OF that] by (simp add: formatted_def)
  moreover have "returned ?t = returned s" "sizes_ok ?t \<longleftrightarrow> sizes_ok s" by (simp_all add: returned_def sizes_ok_def)
  moreover have "apart ?t A" using vinvD(4) [OF inv] same unfolding apart_def by simp
  ultimately show "vinv ?t A" using inv same unfolding vinv_def by simp
  show "A h = Some r \<Longrightarrow> kept r s ?t" using same by (simp add: kept_def Let_def)
qed

definition follows :: "(nat \<rightharpoonup> request) \<Rightarrow> 'a kvirtio_scheme \<Rightarrow> 'a kvirtio_scheme \<Rightarrow> (nat \<rightharpoonup> request) \<Rightarrow> bool" where
  "follows A s s' A' \<longleftrightarrow> vinv s' A' \<and> (\<forall>h r. A h = Some r \<longrightarrow> info_b s' ! h \<noteq> None \<longrightarrow> A' h = Some r \<and> kept r s s')"

lemma follows_same: "vinv s A \<Longrightarrow> vinv s' A \<Longrightarrow> same_data s s' \<Longrightarrow> follows A s s' A"
  using kept_same vinvD(2) unfolding follows_def by blast

lemma submit_follows:
  assumes "vinv s A" "may_submit s b" "virtio_submit b w s = Ok h s'"
  shows "\<exists>r. r_buf r = b \<and> r_write r = w \<and> follows A s s' (A(h \<mapsto> r)) \<and> same_data s s'"
proof -
  obtain r where r: "A h = None" "vinv s' (A(h \<mapsto> r))" "r_buf r = b" "r_write r = w" "same_data s s'"
    using submit_inv [OF assms(1,2), of w] assms(3) by auto
  have "follows A s s' (A(h \<mapsto> r))"
    using r kept_same [OF vinvD(2) [OF assms(1)] r(5)] unfolding follows_def by auto
  then show ?thesis using r by blast
qed

lemma finish_follows:
  assumes "vinv s A" "in_flight s h b" "virtio_finish b h s = Ok () s'"
  shows "follows A s s' (A(h := None))"
proof -
  have f: "vinv s' (A(h := None))" "same_data s s'" "info_b s' ! h = None"
    using finish_inv [OF assms(1,2)] assms(3) by auto
  then show ?thesis using kept_same [OF vinvD(2) [OF assms(1)] f(2)] unfolding follows_def by auto
qed

lemma intr_follows:
  assumes inv: "vinv s A" 
  shows "\<exists>s'. virtio_disk_intr v s = Ok () s' \<and> follows A s s' A \<and> returned s' = []"
proof -
  define t where "t = s\<lparr>mmio := mmio s @ [(0x64, v AND 3)]\<rparr>"
  have t: "vinv t A" "same_data s t" "returned t = returned s" using inv by (simp_all add: t_def returned_def)
  have n: "length (returned t) = unat (dev_used_idx t - used_idx t)" by (simp add: returned_def)
  from intr_inv [OF t(1) n] obtain u where u: "virtio_intr_loop (unat (dev_used_idx t - used_idx t)) t = Ok () u" "vinv u A"
    "same_data t u" "returned u = []" by blast
  have "virtio_disk_intr v s = Ok () u"
    using u(1) by (simp add: virtio_disk_intr_def mmio_write_def kbind_apply t_def)
  then show ?thesis using follows_same [OF inv u(2)] same_data_trans [OF t(2) u(3)] u(4) by blast
qed

lemma vstep_follows:
  assumes "vstep dev s s'" "device_ok dev" "vinv s A"
  shows "\<exists>A'. follows A s s' A'"
  using assms
proof (induction rule: vstep.induct)
  case (submit s b w h s')
  then show ?case using submit_follows by blast
next
  case (submit_wait s b w c s')
  then show ?case using submit_inv [OF submit_wait.prems(2) submit_wait.hyps(1), of w] follows_same by auto
next
  case (device s s')
  then show ?case using transfer_inv kept_transfer unfolding device_ok_def follows_def by blast
next
  case (intr v s s')
  then show ?case using intr_follows [OF intr.prems(2), of v] by auto
next
  case (finish s h b s')
  then show ?case using finish_follows by blast
next
  case (finish_wait s h b c s')
  then show ?case using finish_inv [OF finish_wait.prems(2) finish_wait.hyps(1)] follows_same by auto
next
  case (holder s b x)
  then show ?case using holder_inv unfolding follows_def by blast
qed

lemma vreach_inv: "vreach dev s \<Longrightarrow> device_ok dev \<Longrightarrow> \<exists>A. vinv s A"
proof (induction rule: vreach.induct)
  case (start s)
  then show ?case using start_inv by blast
next
  case (step s s')
  then show ?case using vstep_follows unfolding follows_def by blast
qed

text \<open>Steps during which the request \<open>h\<close> stays with the driver.\<close>

definition busy_steps :: "('a kvirtio_scheme \<Rightarrow> 'a kvirtio_scheme \<Rightarrow> bool) \<Rightarrow> nat \<Rightarrow> 'a kvirtio_scheme \<Rightarrow> 'a kvirtio_scheme \<Rightarrow> bool" where
  "busy_steps dev h = (\<lambda>s s'. vstep dev s s' \<and> info_b s' ! h \<noteq> None)\<^sup>*\<^sup>*"

lemma busy_kept:
  assumes "busy_steps dev h s t" "device_ok dev" "vinv s A" "A h = Some r"
  shows "\<exists>A'. vinv t A' \<and> A' h = Some r \<and> kept r s t"
  using assms(1) unfolding busy_steps_def
proof (induction rule: rtranclp_induct)
  case base
  then show ?case using assms(3,4) by (auto simp: kept_def Let_def)
next
  case (step y z)
  then show ?case using vstep_follows [OF _ assms(2)] kept_trans unfolding follows_def by metis
qed

text \<open>A device that completes the requests in any order, and a disk with one buffer, of block 5 (two bytes of it).\<close>

definition ex_dev :: "kvirtio \<Rightarrow> kvirtio \<Rightarrow> bool" where
  "ex_dev s s' \<longleftrightarrow> (\<exists>h \<in> todo s. s' = transfer h s)"

definition ex_vdisk :: kvirtio where
  "ex_vdisk = \<lparr>mem = (\<lambda>_. 0), freelist = 0, kend = 0, procs = [], nextpid = 1, initproc = None, curproc = Some 0, trampoline = 0,
     forkret_pc = 0, kmsg = [],
     bufs = [\<lparr>b_valid = True, b_disk = False, b_dev = 1, b_blockno = 5, b_lock = \<lparr>sl_locked = True, sl_name = [], sl_pid = 1\<rparr>, b_refcnt = 1,
       b_prev = 0, b_next = 0, b_data = [7, 8]\<rparr>],
     disk = (\<lambda>_. [0, 0]), dwrites = [],
     vdesc = replicate NUM zero_desc, avail_idx = 0, avail_ring = replicate NUM 0, dev_used_idx = 0, used_ring = replicate NUM 0,
     vfree = replicate NUM True, used_idx = 0, info_b = replicate NUM None, info_status = replicate NUM 0,
     vops = replicate NUM \<lparr>vr_type = 0, vr_reserved = 0, vr_sector = 0\<rparr>, todo = {}, mmio = []\<rparr>"

lemma ex_dev_ok: "device_ok ex_dev"
  by (simp add: device_ok_def ex_dev_def)

lemma ex_start: "virtio_start ex_vdisk"
  by (simp add: virtio_start_def ex_vdisk_def)

lemma ex_may: "may_submit ex_vdisk 0"
  by (auto simp: may_submit_def ex_vdisk_def in_flight_def)

lemma ex_submit: "\<exists>h s'. virtio_submit 0 True ex_vdisk = Ok h s' \<and> in_flight s' h 0 \<and> b_disk (bufs s' ! 0)"
proof -
  have "case virtio_submit 0 True ex_vdisk of Ok h s' \<Rightarrow> in_flight s' h 0 \<and> b_disk (bufs s' ! 0) | _ \<Rightarrow> False" by code_simp
  then show ?thesis by (auto split: outcome.splits)
qed

subsection \<open>The driver is correct\<close>





end
