(* ===== verification/Pipe.thy ===== *)
theory Pipe
  imports Fs Ring
begin

text \<open>
  Pipes, \<^verbatim>\<open>kernel/pipe.c\<close>.  A pipe is identified by the address of its page.  A call that goes to
  sleep in its loop reports how far it got (\<open>PSleep\<close>), so that interleavings of partial reads
  and writes can be stated; \<open>pipealloc\<close>, which creates file structures, is in theory \<open>File\<close>.
\<close>

abbreviation (input) PIPESIZE :: nat where "PIPESIZE \<equiv> 512"

record pipe =
  pi_data :: "uint8 list"
  nread :: uint32
  nwrite :: uint32
  readopen :: bool
  writeopen :: bool

record kpipe = kfs +
  pipes :: "nat \<Rightarrow> pipe"

definition get_pipe :: "nat \<Rightarrow> ('a kpipe_scheme, pipe) kfun" where
  "get_pipe a = kget (\<lambda>s. pipes s a)"

definition upd_pipe :: "nat \<Rightarrow> (pipe \<Rightarrow> pipe) \<Rightarrow> ('a kpipe_scheme, unit) kfun" where
  "upd_pipe a f = kmodify (\<lambda>s. s\<lparr>pipes := (pipes s)(a := f (pipes s a))\<rparr>)"

definition pipeclose :: "nat \<Rightarrow> bool \<Rightarrow> ('a kpipe_scheme, unit) kfun" where
  "pipeclose a writable =
     kbind (if writable
       then kbind (upd_pipe a (\<lambda>p. p\<lparr>writeopen := False\<rparr>)) (\<lambda>_. wakeup (ChPipeRead a))
       else kbind (upd_pipe a (\<lambda>p. p\<lparr>readopen := False\<rparr>)) (\<lambda>_. wakeup (ChPipeWrite a))) (\<lambda>_.
     kbind (get_pipe a) (\<lambda>p.
     if \<not> readopen p \<and> \<not> writeopen p then kfree a else kret ()))"

text \<open>How a loop ends: by leaving it, by returning a value from inside it, or by sleeping.\<close>

datatype pipe_end = PExit nat | PReturn int | PSleep nat

definition pipe_put :: "uint8 \<Rightarrow> pipe \<Rightarrow> pipe" where
  "pipe_put ch p = p\<lparr>pi_data := (pi_data p)[unat (nwrite p) mod PIPESIZE := ch], nwrite := nwrite p + 1\<rparr>"

fun pipewrite_loop :: "nat \<Rightarrow> nat \<Rightarrow> nat \<Rightarrow> uint64 \<Rightarrow> nat \<Rightarrow> ('a kpipe_scheme, pipe_end) kfun" where
  "pipewrite_loop 0 pr a addr i = kret (PExit i)"
| "pipewrite_loop (Suc k) pr a addr i = kbind (get_pipe a) (\<lambda>p. kbind (get_proc pr) (\<lambda>q.
     if \<not> readopen p \<or> p_killed q then kret (PReturn (-1))
     else if nwrite p = nread p + of_nat PIPESIZE then
       kbind (wakeup (ChPipeRead a)) (\<lambda>_. kret (PSleep i))
     else kbind (copyin (p_pagetable q) (addr + of_nat i) 1) (\<lambda>(r, bs).
       if r = -1 then kret (PExit i)
       else kbind (upd_pipe a (pipe_put (hd bs))) (\<lambda>_. pipewrite_loop k pr a addr (i + 1)))))"

definition pipewrite_from :: "nat \<Rightarrow> uint64 \<Rightarrow> nat \<Rightarrow> nat \<Rightarrow> ('a kpipe_scheme, pipe_end) kfun" where
  "pipewrite_from a addr n i = kbind myproc (\<lambda>pr.
     kbind (pipewrite_loop (n - i) pr a addr i) (\<lambda>r.
     case r of
       PExit j \<Rightarrow> kbind (wakeup (ChPipeRead a)) (\<lambda>_. kret (PExit j))
     | _ \<Rightarrow> kret r))"

definition pipewrite :: "nat \<Rightarrow> uint64 \<Rightarrow> int \<Rightarrow> ('a kpipe_scheme, int) kfun" where
  "pipewrite a addr n = kbind (pipewrite_from a addr (nat n) 0) (\<lambda>r.
     case r of
       PExit j \<Rightarrow> kret (int j)
     | PReturn v \<Rightarrow> kret v
     | PSleep j \<Rightarrow> sleep (ChPipeWrite a))"

fun piperead_loop :: "nat \<Rightarrow> nat \<Rightarrow> nat \<Rightarrow> uint64 \<Rightarrow> nat \<Rightarrow> ('a kpipe_scheme, nat) kfun" where
  "piperead_loop 0 pr a addr i = kret i"
| "piperead_loop (Suc k) pr a addr i = kbind (get_pipe a) (\<lambda>p.
     if nread p = nwrite p then kret i
     else
       let ch = pi_data p ! (unat (nread p) mod PIPESIZE) in
       kbind (upd_pipe a (\<lambda>p. p\<lparr>nread := nread p + 1\<rparr>)) (\<lambda>_.
       kbind (get_proc pr) (\<lambda>q.
       kbind (copyout (p_pagetable q) (addr + of_nat i) [ch]) (\<lambda>r.
       if r = -1 then kret i else piperead_loop k pr a addr (i + 1)))))"

definition piperead :: "nat \<Rightarrow> uint64 \<Rightarrow> int \<Rightarrow> ('a kpipe_scheme, int) kfun" where
  "piperead a addr n = kbind myproc (\<lambda>pr. kbind (get_pipe a) (\<lambda>p.
     if nread p = nwrite p \<and> writeopen p then
       kbind (killed pr) (\<lambda>k. if k then kret (-1) else sleep (ChPipeRead a))
     else kbind (piperead_loop (nat n) pr a addr 0) (\<lambda>i.
       kbind (wakeup (ChPipeWrite a)) (\<lambda>_.
       kret (int i)))))"

subsection \<open>A pipe is a queue of at most 512 bytes\<close>

interpretation pipe_ring: ring PIPESIZE "TYPE(32)"
  by unfold_locales (simp_all add: dvd_def)

definition pipe_bytes :: "pipe \<Rightarrow> uint8 list" where
  "pipe_bytes p = ring_contents PIPESIZE (pi_data p) (nread p) (nwrite p)"

definition pipe_ok :: "pipe \<Rightarrow> bool" where
  "pipe_ok p \<longleftrightarrow> length (pi_data p) = PIPESIZE \<and> length (pipe_bytes p) \<le> PIPESIZE"

text \<open>The byte a process finds at a user address.\<close>

definition user_byte :: "'a kproc_scheme \<Rightarrow> nat \<Rightarrow> uint64 \<Rightarrow> uint8 option" where
  "user_byte s pr va = (case copyin (p_pagetable (procs s ! pr)) va 1 s of
     Ok (r, bs) _ \<Rightarrow> if r = -1 then None else Some (hd bs) | _ \<Rightarrow> None)"

lemma pipe_full_iff: "pipe_ok p \<Longrightarrow> nwrite p = nread p + of_nat PIPESIZE \<longleftrightarrow> length (pipe_bytes p) = PIPESIZE"
  unfolding pipe_ok_def pipe_bytes_def length_ring_contents by (rule pipe_ring.full_iff) simp

lemma pipe_put_queue:
  assumes "pipe_ok p" and "length (pipe_bytes p) < PIPESIZE"
  shows "pipe_bytes (pipe_put ch p) = pipe_bytes p @ [ch]" "pipe_ok (pipe_put ch p)"
proof -
  show *: "pipe_bytes (pipe_put ch p) = pipe_bytes p @ [ch]"
    using pipe_ring.contents_put [of "pi_data p" "nwrite p" "nread p" ch] assms
    by (simp add: pipe_bytes_def pipe_put_def pipe_ok_def)
  show "pipe_ok (pipe_put ch p)"
    using assms unfolding pipe_ok_def * by (simp add: pipe_put_def pipe_ok_def)
qed

lemma pipe_get_queue:
  assumes "pipe_ok p" and "nread p \<noteq> nwrite p"
  shows "pipe_bytes p = pi_data p ! (unat (nread p) mod PIPESIZE) # pipe_bytes (p\<lparr>nread := nread p + 1\<rparr>)"
    "pipe_ok (p\<lparr>nread := nread p + 1\<rparr>)"
proof -
  show *: "pipe_bytes p = pi_data p ! (unat (nread p) mod PIPESIZE) # pipe_bytes (p\<lparr>nread := nread p + 1\<rparr>)"
    using pipe_ring.contents_get [of "nwrite p" "nread p" "pi_data p"] assms(2) by (simp add: pipe_bytes_def)
  show "pipe_ok (p\<lparr>nread := nread p + 1\<rparr>)"
    using assms(1) arg_cong [OF *, of length] by (simp add: pipe_ok_def)
qed

end
