(* ===== verification/Pipe_Fifo.thy ===== *)
theory Pipe_Fifo
  imports Pipe
begin

text \<open>
  Pipes deliver bytes in order: the operations of theory \<open>Pipe\<close> refine a queue of at most 512
  bytes, and in every interleaving of partial reads and writes the bytes taken out are a prefix
  of the bytes put in, also after the 32-bit counters wrap around.
\<close>

subsection \<open>Reads of user memory depend on memory only\<close>

lemma walk_level_mem:
  "mem s' = mem s \<Longrightarrow> \<exists>pte. walk_level l pt va False s = Ok pte s \<and> walk_level l pt va False s' = Ok pte s'"
  by (induction l arbitrary: pt) (simp_all add: Let_def)

lemma walkaddr_mem:
  assumes "mem s' = mem s"
  shows "\<exists>pa. walkaddr pt va s = Ok pa s \<and> walkaddr pt va s' = Ok pa s'"
proof (cases "va \<ge> MAXVA")
  case False
  obtain pte where "walk_level 2 pt va False s = Ok pte s" "walk_level 2 pt va False s' = Ok pte s'"
    using walk_level_mem [OF assms] by blast
  then show ?thesis using False assms by (simp add: walkaddr_def walk_def get_pte_def kbind_apply)
qed (simp add: walkaddr_def)

lemma copyin_loop_mem:
  assumes "mem s' = mem s"
  shows "\<exists>x. copyin_loop k pt va len s = Ok x s \<and> copyin_loop k pt va len s' = Ok x s'"
proof (induction k arbitrary: va len)
  case (Suc k)
  obtain pa where "walkaddr pt (PGROUNDDOWN va) s = Ok pa s" "walkaddr pt (PGROUNDDOWN va) s' = Ok pa s'"
    using walkaddr_mem [OF assms] by blast
  moreover obtain x where "copyin_loop k pt (PGROUNDDOWN va + 4096) (len - min (page_room va) len) s = Ok x s"
    "copyin_loop k pt (PGROUNDDOWN va + 4096) (len - min (page_room va) len) s' = Ok x s'"
    using Suc.IH by blast
  ultimately show ?case using assms by (cases x) (simp add: Let_def kbind_apply)
qed simp

lemma user_byte_cong:
  assumes "mem s' = mem s" and "p_pagetable (procs s' ! pr) = p_pagetable (procs s ! pr)"
  shows "user_byte s' pr va = user_byte s pr va"
proof -
  obtain x where "copyin (p_pagetable (procs s ! pr)) va 1 s = Ok x s"
    "copyin (p_pagetable (procs s ! pr)) va 1 s' = Ok x s'"
    using copyin_loop_mem [OF assms(1)] unfolding copyin_def by blast
  then show ?thesis using assms(2) by (cases x) (simp add: user_byte_def)
qed

subsection \<open>Writing\<close>

lemma pipewrite_loop_queue:
  assumes "pipe_ok (pipes s a)"
  shows "\<exists>r s' bs. pipewrite_loop k pr a addr i s = Ok r s' \<and> mem s' = mem s \<and> curproc s' = curproc s \<and>
    pipe_ok (pipes s' a) \<and> pipe_bytes (pipes s' a) = pipe_bytes (pipes s a) @ bs \<and>
    nwrite (pipes s' a) = nwrite (pipes s a) + of_nat (length bs) \<and> nread (pipes s' a) = nread (pipes s a) \<and>
    (\<forall>j < length bs. user_byte s pr (addr + of_nat (i + j)) = Some (bs ! j)) \<and>
    (case r of PExit j \<Rightarrow> j = i + length bs | PSleep j \<Rightarrow> j = i + length bs \<and> length (pipe_bytes (pipes s' a)) = PIPESIZE
       | PReturn v \<Rightarrow> v = -1)"
  using assms
proof (induction k arbitrary: i s)
  case 0
  then show ?case by simp
next
  case (Suc k)
  let ?p = "pipes s a" and ?q = "procs s ! pr"
  consider (stop) "\<not> readopen ?p \<or> p_killed ?q"
    | (full) "readopen ?p" "\<not> p_killed ?q" "length (pipe_bytes ?p) = PIPESIZE"
    | (room) "readopen ?p" "\<not> p_killed ?q" "length (pipe_bytes ?p) < PIPESIZE"
    using Suc.prems by (force simp: pipe_ok_def)
  then show ?case
  proof cases
    case stop
    then show ?thesis using Suc.prems by (auto simp: get_pipe_def get_proc_def kbind_apply)
  next
    case full
    then show ?thesis using Suc.prems pipe_full_iff [OF Suc.prems]
      by (auto simp: get_pipe_def get_proc_def kbind_apply wakeup_Ok)
  next
    case room
    obtain r bs where c: "copyin (p_pagetable ?q) (addr + of_nat i) 1 s = Ok (r, bs) s" "r = 0 \<or> r = -1"
      using copyin_total by blast
    show ?thesis
    proof (cases "r = -1")
      case True
      then show ?thesis using room Suc.prems c pipe_full_iff [OF Suc.prems]
        by (auto simp: get_pipe_def get_proc_def kbind_apply)
    next
      case False
      let ?s1 = "s\<lparr>pipes := (pipes s)(a := pipe_put (hd bs) ?p)\<rparr>"
      have ub: "user_byte s pr (addr + of_nat i) = Some (hd bs)" using c False by (simp add: user_byte_def)
      have q: "pipe_bytes (pipes ?s1 a) = pipe_bytes ?p @ [hd bs]" "pipe_ok (pipes ?s1 a)"
        using pipe_put_queue [OF Suc.prems room(3)] by simp_all
      have same: "user_byte ?s1 pr va = user_byte s pr va" for va by (rule user_byte_cong) simp_all
      from Suc.IH [OF q(2), of "i + 1"] obtain r' s' bs' where
        IH: "pipewrite_loop k pr a addr (i + 1) ?s1 = Ok r' s'" "mem s' = mem s" "curproc s' = curproc s"
          "pipe_ok (pipes s' a)" "pipe_bytes (pipes s' a) = pipe_bytes ?p @ hd bs # bs'"
          "nwrite (pipes s' a) = nwrite ?p + of_nat (Suc (length bs'))" "nread (pipes s' a) = nread ?p"
          "\<forall>j < length bs'. user_byte s pr (addr + of_nat (i + 1 + j)) = Some (bs' ! j)"
          "case r' of PExit j \<Rightarrow> j = i + 1 + length bs' | PSleep j \<Rightarrow> j = i + 1 + length bs' \<and>
            length (pipe_bytes (pipes s' a)) = PIPESIZE | PReturn v \<Rightarrow> v = -1"
        unfolding same q(1) by (auto simp: pipe_put_def algebra_simps)
      have "\<forall>j < length (hd bs # bs'). user_byte s pr (addr + of_nat (i + j)) = Some ((hd bs # bs') ! j)"
        using ub IH(8) by (auto simp: less_Suc_eq_0_disj ac_simps)
      then show ?thesis
        using room c False IH pipe_full_iff [OF Suc.prems]
        by (intro exI [of _ r'] exI [of _ s'] exI [of _ "hd bs # bs'"])
          (auto simp: get_pipe_def get_proc_def upd_pipe_def kbind_apply split: pipe_end.splits)
    qed
  qed
qed

subsection \<open>Reading\<close>

text \<open>
  Handing a list of bytes to the reader one at a time: the count delivered and the bytes left
  when an address cannot be written.
\<close>

fun deliver :: "nat \<Rightarrow> uint64 \<Rightarrow> nat \<Rightarrow> uint8 list \<Rightarrow> ('a kmem_scheme, nat \<times> uint8 list) kfun" where
  "deliver pt addr i [] = kret (i, [])"
| "deliver pt addr i (b # bs) = kbind (copyout pt (addr + of_nat i) [b]) (\<lambda>r.
     if r = -1 then kret (i, bs) else deliver pt addr (i + 1) bs)"

lemma copyout_total: "\<exists>r m. copyout pt va src s = Ok r (s\<lparr>mem := m\<rparr>) \<and> (r = 0 \<or> r = -1)"
  unfolding copyout_def by (rule copyout_loop_total) simp

lemma pipes_mem_swap: "(s :: 'a kpipe_scheme)\<lparr>pipes := P, mem := m\<rparr> = s\<lparr>mem := m, pipes := P\<rparr>"
  by (cases s) simp

lemma copyout_loop_pipes:
  "copyout_loop k pt va src s = Ok r s' \<Longrightarrow>
    copyout_loop k pt va src (s\<lparr>pipes := P\<rparr>) = Ok r (s'\<lparr>pipes := P\<rparr>)"
proof (induction k arbitrary: va src s)
  case (Suc k)
  show ?case
  proof (cases "src = [] \<or> PGROUNDDOWN va \<ge> MAXVA")
    case False
    obtain pte where w: "walk_level 2 pt (PGROUNDDOWN va) False s = Ok pte s"
      "walk_level 2 pt (PGROUNDDOWN va) False (s\<lparr>pipes := P\<rparr>) = Ok pte (s\<lparr>pipes := P\<rparr>)"
      using walk_level_mem [of "s\<lparr>pipes := P\<rparr>" s 2 pt "PGROUNDDOWN va"] by auto
    let ?n = "min (page_room va) (length src)"
    let ?s1 = "s\<lparr>mem := store_bytes (mem s) (unat (PTE2PA (load64 (mem s) pte)) +
      unat (va - PGROUNDDOWN va)) (take ?n src)\<rparr>"
    show ?thesis using Suc.prems False w Suc.IH [of "PGROUNDDOWN va + 4096" "drop ?n src" ?s1]
      by (auto simp: walk_def Let_def kbind_apply get_pte_def pipes_mem_swap split: if_splits)
  qed (use Suc.prems in \<open>auto simp: Let_def\<close>)
qed auto

lemma deliver_suffix: "deliver pt addr i bs s = Ok (j, rest) s' \<Longrightarrow> \<exists>xs. bs = xs @ rest"
  by (induction bs arbitrary: i s) (force simp: kbind_eq_Ok split: if_splits)+

lemma deliver_pipes:
  "deliver pt addr i bs s = Ok x s' \<Longrightarrow> deliver pt addr i bs (s\<lparr>pipes := P\<rparr>) = Ok x (s'\<lparr>pipes := P\<rparr>)"
proof (induction bs arbitrary: i s)
  case (Cons b bs)
  obtain r m where c: "copyout pt (addr + of_nat i) [b] s = Ok r (s\<lparr>mem := m\<rparr>)" using copyout_total by blast
  then have "copyout pt (addr + of_nat i) [b] (s\<lparr>pipes := P\<rparr>) = Ok r (s\<lparr>mem := m, pipes := P\<rparr>)"
    unfolding copyout_def by (rule copyout_loop_pipes)
  then show ?case using Cons c by (auto simp: kbind_apply split: if_splits)
qed auto

lemma piperead_loop_queue:
  assumes "pipe_ok (pipes s a)"
  shows "\<exists>j rest m p. deliver (p_pagetable (procs s ! pr)) addr i (take k (pipe_bytes (pipes s a))) s =
      Ok (j, rest) (s\<lparr>mem := m\<rparr>) \<and>
    piperead_loop k pr a addr i s = Ok j (s\<lparr>mem := m, pipes := (pipes s)(a := p)\<rparr>) \<and> pipe_ok p \<and>
    pipe_bytes p = rest @ drop k (pipe_bytes (pipes s a)) \<and> p = (pipes s a)\<lparr>nread := nread p\<rparr>"
  using assms
proof (induction k arbitrary: i s)
  case 0
  then show ?case by (intro exI [of _ i] exI [of _ "[]"] exI [of _ "mem s"] exI [of _ "pipes s a"]) simp
next
  case (Suc k)
  let ?p0 = "pipes s a" and ?pt = "p_pagetable (procs s ! pr)"
  show ?case
  proof (cases "nread ?p0 = nwrite ?p0")
    case True
    then show ?thesis using Suc.prems
      by (intro exI [of _ i] exI [of _ "[]"] exI [of _ "mem s"] exI [of _ "?p0"])
        (simp add: get_pipe_def kbind_apply pipe_bytes_def)
  next
    case False
    define p1 where "p1 = ?p0\<lparr>nread := nread ?p0 + 1\<rparr>"
    define ch where "ch = pi_data ?p0 ! (unat (nread ?p0) mod PIPESIZE)"
    have q: "pipe_bytes ?p0 = ch # pipe_bytes p1" "pipe_ok p1"
      unfolding p1_def ch_def using pipe_get_queue [OF Suc.prems False] by auto
    obtain r m1 where c: "copyout ?pt (addr + of_nat i) [ch] s = Ok r (s\<lparr>mem := m1\<rparr>)" using copyout_total by blast
    define s2 where "s2 = s\<lparr>mem := m1, pipes := (pipes s)(a := p1)\<rparr>"
    have c2: "copyout ?pt (addr + of_nat i) [ch] (s\<lparr>pipes := (pipes s)(a := p1)\<rparr>) = Ok r s2"
      using copyout_loop_pipes c unfolding s2_def copyout_def by blast
    have run: "piperead_loop (Suc k) pr a addr i s = (if r = -1 then Ok i s2 else piperead_loop k pr a addr (i + 1) s2)"
      using False c2 by (simp add: get_pipe_def upd_pipe_def get_proc_def kbind_apply ch_def [symmetric] p1_def [symmetric])
    show ?thesis
    proof (cases "r = -1")
      case True
      then show ?thesis using c q run
        by (intro exI [of _ i] exI [of _ "take k (pipe_bytes p1)"] exI [of _ m1] exI [of _ p1])
          (simp add: kbind_apply s2_def p1_def fun_upd_def del: piperead_loop.simps)
    next
      case nofault: False
      have ok: "pipe_ok (pipes s2 a)" and eqs: "pipes s2 a = p1" "procs s2 = procs s"
        using q(2) by (simp_all add: s2_def)
      from Suc.IH [OF ok, of "i + 1", unfolded eqs] obtain j rest m p where
        d: "deliver ?pt addr (i + 1) (take k (pipe_bytes p1)) s2 = Ok (j, rest) (s2\<lparr>mem := m\<rparr>)" and
        l: "piperead_loop k pr a addr (i + 1) s2 = Ok j (s2\<lparr>mem := m, pipes := (pipes s2)(a := p)\<rparr>)" and
        p: "pipe_ok p" "pipe_bytes p = rest @ drop k (pipe_bytes p1)" "p = p1\<lparr>nread := nread p\<rparr>" by blast
      have "deliver ?pt addr (i + 1) (take k (pipe_bytes p1)) (s\<lparr>mem := m1\<rparr>) = Ok (j, rest) (s\<lparr>mem := m\<rparr>)"
        using deliver_pipes [OF d, of "pipes s"] by (simp add: s2_def)
      then have "deliver ?pt addr i (take (Suc k) (pipe_bytes ?p0)) s = Ok (j, rest) (s\<lparr>mem := m\<rparr>)"
        using c q(1) nofault by (simp add: kbind_apply)
      moreover have "piperead_loop (Suc k) pr a addr i s = Ok j (s\<lparr>mem := m, pipes := (pipes s)(a := p)\<rparr>)"
        using run nofault l by (simp add: s2_def)
      moreover have "pipe_bytes p = rest @ drop (Suc k) (pipe_bytes ?p0)" "p = ?p0\<lparr>nread := nread p\<rparr>"
        using p q(1) by (simp_all add: p1_def)
      ultimately show ?thesis using p(1) by blast
    qed
  qed
qed

subsection \<open>Histories of a pipe\<close>

text \<open>
  \<open>pipe_history a s w t\<close>: some sequence of calls on the pipe at \<open>a\<close>, with any other kernel
  activity in between, leads to \<open>s\<close>; \<open>w\<close> are the bytes the writers' memory held at the
  addresses they wrote from, \<open>t\<close> the array elements the read index has passed.
\<close>

definition taken :: "pipe \<Rightarrow> pipe \<Rightarrow> uint8 list" where
  "taken p p' = map (\<lambda>k. pi_data p ! (unat (nread p + of_nat k) mod PIPESIZE)) [0..<unat (nread p' - nread p)]"

definition offered :: "'a kproc_scheme \<Rightarrow> nat \<Rightarrow> uint64 \<Rightarrow> pipe \<Rightarrow> pipe \<Rightarrow> uint8 list" where
  "offered s pr va p p' = map (\<lambda>j. the (user_byte s pr (va + of_nat j))) [0..<unat (nwrite p' - nwrite p)]"

inductive pipe_history :: "nat \<Rightarrow> 'a kpipe_scheme \<Rightarrow> uint8 list \<Rightarrow> uint8 list \<Rightarrow> bool" for a where
  fresh: "length (pi_data (pipes s a)) = PIPESIZE \<Longrightarrow> nread (pipes s a) = 0 \<Longrightarrow> nwrite (pipes s a) = 0 \<Longrightarrow>
    pipe_history a s [] []"
| elsewhere: "pipe_history a s w t \<Longrightarrow> pipes s' a = pipes s a \<Longrightarrow> pipe_history a s' w t"
| wrote: "pipe_history a s w t \<Longrightarrow> curproc s = Some pr \<Longrightarrow> pipewrite_from a addr n i s = Ok r s' \<Longrightarrow>
    pipe_history a s' (w @ offered s pr (addr + of_nat i) (pipes s a) (pipes s' a)) t"
| took: "pipe_history a s w t \<Longrightarrow> piperead a addr n s = Ok r s' \<Longrightarrow>
    pipe_history a s' w (t @ taken (pipes s a) (pipes s' a))"
| closed: "pipe_history a s w t \<Longrightarrow> pipeclose a wr s = Ok u s' \<Longrightarrow> pipe_history a s' w t"

lemma taken_ring: "taken p p' = ring_contents PIPESIZE (pi_data p) (nread p) (nread p')"
  by (simp add: taken_def ring_contents_def)

lemma pipewrite_from_queue:
  assumes "pipe_ok (pipes s a)" and "curproc s = Some pr" and "pipewrite_from a addr n i s = Ok r s'"
  shows "pipe_ok (pipes s' a) \<and>
    pipe_bytes (pipes s' a) = pipe_bytes (pipes s a) @ offered s pr (addr + of_nat i) (pipes s a) (pipes s' a)"
proof -
  obtain r1 s1 bs where l: "pipewrite_loop (n - i) pr a addr i s = Ok r1 s1"
    "pipe_ok (pipes s1 a)" "pipe_bytes (pipes s1 a) = pipe_bytes (pipes s a) @ bs"
    "nwrite (pipes s1 a) = nwrite (pipes s a) + of_nat (length bs)"
    "\<forall>j < length bs. user_byte s pr (addr + of_nat (i + j)) = Some (bs ! j)"
    using pipewrite_loop_queue [OF assms(1), of "n - i" pr addr i] by metis
  have "length bs \<le> PIPESIZE" using l(2,3) by (simp add: pipe_ok_def)
  then have "unat (nwrite (pipes s1 a) - nwrite (pipes s a)) = length bs"
    unfolding l(4) by (simp add: unat_of_nat_less)
  then have off: "offered s pr (addr + of_nat i) (pipes s a) (pipes s1 a) = bs"
    using l(5) by (intro nth_equalityI) (auto simp: offered_def add.assoc)
  have "pipes s' = pipes s1"
    using assms(2,3) l(1)
    by (auto simp: pipewrite_from_def myproc_def kbind_apply wakeup_Ok split: pipe_end.splits)
  with l(2,3) off show ?thesis by simp
qed

lemma piperead_queue:
  assumes "pipe_ok (pipes s a)" and "piperead a addr n s = Ok r s'"
  shows "pipe_ok (pipes s' a) \<and> pipe_bytes (pipes s a) = taken (pipes s a) (pipes s' a) @ pipe_bytes (pipes s' a)"
proof -
  let ?p = "pipes s a"
  from assms(2) obtain pr where pr: "curproc s = Some pr"
    by (cases "curproc s") (auto simp: piperead_def myproc_def null_deref_def kbind_apply)
  show ?thesis
  proof (cases "nread ?p = nwrite ?p \<and> writeopen ?p")
    case True
    then have "s' = s" using assms(2) pr
      by (auto simp: piperead_def myproc_def get_pipe_def killed_def get_proc_def sleep_def upd_proc_def
          kbind_apply split: if_splits)
    then show ?thesis using assms(1) by (simp add: taken_def)
  next
    case False
    obtain j rest m p where d: "deliver (p_pagetable (procs s ! pr)) addr 0 (take (nat n) (pipe_bytes ?p)) s =
        Ok (j, rest) (s\<lparr>mem := m\<rparr>)"
      and l: "piperead_loop (nat n) pr a addr 0 s = Ok j (s\<lparr>mem := m, pipes := (pipes s)(a := p)\<rparr>)"
      and p: "pipe_ok p" "pipe_bytes p = rest @ drop (nat n) (pipe_bytes ?p)" "p = ?p\<lparr>nread := nread p\<rparr>"
      using piperead_loop_queue [OF assms(1), of pr addr 0 "nat n"] by blast
    obtain xs where "take (nat n) (pipe_bytes ?p) = xs @ rest" using deliver_suffix [OF d] by blast
    then have "pipe_bytes ?p = xs @ pipe_bytes p"
      unfolding p(2) by (metis append.assoc append_take_drop_id)
    moreover have "pi_data p = pi_data ?p" "nwrite p = nwrite ?p" by (subst p(3); simp)+
    ultimately have "xs = taken ?p p"
      unfolding taken_ring by (intro pipe_ring.contents_taken [of _ _ "nwrite ?p"]) (simp add: pipe_bytes_def)
    moreover have "pipes s' a = p" using assms(2) False pr l
      by (auto simp: piperead_def myproc_def get_pipe_def kbind_apply wakeup_Ok)
    ultimately show ?thesis using p(1) \<open>pipe_bytes ?p = xs @ pipe_bytes p\<close> by simp
  qed
qed

lemma pipeclose_queue:
  assumes "pipeclose a wr s = Ok u s'"
  shows "pi_data (pipes s' a) = pi_data (pipes s a) \<and> nread (pipes s' a) = nread (pipes s a) \<and>
    nwrite (pipes s' a) = nwrite (pipes s a)"
proof -
  have kf: "pipes s2 = pipes s1" if "kfree a s1 = Ok v s2" for s1 s2 :: "'a kpipe_scheme" and v
    using that by (auto simp: kfree_def Let_def split: if_splits)
  show ?thesis using assms
    by (auto simp: pipeclose_def upd_pipe_def get_pipe_def kbind_apply wakeup_Ok split: if_splits dest!: kf)
qed


definition pipe_example :: kpipe where
  "pipe_example =
     \<lparr>mem = store64 (store64 (store64 ((\<lambda>_. 0)(16384 := 7)) 12288 (PA2PTE 16384 OR 0x17)) 8192 (PA2PTE 12288 OR 1))
        4096 (PA2PTE 8192 OR 1),
      freelist = 0, kend = 0,
      procs = [\<lparr>p_state = RUNNING, p_chan = ChNull, p_killed = False, p_xstate = 0, p_pid = 1, p_parent = None,
            p_kstack = 0, p_sz = 4096, p_pagetable = 4096, p_trapframe = 0,
            p_context = \<lparr>ctx_ra = 0, ctx_sp = 0, ctx_s = []\<rparr>, p_ofile = [], p_cwd = None, p_name = []\<rparr>],
      nextpid = 2, initproc = None, curproc = Some 0, trampoline = 0, forkret_pc = 0, kmsg = [],
      bufs = [], disk = \<lambda>_. [], dwrites = [], log_start = 0, log_size = 0, log_outstanding = 0,
      log_committing = False, log_dev = 0, lh_n = 0, lh_block = [],
      sb = \<lparr>sb_magic = 0, sb_size = 0, sb_nblocks = 0, sb_ninodes = 0, sb_nlog = 0, sb_logstart = 0,
        sb_inodestart = 0, sb_bmapstart = 0\<rparr>, inodes = [],
      pipes = \<lambda>_. \<lparr>pi_data = replicate PIPESIZE 0, nread = 0, nwrite = 0, readopen = True, writeopen = True\<rparr>\<rparr>"

lemma example_mem:
  "load64 (mem pipe_example) 4096 = PA2PTE 8192 OR 1" "load64 (mem pipe_example) 8192 = PA2PTE 12288 OR 1"
  "load64 (mem pipe_example) 12288 = PA2PTE 16384 OR 0x17" "mem pipe_example 16384 = 7"
  by (simp_all add: pipe_example_def load_store64_other store64_frame)

lemma example_byte: "copyin 4096 0 1 pipe_example = Ok (0, [7]) pipe_example"
proof -
  have z: "PGROUNDDOWN 0 = 0" "PX l 0 = 0" for l by (simp_all add: PGROUNDDOWN_def PX_def)
  have e: "PTE2PA (PA2PTE 8192 OR 1) = 8192" "(PA2PTE 8192 OR 1) AND PTE_V \<noteq> 0"
    "PTE2PA (PA2PTE 12288 OR 1) = 12288" "(PA2PTE 12288 OR 1) AND PTE_V \<noteq> 0"
    "PTE2PA (PA2PTE 16384 OR 0x17) = 16384" "(PA2PTE 16384 OR 0x17) AND PTE_V \<noteq> 0"
    "(PA2PTE 16384 OR 0x17) AND PTE_U \<noteq> 0" "0 < MAXVA"
    by code_simp+
  have "walk_level (Suc (Suc 0)) 4096 0 False pipe_example = Ok 12288 pipe_example"
    by (simp add: pte_addr_def z Let_def example_mem e)
  then have w: "walk_level 2 4096 0 False pipe_example = Ok 12288 pipe_example" by (simp only: numeral_2_eq_2)
  have "walkaddr 4096 0 pipe_example = Ok 16384 pipe_example"
    by (simp add: MAXVA_value walkaddr_def walk_def w get_pte_def kbind_apply example_mem e)
  then show ?thesis
    by (simp add: copyin_def z page_room_eq kbind_apply load_bytes_def example_mem)
qed


end
