(* ===== verification/Printf.thy ===== *)
theory Printf
  imports Prelude
begin

text \<open>
  The kernel's formatted output, \<^verbatim>\<open>kernel/printf.c\<close>, as the text that reaches \<^verbatim>\<open>consputc\<close>.
  \<open>None\<close> stands for undefined behaviour: a number whose digits do not fit the 16 bytes
  of \<^verbatim>\<open>printint\<close>'s buffer, or a missing argument.
\<close>

definition digits :: string where
  "digits = ''0123456789abcdef''"

function udigits :: "nat \<Rightarrow> nat \<Rightarrow> nat list" where
  "udigits base x =
     (if base < 2 \<or> x div base = 0 then [x mod base] else x mod base # udigits base (x div base))"
  by pat_completeness auto
termination
  by (relation "measure snd") (auto simp: div_greater_zero_iff)

declare udigits.simps [simp del]

definition printint :: "uint64 \<Rightarrow> nat \<Rightarrow> bool \<Rightarrow> string option" where
  "printint xx base sign =
     (let neg = (sign \<and> sint xx < 0);
          x = unat (if neg then - xx else xx);
          buf = map ((!) digits) (udigits base x) @ (if neg then ''-'' else [])
      in if length buf \<le> 16 then Some (rev buf) else None)"

definition printptr :: "uint64 \<Rightarrow> string" where
  "printptr x = ''0x'' @ map (\<lambda>i. digits ! unat (drop_bit 60 (push_bit (4 * i) x))) [0..<16]"

datatype parg = ANum uint64 | AStr "string option"

definition arg_num :: "parg list \<Rightarrow> uint64 option" where
  "arg_num args = (case args of ANum w # _ \<Rightarrow> Some w | _ \<Rightarrow> None)"

definition arg_int :: "parg list \<Rightarrow> uint64 option" where
  "arg_int args = map_option (\<lambda>w. scast (ucast w :: uint32)) (arg_num args)"

definition arg_str :: "parg list \<Rightarrow> string option" where
  "arg_str args = (case args of AStr (Some s) # _ \<Rightarrow> Some s | AStr None # _ \<Rightarrow> Some ''(null)'' | _ \<Rightarrow> None)"

text \<open>One conversion: the text printed, the rest of the format, and the rest of the arguments.\<close>

definition emit :: "string option \<Rightarrow> string \<Rightarrow> parg list \<Rightarrow> (string \<times> string \<times> parg list) option" where
  "emit s fmt args = map_option (\<lambda>t. (t, fmt, args)) s"

definition convert :: "string \<Rightarrow> parg list \<Rightarrow> (string \<times> string \<times> parg list) option" where
  "convert fmt args =
     (let c0 = hd fmt; f1 = tl fmt; c1 = (if f1 = [] then CHR 0x00 else hd f1); f2 = tl f1;
          c2 = (if f1 = [] \<or> f2 = [] then CHR 0x00 else hd f2); f3 = tl f2; rest = tl args;
          int_arg = arg_int args; long_arg = arg_num args
      in if c0 = CHR ''d'' then emit (Option.bind int_arg (\<lambda>w. printint w 10 True)) f1 rest
         else if c0 = CHR ''l'' \<and> c1 = CHR ''d'' then emit (Option.bind long_arg (\<lambda>w. printint w 10 True)) f2 rest
         else if c0 = CHR ''l'' \<and> c1 = CHR ''l'' \<and> c2 = CHR ''d'' then emit (Option.bind long_arg (\<lambda>w. printint w 10 True)) f3 rest
         else if c0 = CHR ''u'' then emit (Option.bind int_arg (\<lambda>w. printint w 10 False)) f1 rest
         else if c0 = CHR ''l'' \<and> c1 = CHR ''u'' then emit (Option.bind long_arg (\<lambda>w. printint w 10 False)) f2 rest
         else if c0 = CHR ''l'' \<and> c1 = CHR ''l'' \<and> c2 = CHR ''u'' then emit (Option.bind long_arg (\<lambda>w. printint w 10 False)) f3 rest
         else if c0 = CHR ''x'' then emit (Option.bind int_arg (\<lambda>w. printint w 16 False)) f1 rest
         else if c0 = CHR ''l'' \<and> c1 = CHR ''x'' then emit (Option.bind long_arg (\<lambda>w. printint w 16 False)) f2 rest
         else if c0 = CHR ''l'' \<and> c1 = CHR ''l'' \<and> c2 = CHR ''x'' then emit (Option.bind long_arg (\<lambda>w. printint w 16 False)) f3 rest
         else if c0 = CHR ''p'' then emit (map_option printptr long_arg) f1 rest
         else if c0 = CHR ''s'' then emit (arg_str args) f1 rest
         else if c0 = CHR ''%'' then emit (Some ''%'') f1 args
         else emit (Some [CHR ''%'', c0]) f1 args)"

lemma convert_shorter: "convert fmt args = Some (t, fmt', args') \<Longrightarrow> fmt \<noteq> [] \<Longrightarrow> length fmt' < length fmt"
  by (auto simp: convert_def emit_def Let_def neq_Nil_conv split: if_splits)

function printf :: "string \<Rightarrow> parg list \<Rightarrow> string option" where
  "printf fmt args =
     (case fmt of
        [] \<Rightarrow> Some []
      | c # f \<Rightarrow>
          if c \<noteq> CHR ''%'' then map_option ((#) c) (printf f args)
          else if f = [] then Some []
          else (case convert f args of
              None \<Rightarrow> None
            | Some (t, f', args') \<Rightarrow> map_option ((@) t) (printf f' args')))"
  by pat_completeness auto
termination
  by (relation "measure (length \<circ> fst)") (auto dest: convert_shorter)

declare printf.simps [simp del]

subsection \<open>The digits of a number\<close>

lemma udigits_value: "2 \<le> base \<Longrightarrow> foldr (\<lambda>d v. d + base * v) (udigits base x) 0 = x"
proof (induction base x rule: udigits.induct)
  case (1 base x)
  show ?case
  proof (cases "x div base = 0")
    case True
    then have "x < base" using 1(2) by (simp add: div_eq_0_iff)
    with True show ?thesis by (simp add: udigits.simps [of base x])
  next
    case False
    with 1 show ?thesis by (simp add: udigits.simps [of base x])
  qed
qed

lemma udigits_less: "2 \<le> base \<Longrightarrow> d \<in> set (udigits base x) \<Longrightarrow> d < base"
proof (induction base x rule: udigits.induct)
  case (1 base x)
  then show ?case by (cases "x div base = 0") (auto simp: udigits.simps [of base x])
qed

lemma length_udigits_le: "2 \<le> base \<Longrightarrow> length (udigits base x) \<le> Suc k \<longleftrightarrow> x < base ^ Suc k"
proof (induction k arbitrary: x)
  case 0
  then show ?case
    by (cases "x div base = 0"; cases "udigits base (x div base)")
      (auto simp: udigits.simps [of base x] div_eq_0_iff udigits.simps [of base "x div base"] split: if_splits)
next
  case (Suc k)
  have pos: "0 < base ^ Suc k" using Suc.prems by simp
  show ?case
  proof (cases "x div base = 0")
    case True
    then have "x < base" using Suc.prems by (simp add: div_eq_0_iff)
    also have "base \<le> base ^ Suc (Suc k)" using Suc.prems by simp
    finally show ?thesis using True by (simp add: udigits.simps [of base x])
  next
    case False
    then have "length (udigits base x) \<le> Suc (Suc k) \<longleftrightarrow> length (udigits base (x div base)) \<le> Suc k"
      using Suc.prems by (simp add: udigits.simps [of base x])
    also have "\<dots> \<longleftrightarrow> x div base < base ^ Suc k" using Suc by simp
    also have "\<dots> \<longleftrightarrow> x < base ^ Suc (Suc k)"
      using Suc.prems by (simp add: div_less_iff_less_mult mult.commute)
    finally show ?thesis .
  qed
qed

text \<open>Reading a decimal number back, the reference for \<^verbatim>\<open>printint\<close> in base ten.\<close>

definition digit_value :: "char \<Rightarrow> int" where
  "digit_value c = of_char c - 48"

definition dec_digits :: "string \<Rightarrow> int" where
  "dec_digits s = foldl (\<lambda>v c. digit_value c + 10 * v) 0 s"

definition dec_value :: "string \<Rightarrow> int" where
  "dec_value s = (case s of c # ds \<Rightarrow> if c = CHR ''-'' then - dec_digits ds else dec_digits s | [] \<Rightarrow> 0)"

lemma digit_value_digits: "d < 10 \<Longrightarrow> digit_value (digits ! d) = int d"
proof -
  assume "d < 10"
  then have "d \<in> set [0, 1, 2, 3, 4, 5, 6, 7, 8, 9]" by auto
  then show ?thesis by (auto simp: digit_value_def digits_def)
qed

lemma digits_not_minus: "d < 10 \<Longrightarrow> digits ! d \<noteq> CHR ''-''"
proof -
  assume "d < 10"
  then have "d \<in> set [0, 1, 2, 3, 4, 5, 6, 7, 8, 9]" by auto
  then show ?thesis by (auto simp: digits_def)
qed

lemma dec_digits_rev:
  "\<forall>d \<in> set ds. d < 10 \<Longrightarrow> dec_digits (rev (map ((!) digits) ds)) = int (foldr (\<lambda>d v. d + 10 * v) ds 0)"
  by (induction ds) (auto simp: dec_digits_def digit_value_digits)

lemma udigits_nonempty [simp]: "udigits base x \<noteq> []"
  by (subst udigits.simps) simp

lemma dec_value_digits:
  defines "s \<equiv> \<lambda>x. rev (map ((!) digits) (udigits 10 x))"
  shows "dec_value (s x) = int x" "dec_value (CHR ''-'' # s x) = - int x"
proof -
  have v: "dec_digits (s x) = int x"
    unfolding s_def by (subst dec_digits_rev) (auto simp: udigits_less udigits_value)
  obtain c cs where cs: "s x = c # cs" by (cases "s x") (auto simp: s_def)
  then have "c \<in> set (s x)" by simp
  then obtain d where "d \<in> set (udigits 10 x)" "c = digits ! d" by (auto simp: s_def)
  then have "c \<noteq> CHR ''-''" using udigits_less [of 10 d x] digits_not_minus by simp
  with v cs show "dec_value (s x) = int x" "dec_value (CHR ''-'' # s x) = - int x"
    by (simp_all add: dec_value_def)
qed

lemma unat_of_sint:
  assumes "0 \<le> i" and "i < 2 ^ 64"
  shows "int (unat (word_of_int i :: uint64)) = i"
  using assms by (simp add: uint_word_of_int)

lemma sint_nonnegative: "0 \<le> sint (xx :: uint64) \<Longrightarrow> sint xx = int (unat xx)"
  using unat_of_sint [of "sint xx"] sint_less [of xx] by simp

lemma sint_negative: "sint (xx :: uint64) < 0 \<Longrightarrow> sint xx = - int (unat (- xx))"
  using unat_of_sint [of "- sint xx"] sint_greater_eq [of xx] by simp

lemma printint_signed:
  "printint xx 10 True = None \<longleftrightarrow> sint xx \<le> - (10 ^ 15) \<or> 10 ^ 16 \<le> sint xx"
  "printint xx 10 True = Some s \<Longrightarrow> dec_value s = sint xx"
proof -
  have "(printint xx 10 True = None \<longleftrightarrow> sint xx \<le> - (10 ^ 15) \<or> 10 ^ 16 \<le> sint xx) \<and>
    (printint xx 10 True = Some s \<longrightarrow> dec_value s = sint xx)"
  proof (cases "sint xx < 0")
    case True
    define x where "x = unat (- xx)"
    have "sint xx = - int x" using sint_negative [OF True] by (simp add: x_def)
    then show ?thesis
      using True length_udigits_le [of 10 x 14] dec_value_digits(2) [of x]
      by (auto simp: printint_def Let_def x_def [symmetric])
  next
    case False
    define x where "x = unat xx"
    have "sint xx = int x" using sint_nonnegative False by (simp add: x_def)
    then show ?thesis
      using False length_udigits_le [of 10 x 15] dec_value_digits(1) [of x]
      by (auto simp: printint_def Let_def x_def [symmetric])
  qed
  then show "printint xx 10 True = None \<longleftrightarrow> sint xx \<le> - (10 ^ 15) \<or> 10 ^ 16 \<le> sint xx"
    "printint xx 10 True = Some s \<Longrightarrow> dec_value s = sint xx" by auto
qed

text \<open>
  C27: printing a signed number in base ten (\<^verbatim>\<open>%d\<close>, \<^verbatim>\<open>%ld\<close>) writes outside the digit buffer exactly for
  numbers with more than sixteen characters, and otherwise prints text that reads back as
  the number.
\<close>

theorem printint_decimal:
  "case printint xx 10 True of
     None \<Rightarrow> sint xx \<le> - (10 ^ 15) \<or> 10 ^ 16 \<le> sint xx
   | Some s \<Rightarrow> - (10 ^ 15) < sint xx \<and> sint xx < 10 ^ 16 \<and> dec_value s = sint xx"
  using printint_signed(1) [of xx] printint_signed(2) [of xx]
  by (auto split: option.split)

text \<open>The text of a number in range.\<close>

definition dec :: "int \<Rightarrow> string" where
  "dec i = the (printint (word_of_int i) 10 True)"

lemma sint_word_of_int64: "- (2 ^ 63) \<le> i \<Longrightarrow> i < 2 ^ 63 \<Longrightarrow> sint (word_of_int i :: uint64) = i"
  by (simp add: signed_of_int signed_take_bit_int_eq_self)

lemma sint_in_print_range:
  assumes "- (10 ^ 15) < i" and "i < 10 ^ 16"
  shows "sint (word_of_int i :: uint64) = i"
  using assms by (intro sint_word_of_int64) simp_all

lemma printint_dec:
  assumes "- (10 ^ 15) < i" and "i < 10 ^ 16"
  shows "printint (word_of_int i) 10 True = Some (dec i)"
proof -
  have "printint (word_of_int i) 10 True \<noteq> None"
    unfolding printint_signed(1) sint_in_print_range [OF assms] using assms by linarith
  then show ?thesis unfolding dec_def by (rule option.collapse [symmetric])
qed

lemma dec_value_dec:
  assumes "- (10 ^ 15) < i" and "i < 10 ^ 16"
  shows "dec_value (dec i) = i"
  using printint_signed(2) [OF printint_dec [OF assms]] unfolding sint_in_print_range [OF assms] .

end
