(* ===== verification/Ps.thy ===== *)
theory Ps
  imports Proc Printf
begin

text \<open>
  Process listings: \<^verbatim>\<open>procdump\<close>, and the repository's \<^verbatim>\<open>ps\<close> with its parser for lists of process
  identifiers, from \<^verbatim>\<open>kernel/proc.c\<close>.  Strings are byte lists without their terminator.
  \<open>None\<close>, or the panic of \<open>undefined_behaviour\<close>, stands for an access outside an array.
\<close>

abbreviation (input) tab :: string where "tab \<equiv> [CHR 0x09]"
abbreviation (input) nl :: string where "nl \<equiv> [CHR 0x0A]"
abbreviation (input) COMMA :: uint8 where "COMMA \<equiv> 44"

definition undefined_behaviour :: "('s, 'a) kfun" where
  "undefined_behaviour = kpanic ''undefined behaviour''"

definition kprintf :: "string \<Rightarrow> parg list \<Rightarrow> ('a kproc_scheme, unit) kfun" where
  "kprintf fmt args = (case printf fmt args of Some t \<Rightarrow> kprint t | None \<Rightarrow> undefined_behaviour)"

definition cstring :: "uint8 list \<Rightarrow> string" where
  "cstring bs = map (\<lambda>b. char_of (unat b)) (takeWhile (\<lambda>b. b \<noteq> 0) bs)"

definition int_arg :: "int \<Rightarrow> parg" where
  "int_arg x = ANum (word_of_int x)"

fun state_name :: "procstate \<Rightarrow> string" where
  "state_name UNUSED = ''unused''"
| "state_name USED = ''used''"
| "state_name SLEEPING = ''sleep ''"
| "state_name RUNNABLE = ''runble''"
| "state_name RUNNING = ''run   ''"
| "state_name ZOMBIE = ''zombie''"

definition procdump_entry :: "nat \<Rightarrow> ('a kproc_scheme, unit) kfun" where
  "procdump_entry i = kbind (get_proc i) (\<lambda>p.
     if p_state p = UNUSED then kret ()
     else kbind (kprintf ''%d %s %s''
         [int_arg (p_pid p), AStr (Some (state_name (p_state p))), AStr (Some (cstring (p_name p)))]) (\<lambda>_.
       kprintf nl []))"

definition procdump :: "('a kproc_scheme, unit) kfun" where
  "procdump = kbind (kprintf nl []) (\<lambda>_. kforeach [0..<NPROC] procdump_entry)"

subsection \<open>Lists of process identifiers\<close>

definition is_digit :: "uint8 \<Rightarrow> bool" where
  "is_digit c \<longleftrightarrow> 48 \<le> c \<and> c \<le> 57"

definition atoi :: "uint8 list \<Rightarrow> int" where
  "atoi s = foldl (\<lambda>n c. n * 10 + uint c - 48) 0 (takeWhile is_digit s)"

text \<open>
  \<open>parsePIDs_loop args k pids\<close> is the loop with \<open>args\<close> still to be read and \<open>k\<close> entries
  written; a token of ten or more characters fills \<^verbatim>\<open>pidstr\<close>.
\<close>

lemma rest_shorter: "xs \<noteq> [] \<Longrightarrow> length (dropWhile P xs) - Suc 0 < length xs"
  using length_dropWhile_le [of P xs] by (cases xs) auto

function parsePIDs_loop :: "uint8 list \<Rightarrow> nat \<Rightarrow> int list \<Rightarrow> (int \<times> int list) option" where
  "parsePIDs_loop args k pids =
     (if args = [] then (if k < length pids then Some (0, pids[k := -1]) else None)
      else
        let tok = takeWhile (\<lambda>c. c \<noteq> COMMA) args; rest = dropWhile (\<lambda>c. c \<noteq> COMMA) args
        in if length tok \<ge> 10 then Some (-1, pids)
           else if tok = [] then Some (-1, pids)
           else if k < length pids then parsePIDs_loop (drop 1 rest) (k + 1) (pids[k := atoi tok])
           else None)"
  by pat_completeness auto
termination
  by (relation "measure (\<lambda>(args, k, pids). length args)")
    (auto simp: rest_shorter)

declare parsePIDs_loop.simps [simp del]

definition parsePIDs :: "uint8 list \<Rightarrow> int list \<Rightarrow> (int \<times> int list) option" where
  "parsePIDs args pids = parsePIDs_loop args 0 pids"

subsection \<open>The listing\<close>

record psopts =
  onlyRunningProcesses :: bool
  longList :: bool
  pidFilter :: bool
  pids :: "int list"

definition prefix_is :: "uint8 list \<Rightarrow> uint8 list \<Rightarrow> bool" where
  "prefix_is lit flag \<longleftrightarrow> strncmp (two_strings lit flag) 0 4096 (length lit) = 0"

fun ps_flags :: "nat \<Rightarrow> uint8 list option list \<Rightarrow> psopts \<Rightarrow> ('s, psopts) kfun" where
  "ps_flags 0 flags opt = kret opt"
| "ps_flags (Suc k) [] opt = undefined_behaviour"
| "ps_flags (Suc k) (None # flags) opt = null_deref"
| "ps_flags (Suc k) (Some f # flags) opt =
     (if prefix_is [114] f then ps_flags k flags (opt\<lparr>onlyRunningProcesses := True\<rparr>)
      else if prefix_is [45, 108] f then ps_flags k flags (opt\<lparr>longList := True\<rparr>)
      else if prefix_is [45, 112] f then
        (case flags of
           [] \<Rightarrow> undefined_behaviour
         | None # _ \<Rightarrow> null_deref
         | Some a # flags' \<Rightarrow>
             (case parsePIDs a (pids opt) of
                None \<Rightarrow> undefined_behaviour
              | Some (r, ps) \<Rightarrow>
                  ps_flags (k - 1) flags' (opt\<lparr>pidFilter := pidFilter opt \<or> r = 0, pids := ps\<rparr>)))
      else ps_flags k flags opt)"

fun pid_listed :: "int \<Rightarrow> int list \<Rightarrow> bool option" where
  "pid_listed p [] = None"
| "pid_listed p (x # xs) = (if x = -1 then Some False else if p = x then Some True else pid_listed p xs)"

definition ps_header :: "psopts \<Rightarrow> string" where
  "ps_header opt = (if longList opt
     then ''PID'' @ tab @ ''PPID'' @ tab @ ''Addr'' @ tab @ tab @ ''State'' @ tab @ ''Size'' @ tab @ ''Cmd'' @ nl
     else ''PID'' @ tab @ ''Cmd'' @ nl)"

definition ps_ppid :: "proc list \<Rightarrow> proc \<Rightarrow> int" where
  "ps_ppid tbl p = (case p_parent p of None \<Rightarrow> 0 | Some q \<Rightarrow> p_pid (tbl ! q))"

definition ps_print :: "psopts \<Rightarrow> proc list \<Rightarrow> proc \<Rightarrow> ('a kproc_scheme, unit) kfun" where
  "ps_print opt tbl p =
     (if longList opt then
        kprintf (''%d'' @ tab @ ''%d'' @ tab @ ''%ld'' @ tab @ ''%s'' @ tab @ ''%ld'' @ tab @ ''%s'' @ nl)
          [int_arg (p_pid p), int_arg (ps_ppid tbl p), ANum (p_kstack p),
           AStr (Some (state_name (p_state p))), ANum (p_sz p), AStr (Some (cstring (p_name p)))]
      else kprintf (''%d'' @ tab @ ''%s'' @ nl) [int_arg (p_pid p), AStr (Some (cstring (p_name p)))])"

definition ps_entry :: "psopts \<Rightarrow> nat \<Rightarrow> ('a kproc_scheme, unit) kfun" where
  "ps_entry opt i = kbind (kget procs) (\<lambda>tbl. let p = tbl ! i in
     if p_state p = UNUSED then kret ()
     else if p_state p \<noteq> RUNNING \<and> onlyRunningProcesses opt then kret ()
     else if pidFilter opt then
       (case pid_listed (p_pid p) (pids opt) of
          None \<Rightarrow> undefined_behaviour
        | Some False \<Rightarrow> kret ()
        | Some True \<Rightarrow> ps_print opt tbl p)
     else ps_print opt tbl p)"

text \<open>\<open>stale\<close> is what the stack holds where \<^verbatim>\<open>ps\<close> keeps its array of identifiers.\<close>

definition ps :: "int list \<Rightarrow> int \<Rightarrow> uint8 list option list \<Rightarrow> ('a kproc_scheme, int) kfun" where
  "ps stale argc flags =
     kbind (ps_flags (nat (argc - 1)) (drop 1 flags)
       \<lparr>onlyRunningProcesses = False, longList = False, pidFilter = False, pids = stale\<rparr>) (\<lambda>opt.
     kbind (kprintf (ps_header opt) []) (\<lambda>_.
     kbind (kforeach [0..<NPROC] (ps_entry opt)) (\<lambda>_.
     kret 1)))"

subsection \<open>Correctness of the identifier lists\<close>

fun comma_join :: "uint8 list list \<Rightarrow> uint8 list" where
  "comma_join [] = []"
| "comma_join [t] = t"
| "comma_join (t # ts) = t @ COMMA # comma_join ts"

definition pid_token :: "uint8 list \<Rightarrow> bool" where
  "pid_token t \<longleftrightarrow> t \<noteq> [] \<and> length t < 10 \<and> COMMA \<notin> set t"

lemma comma_join_cut:
  assumes "pid_token t"
  shows "takeWhile (\<lambda>c. c \<noteq> COMMA) (comma_join (t # ts)) = t"
    "drop 1 (dropWhile (\<lambda>c. c \<noteq> COMMA) (comma_join (t # ts))) = comma_join ts"
    "comma_join (t # ts) \<noteq> []"
proof -
  have P: "\<forall>c \<in> set t. c \<noteq> COMMA" and "t \<noteq> []" using assms by (auto simp: pid_token_def)
  then show "takeWhile (\<lambda>c. c \<noteq> COMMA) (comma_join (t # ts)) = t"
    "drop 1 (dropWhile (\<lambda>c. c \<noteq> COMMA) (comma_join (t # ts))) = comma_join ts"
    "comma_join (t # ts) \<noteq> []"
    by (cases ts; simp add: takeWhile_eq_all_conv [THEN iffD2] dropWhile_eq_Nil_conv [THEN iffD2])+
qed

lemma parsePIDs_loop_tokens:
  assumes "\<forall>t \<in> set ts. pid_token t"
  shows "parsePIDs_loop (comma_join ts) k arr =
    (if k + length ts < length arr
     then Some (0, take k arr @ map atoi ts @ -1 # drop (k + length ts + 1) arr) else None)"
  using assms
proof (induction ts arbitrary: k arr)
  case Nil
  then show ?case by (simp add: parsePIDs_loop.simps [of "[]"] upd_conv_take_nth_drop)
next
  case (Cons t ts)
  have t: "pid_token t" using Cons.prems by simp
  then have "t \<noteq> []" "\<not> 10 \<le> length t" by (auto simp: pid_token_def)
  then have "parsePIDs_loop (comma_join (t # ts)) k arr =
      (if k < length arr then parsePIDs_loop (comma_join ts) (k + 1) (arr[k := atoi t]) else None)"
    using comma_join_cut [OF t, of ts]
    by (subst parsePIDs_loop.simps) (simp del: comma_join.simps drop_0 drop_Suc One_nat_def)
  then show ?case using Cons by (auto simp: take_Suc_conv_app_nth)
qed

lemma atoi_bounds:
  "0 \<le> atoi t \<and> atoi t < 10 ^ length t"
proof -
  have "0 \<le> foldl (\<lambda>n c. n * 10 + uint c - 48) a ds \<and>
      foldl (\<lambda>n c. n * 10 + uint c - 48) a ds < (a + 1) * 10 ^ length ds"
    if "\<forall>d \<in> set ds. is_digit d" "0 \<le> a" for ds :: "uint8 list" and a
    using that
  proof (induction ds arbitrary: a)
    case (Cons d ds)
    have d: "48 \<le> uint d" "uint d \<le> 57" using Cons.prems(1) by (auto simp: is_digit_def word_le_def)
    define b where "b = a * 10 + uint d - 48"
    have b: "0 \<le> b" "b + 1 \<le> (a + 1) * 10" using d Cons.prems(2) by (auto simp: b_def)
    then have le: "(b + 1) * 10 ^ length ds \<le> (a + 1) * 10 * 10 ^ length ds" by (intro mult_right_mono) auto
    have "foldl (\<lambda>n c. n * 10 + uint c - 48) a (d # ds) = foldl (\<lambda>n c. n * 10 + uint c - 48) b ds"
      by (simp add: b_def)
    then show ?case using Cons.IH [of b] Cons.prems(1) b(1) order_less_le_trans [OF _ le]
      by (simp only: list.set ball_simps length_Cons power_Suc mult.assoc) blast
  qed simp
  from this [of "takeWhile is_digit t" 0]
  have *: "0 \<le> atoi t" "atoi t < 10 ^ length (takeWhile is_digit t)"
    by (auto simp: atoi_def dest: set_takeWhileD)
  have "(10::int) ^ length (takeWhile is_digit t) \<le> 10 ^ length t"
    by (intro power_increasing) (auto simp: length_takeWhile_le)
  then show ?thesis using * by linarith
qed

text \<open>
  C26: a comma-separated list of tokens of one to nine characters is parsed to the array of
  their numbers with a terminating -1 when it has fewer entries than the array, and is
  written past the end of the array otherwise; every number fits an \<^verbatim>\<open>int\<close>.
\<close>

theorem parsePIDs_tokens:
  assumes "\<forall>t \<in> set ts. pid_token t" and "length stale = NPROC"
  shows "parsePIDs (comma_join ts) stale =
      (if length ts < NPROC then Some (0, map atoi ts @ -1 # drop (length ts + 1) stale) else None) \<and>
    (\<forall>t \<in> set ts. 0 \<le> atoi t \<and> atoi t < 10 ^ 9)"
proof -
  have "0 \<le> atoi t \<and> atoi t < 10 ^ 9" if "t \<in> set ts" for t
  proof -
    have "(10::int) ^ length t \<le> 10 ^ 9"
      using assms(1) that by (intro power_increasing) (auto simp: pid_token_def)
    then show ?thesis using atoi_bounds [of t] by simp
  qed
  then show ?thesis using parsePIDs_loop_tokens [OF assms(1), of 0 stale] assms(2)
    by (simp add: parsePIDs_def)
qed

theorem parsePIDs_tokens_witness:
  "parsePIDs [49, 44, 50, 51] (replicate NPROC 7) = Some (0, 1 # 23 # -1 # replicate 61 7)"
proof -
  have "\<forall>t \<in> set [[49], [50, 51]]. pid_token t" by (simp add: pid_token_def)
  then show ?thesis
    using parsePIDs_tokens [of "[[49], [50, 51]]" "replicate NPROC 7"]
    by (simp add: atoi_def is_digit_def)
qed

subsection \<open>Correctness of the listing\<close>

definition ps_selected :: "psopts \<Rightarrow> proc \<Rightarrow> bool" where
  "ps_selected opt p \<longleftrightarrow> p_state p \<noteq> UNUSED \<and> (onlyRunningProcesses opt \<longrightarrow> p_state p = RUNNING) \<and>
     (pidFilter opt \<longrightarrow> p_pid p \<in> set (takeWhile (\<lambda>x. x \<noteq> -1) (pids opt)))"

definition ps_line :: "psopts \<Rightarrow> proc list \<Rightarrow> proc \<Rightarrow> string" where
  "ps_line opt tbl p =
     (if longList opt then dec (p_pid p) @ tab @ dec (ps_ppid tbl p) @ tab @ dec (uint (p_kstack p)) @ tab @
        state_name (p_state p) @ tab @ dec (uint (p_sz p)) @ tab @ cstring (p_name p) @ nl
      else dec (p_pid p) @ tab @ cstring (p_name p) @ nl)"

definition printable :: "proc list \<Rightarrow> bool" where
  "printable tbl \<longleftrightarrow> length tbl = NPROC \<and>
     (\<forall>p \<in> set tbl. - (2 ^ 31) \<le> p_pid p \<and> p_pid p < 2 ^ 31 \<and> uint (p_kstack p) < 10 ^ 15 \<and>
        uint (p_sz p) < 10 ^ 15 \<and> (\<forall>q. p_parent p = Some q \<longrightarrow> q < NPROC))"

lemma pid_listed_terminated:
  "-1 \<in> set xs \<Longrightarrow> pid_listed p xs = Some (p \<in> set (takeWhile (\<lambda>x. x \<noteq> -1) xs))"
  by (induction xs) auto

lemma arg_int_int_arg:
  assumes "- (2 ^ 31) \<le> i" and "i < 2 ^ 31"
  shows "arg_int (int_arg i # args) = Some (word_of_int i)"
proof -
  have "sint (word_of_int i :: uint32) = i"
    using assms by (simp add: signed_of_int signed_take_bit_int_eq_self)
  then have "(scast (word_of_int i :: uint32) :: uint64) = word_of_int i" by (simp only: scast_eq)
  moreover have "(ucast (word_of_int i :: uint64) :: uint32) = word_of_int i" by transfer simp
  ultimately show ?thesis by (simp only: arg_int_def arg_num_def int_arg_def list.case parg.case option.map)
qed

lemma printint_int_arg:
  assumes "- (2 ^ 31) \<le> i" and "i < 2 ^ 31"
  shows "printint (word_of_int i) 10 True = Some (dec i)"
  using assms by (intro printint_dec) simp_all

lemma printint_uint: "uint w < 10 ^ 15 \<Longrightarrow> printint w 10 True = Some (dec (uint w))"
  using printint_dec [of "uint w"] uint_ge_0 [of w] by simp

lemma printf_plain: "CHR ''%'' \<notin> set t \<Longrightarrow> printf (t @ f) args = map_option ((@) t) (printf f args)"
proof (induction t)
  case Nil
  then show ?case by (cases "printf f args") simp_all
next
  case (Cons c t)
  then have "c \<noteq> CHR ''%''" by auto
  with Cons show ?case by (cases "printf f args") (simp_all add: printf.simps [of "c # t @ f"])
qed

lemmas printf_eval = printf.simps [of "[]"] printf.simps [of "c # f" for c f] convert_def emit_def Let_def

lemma ps_print_prints:
  assumes "printable tbl" and "p \<in> set tbl"
  shows "ps_print opt tbl p s = Ok () (s\<lparr>kmsg := kmsg s @ ps_line opt tbl p\<rparr>)"
proof -
  have p: "- (2 ^ 31) \<le> p_pid q" "p_pid q < 2 ^ 31" if "q \<in> set tbl" for q
    using assms(1) that by (auto simp: printable_def)
  have k: "uint (p_kstack p) < 10 ^ 15" "uint (p_sz p) < 10 ^ 15"
    using assms by (auto simp: printable_def)
  have pp: "- (2 ^ 31) \<le> ps_ppid tbl p" "ps_ppid tbl p < 2 ^ 31"
    using assms p by (auto simp: ps_ppid_def printable_def split: option.split)
  show ?thesis
  proof (cases "longList opt")
    case True
    have "printf (''%d'' @ tab @ ''%d'' @ tab @ ''%ld'' @ tab @ ''%s'' @ tab @ ''%ld'' @ tab @ ''%s'' @ nl)
        [int_arg (p_pid p), int_arg (ps_ppid tbl p), ANum (p_kstack p),
         AStr (Some (state_name (p_state p))), ANum (p_sz p), AStr (Some (cstring (p_name p)))] =
        Some (ps_line opt tbl p)"
      using True
      by (simp add: printf_eval arg_int_int_arg [OF p [OF assms(2)]] printint_int_arg [OF p [OF assms(2)]]
          arg_int_int_arg [OF pp] printint_int_arg [OF pp] printint_uint [OF k(1)] printint_uint [OF k(2)]
          arg_num_def arg_str_def ps_line_def)
    then show ?thesis using True by (simp add: ps_print_def kprintf_def kprint_def)
  next
    case False
    have "printf (''%d'' @ tab @ ''%s'' @ nl) [int_arg (p_pid p), AStr (Some (cstring (p_name p)))] =
        Some (ps_line opt tbl p)"
      using False
      by (simp add: printf_eval arg_int_int_arg [OF p [OF assms(2)]] printint_int_arg [OF p [OF assms(2)]]
          arg_str_def ps_line_def)
    then show ?thesis using False by (simp add: ps_print_def kprintf_def kprint_def)
  qed
qed

lemma ps_entry_prints:
  assumes "printable (procs s)" and "i < NPROC" and "pidFilter opt \<longrightarrow> -1 \<in> set (pids opt)"
  shows "ps_entry opt i s = Ok () (s\<lparr>kmsg := kmsg s @
    (if ps_selected opt (procs s ! i) then ps_line opt (procs s) (procs s ! i) else [])\<rparr>)"
proof -
  have "procs s ! i \<in> set (procs s)" using assms by (simp add: printable_def)
  note ln = ps_print_prints [OF assms(1) this]
  show ?thesis
    using assms(3) pid_listed_terminated [of "pids opt" "p_pid (procs s ! i)"] ln [of opt s]
    by (auto simp: ps_entry_def ps_selected_def Let_def kbind_def split: option.split bool.split)
qed

lemma ps_entries_print:
  assumes "printable (procs s)" and "set is \<subseteq> {..<NPROC}" and "pidFilter opt \<longrightarrow> -1 \<in> set (pids opt)"
  shows "kforeach is (ps_entry opt) s = Ok () (s\<lparr>kmsg := kmsg s @
    concat (map (ps_line opt (procs s)) (filter (ps_selected opt) (map ((!) (procs s)) is)))\<rparr>)"
  using assms
proof (induction "is" arbitrary: s)
  case (Cons i "is")
  then show ?case by (simp add: kbind_def ps_entry_prints)
qed simp


lemma procdump_entry_prints:
  assumes "printable (procs s)" and "i < NPROC"
  shows "\<exists>t. procdump_entry i s = Ok () (s\<lparr>kmsg := kmsg s @ t\<rparr>)"
proof -
  let ?p = "procs s ! i"
  have "?p \<in> set (procs s)" using assms by (simp add: printable_def)
  then have r: "- (2 ^ 31) \<le> p_pid ?p" "p_pid ?p < 2 ^ 31" using assms(1) by (auto simp: printable_def)
  have "\<exists>t. printf ''%d %s %s'' [int_arg (p_pid ?p), AStr (Some x), AStr (Some y)] = Some t" for x y
    by (simp add: printf_eval arg_int_int_arg [OF r] printint_int_arg [OF r] arg_str_def)
  then obtain t where "printf ''%d %s %s'' [int_arg (p_pid ?p), AStr (Some (state_name (p_state ?p))),
      AStr (Some (cstring (p_name ?p)))] = Some t" by blast
  moreover have "printf nl [] = Some nl" by (simp add: printf_eval)
  ultimately show ?thesis
    by (cases "p_state ?p = UNUSED") (auto simp: procdump_entry_def get_proc_def kbind_apply kprintf_def kprint_def
        intro: exI [of _ "[]"])
qed

lemma procdump_prints:
  assumes "printable (procs s)"
  shows "\<exists>t. procdump s = Ok () (s\<lparr>kmsg := kmsg s @ t\<rparr>)"
proof -
  have entries: "\<exists>t. kforeach is procdump_entry s' = Ok () (s'\<lparr>kmsg := kmsg s' @ t\<rparr>)"
    if "set is \<subseteq> {..<NPROC}" "printable (procs s')" for "is" and s' :: "'a kproc_scheme"
    using that
  proof (induction "is" arbitrary: s')
    case Nil
    then show ?case by (intro exI [of _ "[]"]) simp
  next
    case (Cons i "is")
    then obtain t where "procdump_entry i s' = Ok () (s'\<lparr>kmsg := kmsg s' @ t\<rparr>)"
      using procdump_entry_prints [of s' i] by auto
    moreover obtain u where "kforeach is procdump_entry (s'\<lparr>kmsg := kmsg s' @ t\<rparr>) =
        Ok () (s'\<lparr>kmsg := kmsg s' @ t @ u\<rparr>)"
      using Cons.IH [of "s'\<lparr>kmsg := kmsg s' @ t\<rparr>"] Cons.prems by auto
    ultimately show ?case by auto
  qed
  have "printf nl [] = Some nl" by (simp add: printf_eval)
  moreover obtain t where "kforeach [0..<NPROC] procdump_entry (s\<lparr>kmsg := kmsg s @ nl\<rparr>) =
      Ok () (s\<lparr>kmsg := kmsg s @ nl @ t\<rparr>)"
    using entries [of "[0..<NPROC]" "s\<lparr>kmsg := kmsg s @ nl\<rparr>"] assms
    by (auto simp: lessThan_atLeast0 simp del: upt_conv_Cons upt_rec_numeral)
  ultimately show ?thesis
    by (auto simp: procdump_def kprintf_def [of nl] kprint_def kbind_apply simp del: upt_conv_Cons upt_rec_numeral)
qed

definition ps_example :: kproc where
  "ps_example =
     (let p0 = \<lparr>p_state = UNUSED, p_chan = ChNull, p_killed = False, p_xstate = 0, p_pid = 0, p_parent = None,
            p_kstack = 0, p_sz = 0, p_pagetable = 0, p_trapframe = 0,
            p_context = \<lparr>ctx_ra = 0, ctx_sp = 0, ctx_s = []\<rparr>, p_ofile = [], p_cwd = None, p_name = []\<rparr>
      in \<lparr>mem = \<lambda>_. 0, freelist = 0, kend = 0,
          procs = p0\<lparr>p_state := RUNNING, p_pid := 1, p_name := [115, 104, 0]\<rparr> # replicate 63 p0,
          nextpid = 2, initproc = Some 0, curproc = Some 0, trampoline = 0, forkret_pc = 0, kmsg = []\<rparr>)"


end
