(* ===== verification/Console.thy ===== *)
theory Console
  imports Pipe Ps
begin

text \<open>
  The console and its UART, \<^verbatim>\<open>kernel/console.c\<close> and \<^verbatim>\<open>kernel/uart.c\<close>.  The device is modelled by the
  characters still to be received (\<open>uart_in\<close>), by how many more characters the transmit
  register accepts before it reads as busy (\<open>uart_idle\<close>), and by the characters written to the
  transmit register (\<open>kmsg\<close>).  A processor that spins because another one has panicked makes no
  further step, which is the outcome of \<open>frozen\<close>.
\<close>

abbreviation (input) INPUT_BUF_SIZE :: nat where "INPUT_BUF_SIZE \<equiv> 128"
abbreviation (input) UART_TX_BUF_SIZE :: nat where "UART_TX_BUF_SIZE \<equiv> 32"
abbreviation (input) CONSOLE :: nat where "CONSOLE \<equiv> 1"
abbreviation (input) NDEV :: nat where "NDEV \<equiv> 10"

abbreviation (input) CTRL_D :: uint8 where "CTRL_D \<equiv> 4"
abbreviation (input) CTRL_H :: uint8 where "CTRL_H \<equiv> 8"
abbreviation (input) NEWLINE :: uint8 where "NEWLINE \<equiv> 10"
abbreviation (input) RETURN :: uint8 where "RETURN \<equiv> 13"
abbreviation (input) CTRL_P :: uint8 where "CTRL_P \<equiv> 16"
abbreviation (input) CTRL_U :: uint8 where "CTRL_U \<equiv> 21"
abbreviation (input) DELETE :: uint8 where "DELETE \<equiv> 127"

text \<open>A row of the device switch; the console is the only device with functions.\<close>

datatype devsw = NoDevice | ConsoleDevice

record kcons = kpipe +
  cons_buf :: "uint8 list"
  cons_r :: uint32
  cons_w :: uint32
  cons_e :: uint32
  uart_tx_buf :: "uint8 list"
  uart_tx_w :: uint64
  uart_tx_r :: uint64
  uart_regs :: "(nat \<times> uint8) list"
  uart_in :: "uint8 list"
  uart_idle :: nat
  panicked :: bool
  devsws :: "devsw list"

definition frozen :: "('s, 'a) kfun" where
  "frozen = kpanic ''frozen''"

subsection \<open>The UART driver\<close>

text \<open>\<open>uart_regs\<close> records the writes to the control registers, as register number and value.\<close>

definition WriteReg :: "nat \<Rightarrow> uint8 \<Rightarrow> ('a kcons_scheme, unit) kfun" where
  "WriteReg r v = kmodify (\<lambda>s. s\<lparr>uart_regs := uart_regs s @ [(r, v)]\<rparr>)"

definition write_THR :: "uint8 \<Rightarrow> ('a kcons_scheme, unit) kfun" where
  "write_THR c = kprint [char_of (unat c)]"

definition uartinit :: "('a kcons_scheme, unit) kfun" where
  "uartinit = kforeach [(1, 0x00), (3, 0x80), (0, 0x03), (1, 0x00), (3, 0x03), (2, 0x07), (1, 0x03)]
     (\<lambda>(r, v). WriteReg r v)"

fun uartstart_loop :: "nat \<Rightarrow> ('a kcons_scheme, unit) kfun" where
  "uartstart_loop 0 = kret ()"
| "uartstart_loop (Suc k) = kbind (kget (\<lambda>s. s)) (\<lambda>s.
     if uart_tx_w s = uart_tx_r s then kret ()
     else if uart_idle s = 0 then kret ()
     else
       let c = uart_tx_buf s ! (unat (uart_tx_r s) mod UART_TX_BUF_SIZE) in
       kbind (kmodify (\<lambda>s. s\<lparr>uart_tx_r := uart_tx_r s + 1\<rparr>)) (\<lambda>_.
       kbind (wakeup ChUartTx) (\<lambda>_.
       kbind (write_THR c) (\<lambda>_.
       kbind (kmodify (\<lambda>s. s\<lparr>uart_idle := uart_idle s - 1\<rparr>)) (\<lambda>_.
       uartstart_loop k)))))"

text \<open>Every iteration removes a character from the buffer or leaves the loop.\<close>

definition uartstart :: "('a kcons_scheme, unit) kfun" where
  "uartstart = kbind (kget (\<lambda>s. unat (uart_tx_w s - uart_tx_r s))) uartstart_loop"

definition uartputc :: "uint8 \<Rightarrow> ('a kcons_scheme, unit) kfun" where
  "uartputc c = kbind (kget (\<lambda>s. s)) (\<lambda>s.
     if panicked s then frozen
     else if uart_tx_w s = uart_tx_r s + of_nat UART_TX_BUF_SIZE then sleep ChUartTx
     else
       kbind (kmodify (\<lambda>s. s\<lparr>uart_tx_buf := (uart_tx_buf s)[unat (uart_tx_w s) mod UART_TX_BUF_SIZE := c],
         uart_tx_w := uart_tx_w s + 1\<rparr>)) (\<lambda>_.
       uartstart))"

definition uartputc_sync :: "uint8 \<Rightarrow> ('a kcons_scheme, unit) kfun" where
  "uartputc_sync c = kbind (kget panicked) (\<lambda>p. if p then frozen else write_THR c)"

definition uartgetc :: "('a kcons_scheme, uint8 option) kfun" where
  "uartgetc = kbind (kget uart_in) (\<lambda>cs.
     case cs of
       [] \<Rightarrow> kret None
     | c # cs' \<Rightarrow> kbind (kmodify (\<lambda>s. s\<lparr>uart_in := cs'\<rparr>)) (\<lambda>_. kret (Some c)))"

subsection \<open>The console\<close>

text \<open>\<open>None\<close> is \<^verbatim>\<open>BACKSPACE\<close>, which is no character.\<close>

definition consputc :: "uint8 option \<Rightarrow> ('a kcons_scheme, unit) kfun" where
  "consputc oc = (case oc of
       None \<Rightarrow> kbind (uartputc_sync CTRL_H) (\<lambda>_. kbind (uartputc_sync 32) (\<lambda>_. uartputc_sync CTRL_H))
     | Some c \<Rightarrow> uartputc_sync c)"

fun consolewrite_loop :: "nat \<Rightarrow> source \<Rightarrow> nat \<Rightarrow> ('a kcons_scheme, nat) kfun" where
  "consolewrite_loop 0 src i = kret i"
| "consolewrite_loop (Suc k) src i = kbind (either_copyin (source_add src i) 1) (\<lambda>(r, bs).
     if r = -1 then kret i
     else kbind (uartputc (hd bs)) (\<lambda>_. consolewrite_loop k src (i + 1)))"

definition consolewrite :: "source \<Rightarrow> int \<Rightarrow> ('a kcons_scheme, int) kfun" where
  "consolewrite src n = kbind (consolewrite_loop (nat n) src 0) (\<lambda>i. kret (int i))"

text \<open>
  \<open>consoleread_loop n target dst\<close>: \<open>n\<close> bytes are still wanted of \<open>target\<close>.  The result is the
  value returned.
\<close>

fun consoleread_loop :: "nat \<Rightarrow> nat \<Rightarrow> dest \<Rightarrow> ('a kcons_scheme, int) kfun" where
  "consoleread_loop 0 target dst = kret (int target)"
| "consoleread_loop (Suc n) target dst = kbind (kget (\<lambda>s. s)) (\<lambda>s.
     if cons_r s = cons_w s then
       kbind myproc (\<lambda>i. kbind (killed i) (\<lambda>k. if k then kret (-1) else sleep ChCons))
     else
       let c = cons_buf s ! (unat (cons_r s) mod INPUT_BUF_SIZE) in
       kbind (kmodify (\<lambda>s. s\<lparr>cons_r := cons_r s + 1\<rparr>)) (\<lambda>_.
       if c = CTRL_D then
         kbind (if Suc n < target then kmodify (\<lambda>s. s\<lparr>cons_r := cons_r s - 1\<rparr>) else kret ()) (\<lambda>_.
         kret (int target - int (Suc n)))
       else kbind (either_copyout dst [c]) (\<lambda>r.
         if r = -1 then kret (int target - int (Suc n))
         else if c = NEWLINE then kret (int target - int n)
         else consoleread_loop n target (dest_add dst 1))))"

definition consoleread :: "dest \<Rightarrow> int \<Rightarrow> ('a kcons_scheme, int) kfun" where
  "consoleread dst n = (if n \<le> 0 then kret 0 else consoleread_loop (nat n) (nat n) dst)"

fun kill_line :: "nat \<Rightarrow> ('a kcons_scheme, unit) kfun" where
  "kill_line 0 = kret ()"
| "kill_line (Suc k) = kbind (kget (\<lambda>s. s)) (\<lambda>s.
     if cons_e s \<noteq> cons_w s \<and> cons_buf s ! (unat (cons_e s - 1) mod INPUT_BUF_SIZE) \<noteq> NEWLINE then
       kbind (kmodify (\<lambda>s. s\<lparr>cons_e := cons_e s - 1\<rparr>)) (\<lambda>_.
       kbind (consputc None) (\<lambda>_.
       kill_line k))
     else kret ())"

definition consoleintr :: "uint8 \<Rightarrow> ('a kcons_scheme, unit) kfun" where
  "consoleintr c =
     (if c = CTRL_P then procdump
      else if c = CTRL_U then kbind (kget (\<lambda>s. unat (cons_e s - cons_w s))) kill_line
      else if c = CTRL_H \<or> c = DELETE then kbind (kget (\<lambda>s. cons_e s \<noteq> cons_w s)) (\<lambda>b.
        if b then kbind (kmodify (\<lambda>s. s\<lparr>cons_e := cons_e s - 1\<rparr>)) (\<lambda>_. consputc None) else kret ())
      else kbind (kget (\<lambda>s. cons_e s - cons_r s < of_nat INPUT_BUF_SIZE)) (\<lambda>room.
        if c \<noteq> 0 \<and> room then
          let c' = (if c = RETURN then NEWLINE else c) in
          kbind (consputc (Some c')) (\<lambda>_.
          kbind (kmodify (\<lambda>s. s\<lparr>cons_buf := (cons_buf s)[unat (cons_e s) mod INPUT_BUF_SIZE := c'],
            cons_e := cons_e s + 1\<rparr>)) (\<lambda>_.
          kbind (kget (\<lambda>s. cons_e s - cons_r s = of_nat INPUT_BUF_SIZE)) (\<lambda>full.
          if c' = NEWLINE \<or> c' = CTRL_D \<or> full then
            kbind (kmodify (\<lambda>s. s\<lparr>cons_w := cons_e s\<rparr>)) (\<lambda>_. wakeup ChCons)
          else kret ())))
        else kret ()))"

definition consoleinit :: "('a kcons_scheme, unit) kfun" where
  "consoleinit = kbind uartinit (\<lambda>_.
     kmodify (\<lambda>s. s\<lparr>devsws := (devsws s)[CONSOLE := ConsoleDevice]\<rparr>))"

subsection \<open>The UART interrupt\<close>

fun uartintr_loop :: "nat \<Rightarrow> ('a kcons_scheme, unit) kfun" where
  "uartintr_loop 0 = kret ()"
| "uartintr_loop (Suc k) = kbind uartgetc (\<lambda>oc.
     case oc of None \<Rightarrow> kret () | Some c \<Rightarrow> kbind (consoleintr c) (\<lambda>_. uartintr_loop k))"

definition uartintr :: "('a kcons_scheme, unit) kfun" where
  "uartintr = kbind (kget (\<lambda>s. length (uart_in s))) (\<lambda>n.
     kbind (uartintr_loop n) (\<lambda>_.
     uartstart))"

end
