(* ===== verification/Console_Props.thy ===== *)
theory Console_Props
  imports Console Pipe_Fifo
begin

text \<open>
  The console refines a line editor: the bytes a reader may take are the committed lines, the
  bytes being edited follow them in the same ring, and each input character acts on the pair
  as the editor does.  The transmit side refines a queue of characters on their way to the UART.
\<close>

subsection \<open>Transmitting\<close>

interpretation tx_ring: ring UART_TX_BUF_SIZE "TYPE(64)"
  by unfold_locales (simp_all add: dvd_def)

interpretation cons_ring: ring INPUT_BUF_SIZE "TYPE(32)"
  by unfold_locales (simp_all add: dvd_def)

definition tx_pending :: "'a kcons_scheme \<Rightarrow> uint8 list" where
  "tx_pending s = ring_contents UART_TX_BUF_SIZE (uart_tx_buf s) (uart_tx_r s) (uart_tx_w s)"

definition tx_ok :: "'a kcons_scheme \<Rightarrow> bool" where
  "tx_ok s \<longleftrightarrow> length (uart_tx_buf s) = UART_TX_BUF_SIZE \<and> length (tx_pending s) \<le> UART_TX_BUF_SIZE"

definition tx_stream :: "'a kcons_scheme \<Rightarrow> string" where
  "tx_stream s = kmsg s @ map (\<lambda>c. char_of (unat c)) (tx_pending s)"

lemma uartstart_loop_sends:
  assumes "tx_ok s" and "length (tx_pending s) \<le> k"
  shows "\<exists>s'. uartstart_loop k s = Ok () s' \<and> tx_ok s' \<and> tx_stream s' = tx_stream s \<and>
    length (tx_pending s') = length (tx_pending s) - uart_idle s"
  using assms
proof (induction k arbitrary: s)
  case (Suc k)
  show ?case
  proof (cases "uart_tx_w s = uart_tx_r s \<or> uart_idle s = 0")
    case False
    let ?c = "uart_tx_buf s ! (unat (uart_tx_r s) mod UART_TX_BUF_SIZE)"
    define s1 where "s1 = s\<lparr>uart_tx_r := uart_tx_r s + 1, procs := wake_all ChUartTx (curproc s) (procs s),
      kmsg := kmsg s @ [char_of (unat ?c)], uart_idle := uart_idle s - 1\<rparr>"
    have p: "tx_pending s = ?c # tx_pending s1"
      using tx_ring.contents_get [of "uart_tx_w s" "uart_tx_r s" "uart_tx_buf s"] False
      by (simp add: tx_pending_def s1_def)
    then have ok: "tx_ok s1" "length (tx_pending s1) \<le> k" using Suc.prems by (simp_all add: tx_ok_def s1_def)
    have st: "tx_stream s1 = tx_stream s" using p by (simp add: tx_stream_def) (simp add: s1_def)
    have "uartstart_loop (Suc k) s = uartstart_loop k s1"
      using False by (simp add: kbind_apply Let_def wakeup_Ok write_THR_def kprint_def s1_def)
    moreover have "length (tx_pending s1) - uart_idle s1 = length (tx_pending s) - uart_idle s"
      using p False by (cases "uart_idle s") (simp_all add: s1_def)
    ultimately show ?thesis using Suc.IH [OF ok] st by simp
  qed (use Suc.prems in \<open>auto simp: kbind_apply tx_pending_def\<close>)
qed auto

lemma uartstart_sends:
  "tx_ok s \<Longrightarrow> \<exists>s'. uartstart s = Ok () s' \<and> tx_ok s' \<and> tx_stream s' = tx_stream s \<and>
    length (tx_pending s') = length (tx_pending s) - uart_idle s"
  using uartstart_loop_sends [of s "length (tx_pending s)"]
  by (simp add: uartstart_def kbind_apply tx_pending_def)

text \<open>
  C24: a character given to \<^verbatim>\<open>uartputc\<close> is appended to the stream of characters sent and waiting to
  be sent; the call sleeps exactly when 32 characters are waiting.
\<close>

theorem uartputc_appends:
  assumes "tx_ok s" and "\<not> panicked s" and "curproc s \<noteq> None"
  shows "case uartputc c s of
      Ok _ s' \<Rightarrow> length (tx_pending s) < UART_TX_BUF_SIZE \<and> tx_ok s' \<and> tx_stream s' = tx_stream s @ [char_of (unat c)]
    | Blocked ch s' \<Rightarrow> length (tx_pending s) = UART_TX_BUF_SIZE \<and> ch = ChUartTx \<and> tx_stream s' = tx_stream s
    | Panic _ \<Rightarrow> False"
proof -
  have full: "uart_tx_w s = uart_tx_r s + of_nat UART_TX_BUF_SIZE \<longleftrightarrow> length (tx_pending s) = UART_TX_BUF_SIZE"
    using assms(1) tx_ring.full_iff [of "uart_tx_w s" "uart_tx_r s"] by (simp add: tx_ok_def tx_pending_def)
  show ?thesis
  proof (cases "length (tx_pending s) = UART_TX_BUF_SIZE")
    case True
    with full assms show ?thesis
      by (auto simp: uartputc_def kbind_apply sleep_def myproc_def upd_proc_def tx_stream_def tx_pending_def
          split: option.split)
  next
    case False
    then have lt: "length (tx_pending s) < UART_TX_BUF_SIZE" using assms(1) by (simp add: tx_ok_def)
    define s1 where "s1 = s\<lparr>uart_tx_buf := (uart_tx_buf s)[unat (uart_tx_w s) mod UART_TX_BUF_SIZE := c],
         uart_tx_w := uart_tx_w s + 1\<rparr>"
    have p: "tx_pending s1 = tx_pending s @ [c]"
      using tx_ring.contents_put [of "uart_tx_buf s" "uart_tx_w s" "uart_tx_r s" c] assms(1) lt
      by (simp add: tx_pending_def tx_ok_def s1_def)
    then have "tx_ok s1" "tx_stream s1 = tx_stream s @ [char_of (unat c)]"
      using assms(1) lt by (simp_all add: tx_ok_def tx_stream_def) (simp_all add: s1_def)
    moreover have "uartputc c s = uartstart s1"
      using False full assms(2) by (simp add: uartputc_def kbind_apply s1_def)
    ultimately show ?thesis using uartstart_sends [of s1] lt by auto
  qed
qed

subsection \<open>Editing input lines\<close>

definition cons_lines :: "'a kcons_scheme \<Rightarrow> uint8 list" where
  "cons_lines s = ring_contents INPUT_BUF_SIZE (cons_buf s) (cons_r s) (cons_w s)"

definition cons_editing :: "'a kcons_scheme \<Rightarrow> uint8 list" where
  "cons_editing s = ring_contents INPUT_BUF_SIZE (cons_buf s) (cons_w s) (cons_e s)"

definition cons_ok :: "'a kcons_scheme \<Rightarrow> bool" where
  "cons_ok s \<longleftrightarrow> length (cons_buf s) = INPUT_BUF_SIZE \<and> unat (cons_w s - cons_r s) \<le> unat (cons_e s - cons_r s) \<and>
     unat (cons_e s - cons_r s) \<le> INPUT_BUF_SIZE \<and> NEWLINE \<notin> set (cons_editing s)"

text \<open>The editor on committed input and the line being typed.\<close>

definition edit :: "uint8 \<Rightarrow> uint8 list \<times> uint8 list \<Rightarrow> uint8 list \<times> uint8 list" where
  "edit c = (\<lambda>(ls, ln).
     if c = CTRL_P then (ls, ln)
     else if c = CTRL_U then (ls, [])
     else if c = CTRL_H \<or> c = DELETE then (ls, butlast ln)
     else if c = 0 \<or> length ls + length ln \<ge> INPUT_BUF_SIZE then (ls, ln)
     else
       let c' = (if c = RETURN then NEWLINE else c) in
       if c' = NEWLINE \<or> c' = CTRL_D \<or> length ls + length ln + 1 = INPUT_BUF_SIZE then (ls @ ln @ [c'], [])
       else (ls, ln @ [c']))"

lemma cons_count:
  assumes "cons_ok s"
  shows "unat (cons_e s - cons_r s) = length (cons_lines s) + length (cons_editing s)"
  using assms arg_cong [OF cons_ring.contents_split, of "cons_w s" "cons_r s" "cons_e s" length "cons_buf s"]
  by (simp add: cons_ok_def cons_lines_def cons_editing_def)

lemma cons_editing_Nil: "cons_editing s = [] \<longleftrightarrow> cons_e s = cons_w s"
  by (simp add: cons_editing_def ring_contents_Nil_iff)

lemma uncommit:
  assumes "cons_ok s" and "cons_e s \<noteq> cons_w s"
  shows "cons_ok (s\<lparr>cons_e := cons_e s - 1\<rparr>)" "cons_editing (s\<lparr>cons_e := cons_e s - 1\<rparr>) = butlast (cons_editing s)"
    "last (cons_editing s) = cons_buf s ! (unat (cons_e s - 1) mod INPUT_BUF_SIZE)"
proof -
  let ?s = "s\<lparr>cons_e := cons_e s - 1\<rparr>" and ?e = "cons_e s - 1"
  have l: "cons_editing s = cons_editing ?s @ [cons_buf s ! (unat ?e mod INPUT_BUF_SIZE)]"
    using cons_ring.contents_last [OF assms(2)] by (simp add: cons_editing_def)
  show ed: "cons_editing ?s = butlast (cons_editing s)"
    "last (cons_editing s) = cons_buf s ! (unat ?e mod INPUT_BUF_SIZE)" by (simp_all add: l)
  have "cons_e s - cons_r s \<noteq> 0" using assms cons_count [OF assms(1)]
    by (metis add_is_0 cons_editing_Nil length_0_conv unat_0)
  moreover have "?e - cons_r s = (cons_e s - cons_r s) - 1" by simp
  ultimately have "unat (?e - cons_r s) = unat (cons_e s - cons_r s) - 1" by (metis unat_minus_one)
  moreover have "unat (cons_w s - cons_r s) < unat (cons_e s - cons_r s)"
    using cons_count [OF assms(1)] assms cons_editing_Nil [of s] by (simp add: cons_lines_def)
  ultimately show "cons_ok ?s" using assms(1) unfolding cons_ok_def ed
    by (auto dest: in_set_butlastD)
qed

lemma append_input:
  fixes s :: "'a kcons_scheme" and c :: uint8
  assumes "cons_ok s" and "length (cons_lines s) + length (cons_editing s) < INPUT_BUF_SIZE"
  defines "s1 \<equiv> s\<lparr>cons_buf := (cons_buf s)[unat (cons_e s) mod INPUT_BUF_SIZE := c], cons_e := cons_e s + 1\<rparr>"
  shows "cons_lines s1 = cons_lines s" "cons_editing s1 = cons_editing s @ [c]"
    "c \<noteq> NEWLINE \<Longrightarrow> cons_ok s1" "cons_ok (s1\<lparr>cons_w := cons_e s1\<rparr>)"
    "cons_lines (s1\<lparr>cons_w := cons_e s1\<rparr>) = cons_lines s @ cons_editing s @ [c]"
    "cons_editing (s1\<lparr>cons_w := cons_e s1\<rparr>) = []"
proof -
  have er: "unat (cons_e s - cons_r s) < INPUT_BUF_SIZE" "unat (cons_e s - cons_w s) < INPUT_BUF_SIZE"
    using cons_count [OF assms(1)] assms(2) by (simp_all add: cons_editing_def)
  have buf: "length (cons_buf s) = INPUT_BUF_SIZE" using assms(1) by (simp add: cons_ok_def)
  have "cons_buf s1 = (cons_buf s)[unat (cons_e s) mod INPUT_BUF_SIZE := c]" by (simp add: s1_def)
  show ed: "cons_editing s1 = cons_editing s @ [c]"
    using cons_ring.contents_put [OF buf er(2)] by (simp add: cons_editing_def s1_def)
  have all: "ring_contents INPUT_BUF_SIZE (cons_buf s1) (cons_r s) (cons_e s1) = cons_lines s @ cons_editing s @ [c]"
    using cons_ring.contents_put [OF buf er(1)] cons_ring.contents_split [of "cons_w s" "cons_r s" "cons_e s" "cons_buf s"]
      assms(1) by (simp add: s1_def cons_lines_def cons_editing_def cons_ok_def)
  have cnt: "unat (cons_e s1 - cons_r s) = Suc (unat (cons_e s - cons_r s))"
    using cons_ring.count_put [OF er(1)] by (simp add: s1_def)
  have le: "unat (cons_w s - cons_r s) \<le> unat (cons_e s1 - cons_r s)"
    using assms(1) cnt by (simp add: cons_ok_def)
  have same: "cons_r s1 = cons_r s" "cons_w s1 = cons_w s" "length (cons_buf s1) = INPUT_BUF_SIZE"
    using buf by (simp_all add: s1_def)
  show "cons_lines s1 = cons_lines s"
    using all cons_ring.contents_split [OF le, of "cons_buf s1"] ed
    by (simp add: cons_lines_def cons_editing_def same)
  show "cons_ok s1" if "c \<noteq> NEWLINE"
    using that assms(1) ed le cnt er(1) by (simp add: cons_ok_def same)
  show "cons_lines (s1\<lparr>cons_w := cons_e s1\<rparr>) = cons_lines s @ cons_editing s @ [c]"
    using all by (simp add: cons_lines_def same)
  show "cons_editing (s1\<lparr>cons_w := cons_e s1\<rparr>) = []" by (simp add: cons_editing_def)
  then show "cons_ok (s1\<lparr>cons_w := cons_e s1\<rparr>)"
    using cnt er(1) by (simp add: cons_ok_def same)
qed

lemma consputc_echo: "\<not> panicked s \<Longrightarrow> \<exists>t. consputc oc s = Ok () (s\<lparr>kmsg := kmsg s @ t\<rparr>)"
  by (auto simp: consputc_def uartputc_sync_def write_THR_def kprint_def kbind_apply split: option.split)

lemma cons_kmsg [simp]:
  "cons_ok (s\<lparr>kmsg := t\<rparr>) = cons_ok s" "cons_lines (s\<lparr>kmsg := t\<rparr>) = cons_lines s"
  "cons_editing (s\<lparr>kmsg := t\<rparr>) = cons_editing s"
  by (simp_all add: cons_ok_def cons_lines_def cons_editing_def)

lemma cons_procs [simp]:
  "cons_ok (s\<lparr>procs := tbl\<rparr>) = cons_ok s" "cons_lines (s\<lparr>procs := tbl\<rparr>) = cons_lines s"
  "cons_editing (s\<lparr>procs := tbl\<rparr>) = cons_editing s"
  by (simp_all add: cons_ok_def cons_lines_def cons_editing_def)

lemma kill_line_clears:
  assumes "cons_ok s" and "\<not> panicked s" and "length (cons_editing s) \<le> k"
  shows "\<exists>s'. kill_line k s = Ok () s' \<and> cons_ok s' \<and> cons_lines s' = cons_lines s \<and> cons_editing s' = []"
  using assms
proof (induction k arbitrary: s)
  case (Suc k)
  show ?case
  proof (cases "cons_e s = cons_w s")
    case True
    then show ?thesis using Suc.prems by (simp add: kbind_apply cons_editing_Nil)
  next
    case False
    let ?s = "s\<lparr>cons_e := cons_e s - 1\<rparr>"
    note un = uncommit [OF Suc.prems(1) False]
    have "cons_editing s \<noteq> []" using False by (simp add: cons_editing_Nil)
    then have "last (cons_editing s) \<noteq> NEWLINE" using Suc.prems(1) last_in_set by (fastforce simp: cons_ok_def)
    then have nn: "cons_buf s ! (unat (cons_e s - 1) mod INPUT_BUF_SIZE) \<noteq> NEWLINE" using un(3) by simp
    obtain t where t: "consputc None ?s = Ok () (?s\<lparr>kmsg := kmsg ?s @ t\<rparr>)"
      using consputc_echo [of ?s] Suc.prems(2) by auto
    have "\<exists>s'. kill_line k (?s\<lparr>kmsg := kmsg ?s @ t\<rparr>) = Ok () s' \<and> cons_ok s' \<and>
        cons_lines s' = cons_lines (?s\<lparr>kmsg := kmsg ?s @ t\<rparr>) \<and> cons_editing s' = []"
      using un Suc.prems by (intro Suc.IH) auto
    moreover have "cons_lines ?s = cons_lines s" by (simp add: cons_lines_def)
    ultimately show ?thesis using t nn False by (simp add: kbind_apply)
  qed
qed simp

text \<open>
  C23: an input interrupt acts on the console buffer as the line editor acts on committed input
  and the current line: control-U clears the line, backspace drops its last character, a
  carriage return counts as a newline, and newline, control-D or a full buffer commits the line.
\<close>

theorem consoleintr_refines_editor:
  assumes "cons_ok s" and "\<not> panicked s" and "printable (procs s)"
  shows "\<exists>s'. consoleintr c s = Ok () s' \<and> cons_ok s' \<and>
    (cons_lines s', cons_editing s') = edit c (cons_lines s, cons_editing s)"
proof -
  let ?room = "length (cons_lines s) + length (cons_editing s) < INPUT_BUF_SIZE"
  have rm: "cons_e s - cons_r s < of_nat INPUT_BUF_SIZE \<longleftrightarrow> ?room"
    using cons_count [OF assms(1)] by (simp add: word_less_nat_alt)
  consider (p) "c = CTRL_P" | (u) "c = CTRL_U" | (bs) "c = CTRL_H \<or> c = DELETE"
    | (no) "c \<notin> {CTRL_P, CTRL_U, CTRL_H, DELETE}" "c = 0 \<or> \<not> ?room"
    | (ch) "c \<notin> {CTRL_P, CTRL_U, CTRL_H, DELETE}" "c \<noteq> 0" ?room by blast
  then show ?thesis
  proof cases
    case p
    then show ?thesis using procdump_prints [OF assms(3)] assms(1) by (auto simp: consoleintr_def edit_def)
  next
    case u
    then show ?thesis using kill_line_clears [OF assms(1,2), of "length (cons_editing s)"]
      by (auto simp: consoleintr_def edit_def kbind_apply cons_editing_def)
  next
    case bs
    have "cons_lines (s\<lparr>cons_e := cons_e s - 1\<rparr>) = cons_lines s" by (simp add: cons_lines_def)
    moreover obtain t where "consputc None (s\<lparr>cons_e := cons_e s - 1\<rparr>) =
        Ok () (s\<lparr>cons_e := cons_e s - 1, kmsg := kmsg s @ t\<rparr>)"
      using consputc_echo [of "s\<lparr>cons_e := cons_e s - 1\<rparr>"] assms(2) by auto
    ultimately show ?thesis
      using bs uncommit [OF assms(1)] assms(1) cons_editing_Nil [of s]
      by (cases "cons_e s = cons_w s") (auto simp: consoleintr_def edit_def kbind_apply)
  next
    case no
    then show ?thesis using assms(1) rm by (auto simp: consoleintr_def edit_def kbind_apply)
  next
    case ch
    define c' where "c' = (if c = RETURN then NEWLINE else c)"
    obtain t where t: "consputc (Some c') s = Ok () (s\<lparr>kmsg := kmsg s @ t\<rparr>)"
      using consputc_echo [OF assms(2)] by blast
    let ?s = "s\<lparr>kmsg := kmsg s @ t\<rparr>"
    have ok: "cons_ok ?s" "length (cons_lines ?s) + length (cons_editing ?s) < INPUT_BUF_SIZE"
      using assms(1) ch(3) by simp_all
    define s1 where "s1 = ?s\<lparr>cons_buf := (cons_buf ?s)[unat (cons_e ?s) mod INPUT_BUF_SIZE := c'],
      cons_e := cons_e ?s + 1\<rparr>"
    note app = append_input [OF ok, of c', folded s1_def]
    let ?full = "length (cons_lines s) + length (cons_editing s) + 1 = INPUT_BUF_SIZE"
    have "cons_e s - cons_r s = 127 \<longleftrightarrow> unat (cons_e s - cons_r s) = 127" by (simp add: word_unat_eq_iff)
    then have full: "cons_e s - cons_r s = 127 \<longleftrightarrow> ?full" using cons_count [OF assms(1)] by simp
    have run: "consoleintr c s = (if c' = NEWLINE \<or> c' = CTRL_D \<or> ?full
        then Ok () (s1\<lparr>cons_w := cons_e s1, procs := wake_all ChCons (curproc s1) (procs s1)\<rparr>) else Ok () s1)"
      using ch rm t full by (simp add: consoleintr_def kbind_apply c'_def [symmetric] wakeup_Ok s1_def)
    have ed: "edit c (cons_lines s, cons_editing s) = (if c' = NEWLINE \<or> c' = CTRL_D \<or> ?full
        then (cons_lines s @ cons_editing s @ [c'], []) else (cons_lines s, cons_editing s @ [c']))"
      using ch by (simp add: edit_def c'_def [symmetric])
    show ?thesis unfolding run ed using app by auto
  qed
qed

subsection \<open>An idle console\<close>

definition console_example :: kcons where
  "console_example = kpipe.extend (pipe_example\<lparr>procs := replicate NPROC (procs pipe_example ! 0)\<rparr>)
     \<lparr>cons_buf = replicate INPUT_BUF_SIZE 0, cons_r = 0, cons_w = 0, cons_e = 0,
      uart_tx_buf = replicate UART_TX_BUF_SIZE 0, uart_tx_w = 0, uart_tx_r = 0, uart_regs = [], uart_in = [],
      uart_idle = 0, panicked = False, devsws = replicate NDEV NoDevice\<rparr>"

lemma console_example_state:
  "tx_ok console_example" "tx_pending console_example = []" "cons_ok console_example" "\<not> panicked console_example"
  "cons_lines console_example = []" "cons_editing console_example = []" "curproc console_example = Some 0"
  "printable (procs console_example)"
  by (simp_all add: console_example_def pipe_example_def kpipe.defs tx_ok_def tx_pending_def cons_ok_def
      cons_lines_def cons_editing_def printable_def)

theorem uartputc_appends_witness:
  "case uartputc 104 console_example of
      Ok _ s' \<Rightarrow> tx_stream s' = tx_stream console_example @ ''h'' | Blocked _ _ \<Rightarrow> False | Panic _ \<Rightarrow> False"
  using uartputc_appends [of console_example 104]
  by (auto simp: console_example_state char_of_def bit_0 split: outcome.splits)

theorem consoleintr_refines_editor_witness:
  "\<exists>s'. consoleintr RETURN console_example = Ok () s' \<and> cons_ok s' \<and> cons_lines s' = [NEWLINE] \<and> cons_editing s' = []"
  using consoleintr_refines_editor [of console_example RETURN]
  by (auto simp: console_example_state edit_def Let_def)

end
