(* ===== verification/File.thy ===== *)
theory File
  imports Console Dir
begin

text \<open>
  Open files, \<^verbatim>\<open>kernel/file.c\<close>, and the creation of pipes from \<^verbatim>\<open>kernel/pipe.c\<close>.  A file is an
  index into \<^verbatim>\<open>ftable.file\<close>.
\<close>

abbreviation (input) NFILE :: nat where "NFILE \<equiv> 100"
abbreviation (input) NOFILE :: nat where "NOFILE \<equiv> 16"

datatype file_type = FD_NONE | FD_PIPE | FD_INODE | FD_DEVICE

record open_file =
  f_type :: file_type
  f_ref :: int
  f_readable :: bool
  f_writable :: bool
  f_pipe :: nat
  f_ip :: nat
  f_off :: uint32
  f_major :: uint16

text \<open>\<open>stat_padding\<close> is what the stack holds in the four bytes of padding in a \<^verbatim>\<open>struct stat\<close>.\<close>

record kfile = kcons +
  ftable :: "open_file list"
  stat_padding :: "uint8 list"

definition get_file :: "nat \<Rightarrow> ('a kfile_scheme, open_file) kfun" where
  "get_file f = kget (\<lambda>s. ftable s ! f)"

definition upd_file :: "nat \<Rightarrow> (open_file \<Rightarrow> open_file) \<Rightarrow> ('a kfile_scheme, unit) kfun" where
  "upd_file f g = kmodify (\<lambda>s. s\<lparr>ftable := (ftable s)[f := g (ftable s ! f)]\<rparr>)"

definition filealloc :: "('a kfile_scheme, nat option) kfun" where
  "filealloc = kbind (kget (\<lambda>s. find (\<lambda>f. f_ref (ftable s ! f) = 0) [0..<NFILE])) (\<lambda>v.
     case v of
       None \<Rightarrow> kret None
     | Some f \<Rightarrow> kbind (upd_file f (\<lambda>x. x\<lparr>f_ref := 1\<rparr>)) (\<lambda>_. kret (Some f)))"

definition filedup :: "nat \<Rightarrow> ('a kfile_scheme, nat) kfun" where
  "filedup f = kbind (get_file f) (\<lambda>x.
     if f_ref x < 1 then kpanic ''filedup''
     else kbind (upd_file f (\<lambda>x. x\<lparr>f_ref := f_ref x + 1\<rparr>)) (\<lambda>_. kret f))"

definition fileclose :: "nat \<Rightarrow> ('a kfile_scheme, unit) kfun" where
  "fileclose f = kbind (get_file f) (\<lambda>x.
     if f_ref x < 1 then kpanic ''fileclose''
     else if f_ref x - 1 > 0 then upd_file f (\<lambda>x. x\<lparr>f_ref := f_ref x - 1\<rparr>)
     else kbind (upd_file f (\<lambda>x. x\<lparr>f_ref := 0, f_type := FD_NONE\<rparr>)) (\<lambda>_.
       case f_type x of
         FD_PIPE \<Rightarrow> pipeclose (f_pipe x) (f_writable x)
       | FD_NONE \<Rightarrow> kret ()
       | _ \<Rightarrow> kbind begin_op (\<lambda>_. kbind (iput (f_ip x)) (\<lambda>_. end_op))))"

definition stat_bytes :: "uint8 list \<Rightarrow> stat \<Rightarrow> uint8 list" where
  "stat_bytes padding st = le_bytes 4 (st_dev st) @ le_bytes 4 (st_ino st) @ le_bytes 2 (st_type st) @
     le_bytes 2 (st_nlink st) @ padding @ le_bytes 8 (st_size st)"

definition filestat :: "nat \<Rightarrow> uint64 \<Rightarrow> ('a kfile_scheme, int) kfun" where
  "filestat f addr = kbind myproc (\<lambda>i. kbind (get_file f) (\<lambda>x.
     if f_type x = FD_INODE \<or> f_type x = FD_DEVICE then
       kbind (ilock (f_ip x)) (\<lambda>_.
       kbind (stati (f_ip x)) (\<lambda>st.
       kbind (iunlock (f_ip x)) (\<lambda>_.
       kbind (get_proc i) (\<lambda>p.
       kbind (kget stat_padding) (\<lambda>padding.
       kbind (copyout (p_pagetable p) addr (stat_bytes padding st)) (\<lambda>r.
       kret (if r < 0 then -1 else 0)))))))
     else kret (-1)))"

text \<open>The device of a file, when its major number is in range and has functions.\<close>

definition dev_of :: "open_file \<Rightarrow> devsw list \<Rightarrow> devsw" where
  "dev_of x sw = (if sint (f_major x) < 0 \<or> sint (f_major x) \<ge> int NDEV then NoDevice else sw ! nat (sint (f_major x)))"

definition fileread :: "nat \<Rightarrow> uint64 \<Rightarrow> int \<Rightarrow> ('a kfile_scheme, int) kfun" where
  "fileread f addr n = kbind (get_file f) (\<lambda>x.
     if \<not> f_readable x then kret (-1)
     else case f_type x of
       FD_PIPE \<Rightarrow> piperead (f_pipe x) addr n
     | FD_DEVICE \<Rightarrow> kbind (kget devsws) (\<lambda>sw.
         case dev_of x sw of NoDevice \<Rightarrow> kret (-1) | ConsoleDevice \<Rightarrow> consoleread (UserDst addr) n)
     | FD_INODE \<Rightarrow>
         kbind (ilock (f_ip x)) (\<lambda>_.
         kbind (readi (f_ip x) (UserDst addr) (f_off x) (word_of_int n)) (\<lambda>(r, _).
         kbind (if r > 0 then upd_file f (\<lambda>x. x\<lparr>f_off := f_off x + word_of_int r\<rparr>) else kret ()) (\<lambda>_.
         kbind (iunlock (f_ip x)) (\<lambda>_.
         kret r))))
     | FD_NONE \<Rightarrow> kpanic ''fileread'')"

definition max_write :: int where
  "max_write = ((int MAXOPBLOCKS - 1 - 1 - 2) div 2) * int BSIZE"

text \<open>Each round writes at least one byte or leaves the loop; the result is \<^verbatim>\<open>i\<close>.\<close>

fun filewrite_loop :: "nat \<Rightarrow> nat \<Rightarrow> uint64 \<Rightarrow> int \<Rightarrow> int \<Rightarrow> ('a kfile_scheme, int) kfun" where
  "filewrite_loop 0 f addr n i = kret i"
| "filewrite_loop (Suc k) f addr n i =
     (if \<not> i < n then kret i
      else
        let n1 = (if n - i > max_write then max_write else n - i) in
        kbind begin_op (\<lambda>_.
        kbind (get_file f) (\<lambda>x.
        kbind (ilock (f_ip x)) (\<lambda>_.
        kbind (writei (f_ip x) (UserSrc (addr + word_of_int i)) (f_off x) (word_of_int n1)) (\<lambda>r.
        kbind (if r > 0 then upd_file f (\<lambda>x. x\<lparr>f_off := f_off x + word_of_int r\<rparr>) else kret ()) (\<lambda>_.
        kbind (iunlock (f_ip x)) (\<lambda>_.
        kbind end_op (\<lambda>_.
        if r \<noteq> n1 then kret i else filewrite_loop k f addr n (i + r)))))))))"

definition filewrite :: "nat \<Rightarrow> uint64 \<Rightarrow> int \<Rightarrow> ('a kfile_scheme, int) kfun" where
  "filewrite f addr n = kbind (get_file f) (\<lambda>x.
     if \<not> f_writable x then kret (-1)
     else case f_type x of
       FD_PIPE \<Rightarrow> pipewrite (f_pipe x) addr n
     | FD_DEVICE \<Rightarrow> kbind (kget devsws) (\<lambda>sw.
         case dev_of x sw of NoDevice \<Rightarrow> kret (-1) | ConsoleDevice \<Rightarrow> consolewrite (UserSrc addr) n)
     | FD_INODE \<Rightarrow> kbind (filewrite_loop (nat n) f addr n 0) (\<lambda>i. kret (if i = n then n else -1))
     | FD_NONE \<Rightarrow> kpanic ''filewrite'')"

subsection \<open>Creating a pipe\<close>

text \<open>\<open>kalloc\<close> has filled the page with 5, so that is what the data array holds at first.\<close>

definition pipealloc :: "('a kfile_scheme, (nat \<times> nat) option) kfun" where
  "pipealloc = kbind filealloc (\<lambda>f0.
     case f0 of
       None \<Rightarrow> kret None
     | Some rf1 \<Rightarrow> kbind filealloc (\<lambda>f1.
         case f1 of
           None \<Rightarrow> kbind (fileclose rf1) (\<lambda>_. kret None)
         | Some wf1 \<Rightarrow> kbind kalloc (\<lambda>a.
             if a = 0 then kbind (fileclose rf1) (\<lambda>_. kbind (fileclose wf1) (\<lambda>_. kret None))
             else
               kbind (upd_pipe a (\<lambda>_. \<lparr>pi_data = replicate PIPESIZE 5, nread = 0, nwrite = 0, readopen = True,
                 writeopen = True\<rparr>)) (\<lambda>_.
               kbind (upd_file rf1 (\<lambda>x. x\<lparr>f_type := FD_PIPE, f_readable := True, f_writable := False, f_pipe := a\<rparr>)) (\<lambda>_.
               kbind (upd_file wf1 (\<lambda>x. x\<lparr>f_type := FD_PIPE, f_readable := False, f_writable := True, f_pipe := a\<rparr>)) (\<lambda>_.
               kret (Some (rf1, wf1))))))))"

end
