(* ===== verification/Proclife.thy ===== *)
theory Proclife
  imports File
begin

text \<open>
  The life of a process, from \<^verbatim>\<open>kernel/proc.c\<close>: the first process, \<^verbatim>\<open>fork\<close> and \<^verbatim>\<open>exit\<close>.  The
  saved user registers are the words of the trapframe page, at the offsets of
  \<^verbatim>\<open>struct trapframe\<close>.
\<close>

abbreviation (input) TF_kernel_satp :: nat where "TF_kernel_satp \<equiv> 0"
abbreviation (input) TF_kernel_sp :: nat where "TF_kernel_sp \<equiv> 8"
abbreviation (input) TF_kernel_trap :: nat where "TF_kernel_trap \<equiv> 16"
abbreviation (input) TF_epc :: nat where "TF_epc \<equiv> 24"
abbreviation (input) TF_kernel_hartid :: nat where "TF_kernel_hartid \<equiv> 32"
abbreviation (input) TF_sp :: nat where "TF_sp \<equiv> 48"
abbreviation (input) TF_a0 :: nat where "TF_a0 \<equiv> 112"
abbreviation (input) TF_a1 :: nat where "TF_a1 \<equiv> 120"
abbreviation (input) TF_a7 :: nat where "TF_a7 \<equiv> 168"
abbreviation (input) TF_size :: nat where "TF_size \<equiv> 288"

definition get_tf :: "nat \<Rightarrow> nat \<Rightarrow> ('a kproc_scheme, uint64) kfun" where
  "get_tf i off = kget (\<lambda>s. load64 (mem s) (p_trapframe (procs s ! i) + off))"

definition set_tf :: "nat \<Rightarrow> nat \<Rightarrow> uint64 \<Rightarrow> ('a kproc_scheme, unit) kfun" where
  "set_tf i off v = kmodify (\<lambda>s. s\<lparr>mem := store64 (mem s) (p_trapframe (procs s ! i) + off) v\<rparr>)"

definition copy_name :: "uint8 list \<Rightarrow> uint8 list \<Rightarrow> uint8 list" where
  "copy_name old new = load_bytes (safestrcpy (two_strings old new) 0 4096 16) 0 16"

subsection \<open>The first process\<close>

definition initcode :: "uint8 list" where
  "initcode =
    [0x17, 0x05, 0x00, 0x00, 0x13, 0x05, 0x45, 0x02,
     0x97, 0x05, 0x00, 0x00, 0x93, 0x85, 0x35, 0x02,
     0x93, 0x08, 0x70, 0x00, 0x73, 0x00, 0x00, 0x00,
     0x93, 0x08, 0x20, 0x00, 0x73, 0x00, 0x00, 0x00,
     0xef, 0xf0, 0x9f, 0xff, 0x2f, 0x69, 0x6e, 0x69,
     0x74, 0x00, 0x00, 0x24, 0x00, 0x00, 0x00, 0x00,
     0x00, 0x00, 0x00, 0x00]"

definition userinit :: "('a kfile_scheme, unit) kfun" where
  "userinit = kbind allocproc (\<lambda>v.
     kbind (kmodify (\<lambda>s. s\<lparr>initproc := v\<rparr>)) (\<lambda>_.
     case v of
       None \<Rightarrow> null_deref
     | Some i \<Rightarrow> kbind (get_proc i) (\<lambda>p.
         kbind (uvmfirst (p_pagetable p) initcode) (\<lambda>_.
         kbind (upd_proc i (\<lambda>p. p\<lparr>p_sz := 4096\<rparr>)) (\<lambda>_.
         kbind (set_tf i TF_epc 0) (\<lambda>_.
         kbind (set_tf i TF_sp 4096) (\<lambda>_.
         kbind (upd_proc i (\<lambda>p. p\<lparr>p_name := copy_name (p_name p) [105, 110, 105, 116, 99, 111, 100, 101]\<rparr>)) (\<lambda>_.
         kbind (namei [SLASH]) (\<lambda>ip.
         upd_proc i (\<lambda>p. p\<lparr>p_cwd := ip, p_state := RUNNABLE\<rparr>))))))))))"

subsection \<open>Creating a process\<close>

definition fork_ofile :: "nat \<Rightarrow> nat \<Rightarrow> nat \<Rightarrow> ('a kfile_scheme, unit) kfun" where
  "fork_ofile i np fd = kbind (get_proc i) (\<lambda>p.
     case p_ofile p ! fd of
       None \<Rightarrow> kret ()
     | Some f \<Rightarrow> kbind (filedup f) (\<lambda>f'.
         upd_proc np (\<lambda>q. q\<lparr>p_ofile := (p_ofile q)[fd := Some f']\<rparr>)))"

definition fork :: "('a kfile_scheme, int) kfun" where
  "fork = kbind myproc (\<lambda>i. kbind allocproc (\<lambda>v.
     case v of
       None \<Rightarrow> kret (-1)
     | Some np \<Rightarrow> kbind (get_proc i) (\<lambda>p. kbind (get_proc np) (\<lambda>q.
         kbind (uvmcopy (p_pagetable p) (p_pagetable q) (p_sz p)) (\<lambda>r.
         if r < 0 then kbind (freeproc np) (\<lambda>_. kret (-1))
         else
           kbind (upd_proc np (\<lambda>q. q\<lparr>p_sz := p_sz p\<rparr>)) (\<lambda>_.
           kbind (kmodify (\<lambda>s. s\<lparr>mem := store_bytes (mem s) (p_trapframe q)
             (load_bytes (mem s) (p_trapframe p) TF_size)\<rparr>)) (\<lambda>_.
           kbind (set_tf np TF_a0 0) (\<lambda>_.
           kbind (kforeach [0..<NOFILE] (fork_ofile i np)) (\<lambda>_.
           kbind (case p_cwd p of Some c \<Rightarrow> idup c | None \<Rightarrow> null_deref) (\<lambda>cwd.
           kbind (upd_proc np (\<lambda>q. q\<lparr>p_cwd := Some cwd, p_name := copy_name (p_name q) (p_name p)\<rparr>)) (\<lambda>_.
           kbind (get_proc np) (\<lambda>q.
           kbind (upd_proc np (\<lambda>q. q\<lparr>p_parent := Some i\<rparr>)) (\<lambda>_.
           kbind (upd_proc np (\<lambda>q. q\<lparr>p_state := RUNNABLE\<rparr>)) (\<lambda>_.
           kret (p_pid q)))))))))))))))"

subsection \<open>Exiting\<close>

definition exit_ofile :: "nat \<Rightarrow> nat \<Rightarrow> ('a kfile_scheme, unit) kfun" where
  "exit_ofile i fd = kbind (get_proc i) (\<lambda>p.
     case p_ofile p ! fd of
       None \<Rightarrow> kret ()
     | Some f \<Rightarrow> kbind (fileclose f) (\<lambda>_. upd_proc i (\<lambda>p. p\<lparr>p_ofile := (p_ofile p)[fd := None]\<rparr>)))"

text \<open>\<open>exit\<close> gives up the processor for good.\<close>

definition exit :: "int \<Rightarrow> ('a kfile_scheme, 'b) kfun" where
  "exit status = kbind myproc (\<lambda>i. kbind (kget initproc) (\<lambda>ini.
     if ini = Some i then kpanic ''init exiting''
     else
       kbind (kforeach [0..<NOFILE] (exit_ofile i)) (\<lambda>_.
       kbind begin_op (\<lambda>_.
       kbind (get_proc i) (\<lambda>p.
       kbind (case p_cwd p of Some c \<Rightarrow> iput c | None \<Rightarrow> null_deref) (\<lambda>_.
       kbind end_op (\<lambda>_.
       kbind (upd_proc i (\<lambda>p. p\<lparr>p_cwd := None\<rparr>)) (\<lambda>_.
       kbind (reparent i) (\<lambda>_.
       kbind (get_proc i) (\<lambda>p.
       kbind (wakeup (case p_parent p of Some k \<Rightarrow> ChProc k | None \<Rightarrow> ChNull)) (\<lambda>_.
       kbind (upd_proc i (\<lambda>p. p\<lparr>p_xstate := status, p_state := ZOMBIE\<rparr>)) (\<lambda>_.
       kblock ChNull))))))))))))"

end
