(* ===== verification/Exec.thy ===== *)
theory Exec
  imports Proclife
begin

text \<open>
  Loading a program, \<^verbatim>\<open>kernel/exec.c\<close>.  The headers are decoded from the bytes of the file at the
  offsets of \<^verbatim>\<open>struct elfhdr\<close> and \<^verbatim>\<open>struct proghdr\<close> (\<^verbatim>\<open>kernel/elf.h\<close>).  Path and arguments are byte
  lists without terminators.
\<close>

abbreviation (input) MAXARG :: nat where "MAXARG \<equiv> 32"
abbreviation (input) ELF_MAGIC :: uint32 where "ELF_MAGIC \<equiv> 0x464C457F"
abbreviation (input) ELF_PROG_LOAD :: uint32 where "ELF_PROG_LOAD \<equiv> 1"

record elfhdr =
  elf_magic :: uint32
  elf_entry :: uint64
  elf_phoff :: uint64
  elf_phnum :: uint16

definition elfhdr_of :: "uint8 list \<Rightarrow> elfhdr" where
  "elfhdr_of bs = \<lparr>elf_magic = le_word (get_bytes 0 4 bs), elf_entry = le_word (get_bytes 24 8 bs),
     elf_phoff = le_word (get_bytes 32 8 bs), elf_phnum = le_word (get_bytes 56 2 bs)\<rparr>"

record proghdr =
  ph_type :: uint32
  ph_flags :: uint32
  ph_off :: uint64
  ph_vaddr :: uint64
  ph_filesz :: uint64
  ph_memsz :: uint64

definition proghdr_of :: "uint8 list \<Rightarrow> proghdr" where
  "proghdr_of bs = \<lparr>ph_type = le_word (get_bytes 0 4 bs), ph_flags = le_word (get_bytes 4 4 bs),
     ph_off = le_word (get_bytes 8 8 bs), ph_vaddr = le_word (get_bytes 16 8 bs),
     ph_filesz = le_word (get_bytes 32 8 bs), ph_memsz = le_word (get_bytes 40 8 bs)\<rparr>"

definition flags2perm :: "uint32 \<Rightarrow> uint64" where
  "flags2perm flags = (if flags AND 1 \<noteq> 0 then PTE_X else 0) OR (if flags AND 2 \<noteq> 0 then PTE_W else 0)"

text \<open>
  The fuel of \<open>loadseg_loop\<close> is the number of pages; the 32-bit index cannot wrap around before
  it, because a file has fewer bytes than fit below \<^verbatim>\<open>MAXFILE * BSIZE\<close> and \<^verbatim>\<open>readi\<close> then comes short.
\<close>

fun loadseg_loop :: "nat \<Rightarrow> nat \<Rightarrow> uint64 \<Rightarrow> nat \<Rightarrow> uint32 \<Rightarrow> uint32 \<Rightarrow> uint32 \<Rightarrow> ('a kfs_scheme, int) kfun" where
  "loadseg_loop 0 pagetable va ip offset sz i = kret 0"
| "loadseg_loop (Suc k) pagetable va ip offset sz i =
     (if \<not> i < sz then kret 0
      else kbind (walkaddr pagetable (va + ucast i)) (\<lambda>pa.
        if pa = 0 then kpanic ''loadseg: address should exist''
        else
          let n = (if sz - i < 4096 then sz - i else 4096) in
          kbind (readi ip (KernDst (unat pa)) (offset + i) n) (\<lambda>(r, _).
          if r \<noteq> sint n then kret (-1)
          else loadseg_loop k pagetable va ip offset sz (i + 4096))))"

definition loadseg :: "nat \<Rightarrow> uint64 \<Rightarrow> nat \<Rightarrow> uint32 \<Rightarrow> uint32 \<Rightarrow> ('a kfs_scheme, int) kfun" where
  "loadseg pagetable va ip offset sz = loadseg_loop ((unat sz + 4095) div 4096) pagetable va ip offset sz 0"

text \<open>The loop over the program headers; \<open>False\<close> is the jump to \<^verbatim>\<open>bad\<close>.\<close>

fun exec_segments :: "nat \<Rightarrow> nat \<Rightarrow> nat \<Rightarrow> uint32 \<Rightarrow> uint64 \<Rightarrow> ('a kfs_scheme, bool \<times> uint64) kfun" where
  "exec_segments 0 ip pagetable off sz = kret (True, sz)"
| "exec_segments (Suc k) ip pagetable off sz =
     kbind (readi ip ObjDst off 56) (\<lambda>(r, bs).
     if r \<noteq> 56 then kret (False, sz)
     else
       let ph = proghdr_of bs in
       if ph_type ph \<noteq> ELF_PROG_LOAD then exec_segments k ip pagetable (off + 56) sz
       else if ph_memsz ph < ph_filesz ph then kret (False, sz)
       else if ph_vaddr ph + ph_memsz ph < ph_vaddr ph then kret (False, sz)
       else if ph_vaddr ph mod 4096 \<noteq> 0 then kret (False, sz)
       else kbind (uvmalloc pagetable sz (ph_vaddr ph + ph_memsz ph) (flags2perm (ph_flags ph))) (\<lambda>sz1.
         if sz1 = 0 then kret (False, sz)
         else kbind (loadseg pagetable (ph_vaddr ph) ip (ucast (ph_off ph)) (ucast (ph_filesz ph))) (\<lambda>l.
           if l < 0 then kret (False, sz1)
           else exec_segments k ip pagetable (off + 56) sz1)))"

definition align16 :: "uint64 \<Rightarrow> uint64" where
  "align16 sp = sp - sp mod 16"

text \<open>The arguments pushed so far are in \<open>ustack\<close>.\<close>

fun push_args :: "nat \<Rightarrow> uint64 \<Rightarrow> uint64 \<Rightarrow> uint8 list list \<Rightarrow> uint64 list \<Rightarrow>
    ('a kmem_scheme, (uint64 \<times> uint64 list) option) kfun" where
  "push_args pagetable stackbase sp [] ustack = kret (Some (sp, ustack))"
| "push_args pagetable stackbase sp (a # argv) ustack =
     (if length ustack \<ge> MAXARG then kret None
      else
        let sp' = align16 (sp - of_nat (length a + 1)) in
        if sp' < stackbase then kret None
        else kbind (copyout pagetable sp' (a @ [0])) (\<lambda>r.
          if r < 0 then kret None
          else push_args pagetable stackbase sp' argv (ustack @ [sp'])))"

definition exec_stack :: "nat \<Rightarrow> uint64 \<Rightarrow> uint64 \<Rightarrow> uint8 list list \<Rightarrow>
    ('a kmem_scheme, (uint64 \<times> uint64 list) option) kfun" where
  "exec_stack pagetable stackbase sp argv = kbind (push_args pagetable stackbase sp argv []) (\<lambda>v.
     case v of
       None \<Rightarrow> kret None
     | Some (sp1, ustack) \<Rightarrow>
         let sp2 = align16 (sp1 - of_nat ((length ustack + 1) * 8)) in
         if sp2 < stackbase then kret None
         else kbind (copyout pagetable sp2 (concat (map (le_bytes 8) (ustack @ [0])))) (\<lambda>r.
           kret (if r < 0 then None else Some (sp2, ustack))))"

definition exec_bad :: "nat \<Rightarrow> uint64 \<Rightarrow> nat option \<Rightarrow> ('a kfile_scheme, int) kfun" where
  "exec_bad pagetable sz oip =
     kbind (if pagetable \<noteq> 0 then proc_freepagetable pagetable sz else kret ()) (\<lambda>_.
     kbind (case oip of Some ip \<Rightarrow> kbind (iunlockput ip) (\<lambda>_. end_op) | None \<Rightarrow> kret ()) (\<lambda>_.
     kret (-1)))"

definition last_element :: "uint8 list \<Rightarrow> uint8 list" where
  "last_element path = rev (takeWhile (\<lambda>c. c \<noteq> SLASH) (rev path))"

definition exec_image :: "nat \<Rightarrow> nat \<Rightarrow> uint64 \<Rightarrow> uint64 \<Rightarrow> uint8 list \<Rightarrow> uint8 list list \<Rightarrow> ('a kfile_scheme, int) kfun" where
  "exec_image i pagetable sz0 entry path argv =
     (let sz1 = PGROUNDUP sz0 in
      kbind (uvmalloc pagetable sz1 (sz1 + 2 * 4096) PTE_W) (\<lambda>sz.
      if sz = 0 then exec_bad pagetable sz1 None
      else kbind (uvmclear pagetable (sz - 2 * 4096)) (\<lambda>_.
        kbind (exec_stack pagetable (sz - 4096) sz argv) (\<lambda>v.
        case v of
          None \<Rightarrow> exec_bad pagetable sz None
        | Some (sp, ustack) \<Rightarrow> kbind (get_proc i) (\<lambda>p.
            kbind (set_tf i TF_a1 sp) (\<lambda>_.
            kbind (upd_proc i (\<lambda>p. p\<lparr>p_name := copy_name (p_name p) (last_element path),
              p_pagetable := pagetable, p_sz := sz\<rparr>)) (\<lambda>_.
            kbind (set_tf i TF_epc entry) (\<lambda>_.
            kbind (set_tf i TF_sp sp) (\<lambda>_.
            kbind (proc_freepagetable (p_pagetable p) (p_sz p)) (\<lambda>_.
            kret (int (length ustack))))))))))))"

definition exec :: "uint8 list \<Rightarrow> uint8 list list \<Rightarrow> ('a kfile_scheme, int) kfun" where
  "exec path argv = kbind myproc (\<lambda>i.
     kbind begin_op (\<lambda>_.
     kbind (namei path) (\<lambda>v.
     case v of
       None \<Rightarrow> kbind end_op (\<lambda>_. kret (-1))
     | Some ip \<Rightarrow> kbind (ilock ip) (\<lambda>_.
         kbind (readi ip ObjDst 0 64) (\<lambda>(r, bs).
         let elf = elfhdr_of bs in
         if r \<noteq> 64 \<or> elf_magic elf \<noteq> ELF_MAGIC then exec_bad 0 0 (Some ip)
         else kbind (proc_pagetable i) (\<lambda>pagetable.
           if pagetable = 0 then exec_bad 0 0 (Some ip)
           else kbind (exec_segments (unat (elf_phnum elf)) ip pagetable (ucast (elf_phoff elf)) 0) (\<lambda>(ok, sz).
             if \<not> ok then exec_bad pagetable sz (Some ip)
             else kbind (iunlockput ip) (\<lambda>_.
               kbind end_op (\<lambda>_.
               exec_image i pagetable sz (elf_entry elf) path argv)))))))))"

end
