(* ===== verification/Sysfile.thy ===== *)
theory Sysfile
  imports Exec
begin

text \<open>
  System call arguments, the first half of \<^verbatim>\<open>kernel/syscall.c\<close>, and the file system calls of
  \<^verbatim>\<open>kernel/sysfile.c\<close>.  The value of a system call is an integer; \<^verbatim>\<open>syscall\<close> stores it as a word.
  A fetched string is given without its terminator.  What a path-name buffer holds before
  \<^verbatim>\<open>nameiparent\<close> fills it does not matter, because the routines stop at the terminator.
\<close>

abbreviation (input) MAXPATH :: nat where "MAXPATH \<equiv> 128"

subsection \<open>Arguments\<close>

definition fetchaddr :: "uint64 \<Rightarrow> ('a kproc_scheme, uint64 option) kfun" where
  "fetchaddr addr = kbind myproc (\<lambda>i. kbind (get_proc i) (\<lambda>p.
     if addr \<ge> p_sz p \<or> addr + 8 > p_sz p then kret None
     else kbind (copyin (p_pagetable p) addr 8) (\<lambda>(r, bs).
       kret (if r \<noteq> 0 then None else Some (le_word bs)))))"

definition fetchstr :: "uint64 \<Rightarrow> nat \<Rightarrow> ('a kproc_scheme, uint8 list option) kfun" where
  "fetchstr addr mx = kbind myproc (\<lambda>i. kbind (get_proc i) (\<lambda>p.
     kbind (copyinstr (p_pagetable p) addr mx) (\<lambda>(r, bs).
     kret (if r < 0 then None else Some (takeWhile (\<lambda>c. c \<noteq> 0) bs)))))"

definition argraw :: "nat \<Rightarrow> ('a kproc_scheme, uint64) kfun" where
  "argraw n = kbind myproc (\<lambda>i.
     if n < 6 then get_tf i (TF_a0 + 8 * n) else kpanic ''argraw'')"

definition argint :: "nat \<Rightarrow> ('a kproc_scheme, int) kfun" where
  "argint n = kbind (argraw n) (\<lambda>v. kret (sint (ucast v :: uint32)))"

definition argaddr :: "nat \<Rightarrow> ('a kproc_scheme, uint64) kfun" where
  "argaddr n = argraw n"

definition argstr :: "nat \<Rightarrow> nat \<Rightarrow> ('a kproc_scheme, uint8 list option) kfun" where
  "argstr n mx = kbind (argaddr n) (\<lambda>addr. fetchstr addr mx)"

definition argfd :: "nat \<Rightarrow> ('a kproc_scheme, (nat \<times> nat) option) kfun" where
  "argfd n = kbind (argint n) (\<lambda>fd. kbind myproc (\<lambda>i. kbind (get_proc i) (\<lambda>p.
     kret (if fd < 0 \<or> fd \<ge> int NOFILE then None
           else map_option (\<lambda>f. (nat fd, f)) (p_ofile p ! nat fd)))))"

definition set_ofile :: "nat \<Rightarrow> nat \<Rightarrow> nat option \<Rightarrow> ('a kproc_scheme, unit) kfun" where
  "set_ofile i fd v = upd_proc i (\<lambda>p. p\<lparr>p_ofile := (p_ofile p)[fd := v]\<rparr>)"

definition fdalloc :: "nat \<Rightarrow> ('a kproc_scheme, int) kfun" where
  "fdalloc f = kbind myproc (\<lambda>i. kbind (get_proc i) (\<lambda>p.
     case find (\<lambda>fd. p_ofile p ! fd = None) [0..<NOFILE] of
       Some fd \<Rightarrow> kbind (set_ofile i fd (Some f)) (\<lambda>_. kret (int fd))
     | None \<Rightarrow> kret (-1)))"

subsection \<open>Calls on descriptors\<close>

definition sys_dup :: "('a kfile_scheme, int) kfun" where
  "sys_dup = kbind (argfd 0) (\<lambda>a.
     case a of
       None \<Rightarrow> kret (-1)
     | Some (_, f) \<Rightarrow> kbind (fdalloc f) (\<lambda>fd.
         if fd < 0 then kret (-1) else kbind (filedup f) (\<lambda>_. kret fd)))"

definition sys_read :: "('a kfile_scheme, int) kfun" where
  "sys_read = kbind (argaddr 1) (\<lambda>p. kbind (argint 2) (\<lambda>n. kbind (argfd 0) (\<lambda>a.
     case a of None \<Rightarrow> kret (-1) | Some (_, f) \<Rightarrow> fileread f p n)))"

definition sys_write :: "('a kfile_scheme, int) kfun" where
  "sys_write = kbind (argaddr 1) (\<lambda>p. kbind (argint 2) (\<lambda>n. kbind (argfd 0) (\<lambda>a.
     case a of None \<Rightarrow> kret (-1) | Some (_, f) \<Rightarrow> filewrite f p n)))"

definition sys_close :: "('a kfile_scheme, int) kfun" where
  "sys_close = kbind (argfd 0) (\<lambda>a.
     case a of
       None \<Rightarrow> kret (-1)
     | Some (fd, f) \<Rightarrow> kbind myproc (\<lambda>i.
         kbind (set_ofile i fd None) (\<lambda>_. kbind (fileclose f) (\<lambda>_. kret 0))))"

definition sys_fstat :: "('a kfile_scheme, int) kfun" where
  "sys_fstat = kbind (argaddr 1) (\<lambda>st. kbind (argfd 0) (\<lambda>a.
     case a of None \<Rightarrow> kret (-1) | Some (_, f) \<Rightarrow> filestat f st))"

subsection \<open>Links\<close>

definition name_buf :: "uint8 list" where
  "name_buf = replicate DIRSIZ 0"

definition add_nlink :: "nat \<Rightarrow> uint16 \<Rightarrow> ('a kfs_scheme, unit) kfun" where
  "add_nlink ip d = upd_inode ip (\<lambda>x. x\<lparr>i_nlink := i_nlink x + d\<rparr>)"

definition link_bad :: "nat \<Rightarrow> ('a kfs_scheme, int) kfun" where
  "link_bad ip = kbind (ilock ip) (\<lambda>_. kbind (add_nlink ip (-1)) (\<lambda>_. kbind (iupdate ip) (\<lambda>_.
     kbind (iunlockput ip) (\<lambda>_. kbind end_op (\<lambda>_. kret (-1))))))"

definition sys_link :: "('a kfs_scheme, int) kfun" where
  "sys_link = kbind (argstr 0 MAXPATH) (\<lambda>ao. case ao of None \<Rightarrow> kret (-1) | Some old \<Rightarrow>
     kbind (argstr 1 MAXPATH) (\<lambda>an. case an of None \<Rightarrow> kret (-1) | Some new \<Rightarrow>
     kbind begin_op (\<lambda>_.
     kbind (namei old) (\<lambda>v.
     case v of
       None \<Rightarrow> kbind end_op (\<lambda>_. kret (-1))
     | Some ip \<Rightarrow> kbind (ilock ip) (\<lambda>_. kbind (get_inode ip) (\<lambda>x.
         if i_type x = T_DIR then kbind (iunlockput ip) (\<lambda>_. kbind end_op (\<lambda>_. kret (-1)))
         else
           kbind (add_nlink ip 1) (\<lambda>_.
           kbind (iupdate ip) (\<lambda>_.
           kbind (iunlock ip) (\<lambda>_.
           kbind (nameiparent new name_buf) (\<lambda>w.
           case w of
             None \<Rightarrow> link_bad ip
           | Some (dp, nm) \<Rightarrow>
               kbind (ilock dp) (\<lambda>_.
               kbind (kget (\<lambda>s. (i_dev (inodes s ! dp), i_dev (inodes s ! ip), i_inum (inodes s ! ip)))) (\<lambda>(ddev, idev, inum).
               kbind (if ddev \<noteq> idev then kret (-1) else dirlink dp nm inum) (\<lambda>r.
               kbind (iunlockput dp) (\<lambda>_.
               if r < 0 then link_bad ip
               else kbind (iput ip) (\<lambda>_. kbind end_op (\<lambda>_. kret 0))))))))))))))))"

fun isdirempty_loop :: "nat \<Rightarrow> nat \<Rightarrow> uint32 \<Rightarrow> ('a kfs_scheme, bool) kfun" where
  "isdirempty_loop 0 dp off = kret True"
| "isdirempty_loop (Suc k) dp off = kbind (get_inode dp) (\<lambda>x.
     if \<not> off < i_size x then kret True
     else kbind (readi dp ObjDst off 16) (\<lambda>(r, bs).
       if r \<noteq> 16 then kpanic ''isdirempty: readi''
       else if de_inum (dirent_of bs) \<noteq> 0 then kret False
       else isdirempty_loop k dp (off + 16)))"

definition isdirempty :: "nat \<Rightarrow> ('a kfs_scheme, bool) kfun" where
  "isdirempty dp = kbind (get_inode dp) (\<lambda>x. isdirempty_loop (dirent_slots (i_size x)) dp 32)"

definition unlink_bad :: "nat \<Rightarrow> ('a kfs_scheme, int) kfun" where
  "unlink_bad dp = kbind (iunlockput dp) (\<lambda>_. kbind end_op (\<lambda>_. kret (-1)))"

definition unlink_entry :: "nat \<Rightarrow> nat \<Rightarrow> uint32 \<Rightarrow> ('a kfs_scheme, int) kfun" where
  "unlink_entry dp ip off = kbind (ilock ip) (\<lambda>_. kbind (get_inode ip) (\<lambda>x.
     if sint (i_nlink x) < 1 then kpanic ''unlink: nlink < 1''
     else kbind (if i_type x = T_DIR then isdirempty ip else kret True) (\<lambda>e.
       if \<not> e then kbind (iunlockput ip) (\<lambda>_. unlink_bad dp)
       else kbind (writei dp (ObjSrc (replicate 16 0)) off 16) (\<lambda>r.
         if r \<noteq> 16 then kpanic ''unlink: writei''
         else
           kbind (if i_type x = T_DIR then kbind (add_nlink dp (-1)) (\<lambda>_. iupdate dp) else kret ()) (\<lambda>_.
           kbind (iunlockput dp) (\<lambda>_.
           kbind (add_nlink ip (-1)) (\<lambda>_.
           kbind (iupdate ip) (\<lambda>_.
           kbind (iunlockput ip) (\<lambda>_.
           kbind end_op (\<lambda>_.
           kret 0))))))))))"

definition sys_unlink :: "('a kfs_scheme, int) kfun" where
  "sys_unlink = kbind (argstr 0 MAXPATH) (\<lambda>a. case a of None \<Rightarrow> kret (-1) | Some path \<Rightarrow>
     kbind begin_op (\<lambda>_.
     kbind (nameiparent path name_buf) (\<lambda>w.
     case w of
       None \<Rightarrow> kbind end_op (\<lambda>_. kret (-1))
     | Some (dp, nm) \<Rightarrow> kbind (ilock dp) (\<lambda>_.
         if namecmp nm [46] = 0 \<or> namecmp nm [46, 46] = 0 then unlink_bad dp
         else kbind (dirlookup dp nm) (\<lambda>v.
           case v of None \<Rightarrow> unlink_bad dp | Some (ip, off) \<Rightarrow> unlink_entry dp ip off)))))"

subsection \<open>Creating and opening\<close>

definition create_fail :: "nat \<Rightarrow> nat \<Rightarrow> ('a kfs_scheme, nat option) kfun" where
  "create_fail dp ip = kbind (upd_inode ip (\<lambda>x. x\<lparr>i_nlink := 0\<rparr>)) (\<lambda>_. kbind (iupdate ip) (\<lambda>_.
     kbind (iunlockput ip) (\<lambda>_. kbind (iunlockput dp) (\<lambda>_. kret None))))"

definition create_dots :: "nat \<Rightarrow> nat \<Rightarrow> ('a kfs_scheme, int) kfun" where
  "create_dots dp ip = kbind (kget (\<lambda>s. (i_inum (inodes s ! ip), i_inum (inodes s ! dp)))) (\<lambda>(self, up).
     kbind (dirlink ip [46] self) (\<lambda>r. if r < 0 then kret (-1) else dirlink ip [46, 46] up))"

definition create_entry :: "nat \<Rightarrow> nat \<Rightarrow> uint8 list \<Rightarrow> uint16 \<Rightarrow> uint16 \<Rightarrow> uint16 \<Rightarrow> ('a kfs_scheme, nat option) kfun" where
  "create_entry dp ip nm type major minor =
     kbind (ilock ip) (\<lambda>_.
     kbind (upd_inode ip (\<lambda>x. x\<lparr>i_major := major, i_minor := minor, i_nlink := 1\<rparr>)) (\<lambda>_.
     kbind (iupdate ip) (\<lambda>_.
     kbind (if type = T_DIR then create_dots dp ip else kret 0) (\<lambda>r.
     if r < 0 then create_fail dp ip
     else kbind (get_inode ip) (\<lambda>x.
       kbind (dirlink dp nm (i_inum x)) (\<lambda>r2.
       if r2 < 0 then create_fail dp ip
       else
         kbind (if type = T_DIR then kbind (add_nlink dp 1) (\<lambda>_. iupdate dp) else kret ()) (\<lambda>_.
         kbind (iunlockput dp) (\<lambda>_.
         kret (Some ip)))))))))"

definition create :: "uint8 list \<Rightarrow> uint16 \<Rightarrow> uint16 \<Rightarrow> uint16 \<Rightarrow> ('a kfs_scheme, nat option) kfun" where
  "create path type major minor = kbind (nameiparent path name_buf) (\<lambda>w.
     case w of
       None \<Rightarrow> kret None
     | Some (dp, nm) \<Rightarrow> kbind (ilock dp) (\<lambda>_.
         kbind (dirlookup dp nm) (\<lambda>v.
         case v of
           Some (ip, _) \<Rightarrow>
             kbind (iunlockput dp) (\<lambda>_.
             kbind (ilock ip) (\<lambda>_.
             kbind (get_inode ip) (\<lambda>x.
             if type = T_FILE \<and> (i_type x = T_FILE \<or> i_type x = T_DEVICE) then kret (Some ip)
             else kbind (iunlockput ip) (\<lambda>_. kret None))))
         | None \<Rightarrow> kbind (get_inode dp) (\<lambda>d.
             kbind (ialloc (i_dev d) type) (\<lambda>n.
             case n of
               None \<Rightarrow> kbind (iunlockput dp) (\<lambda>_. kret None)
             | Some ip \<Rightarrow> create_entry dp ip nm type major minor)))))"

definition has_flag :: "int \<Rightarrow> int \<Rightarrow> bool" where
  "has_flag omode flag \<longleftrightarrow> omode AND flag \<noteq> 0"

abbreviation (input) O_RDONLY :: int where "O_RDONLY \<equiv> 0"
abbreviation (input) O_WRONLY :: int where "O_WRONLY \<equiv> 0x001"
abbreviation (input) O_RDWR :: int where "O_RDWR \<equiv> 0x002"
abbreviation (input) O_CREATE :: int where "O_CREATE \<equiv> 0x200"
abbreviation (input) O_TRUNC :: int where "O_TRUNC \<equiv> 0x400"

text \<open>The first half of \<^verbatim>\<open>sys_open\<close>: the locked inode to open.\<close>

definition open_inode :: "uint8 list \<Rightarrow> int \<Rightarrow> ('a kfs_scheme, nat option) kfun" where
  "open_inode path omode =
     (if has_flag omode O_CREATE then create path T_FILE 0 0
      else kbind (namei path) (\<lambda>v.
        case v of
          None \<Rightarrow> kret None
        | Some ip \<Rightarrow> kbind (ilock ip) (\<lambda>_. kbind (get_inode ip) (\<lambda>x.
            if i_type x = T_DIR \<and> omode \<noteq> O_RDONLY then kbind (iunlockput ip) (\<lambda>_. kret None)
            else kret (Some ip)))))"

definition open_fail :: "nat option \<Rightarrow> nat \<Rightarrow> ('a kfile_scheme, int) kfun" where
  "open_fail f ip = kbind (case f of Some g \<Rightarrow> fileclose g | None \<Rightarrow> kret ()) (\<lambda>_.
     kbind (iunlockput ip) (\<lambda>_. kbind end_op (\<lambda>_. kret (-1))))"

definition open_file_of :: "inode \<Rightarrow> nat \<Rightarrow> int \<Rightarrow> open_file \<Rightarrow> open_file" where
  "open_file_of x ip omode f =
     (if i_type x = T_DEVICE then f\<lparr>f_type := FD_DEVICE, f_major := i_major x\<rparr>
      else f\<lparr>f_type := FD_INODE, f_off := 0\<rparr>)
     \<lparr>f_ip := ip, f_readable := \<not> has_flag omode O_WRONLY,
      f_writable := has_flag omode O_WRONLY \<or> has_flag omode O_RDWR\<rparr>"

definition sys_open :: "('a kfile_scheme, int) kfun" where
  "sys_open = kbind (argint 1) (\<lambda>omode. kbind (argstr 0 MAXPATH) (\<lambda>a. case a of None \<Rightarrow> kret (-1) | Some path \<Rightarrow>
     kbind begin_op (\<lambda>_.
     kbind (open_inode path omode) (\<lambda>v.
     case v of
       None \<Rightarrow> kbind end_op (\<lambda>_. kret (-1))
     | Some ip \<Rightarrow> kbind (get_inode ip) (\<lambda>x.
         if i_type x = T_DEVICE \<and> (sint (i_major x) < 0 \<or> sint (i_major x) \<ge> int NDEV) then open_fail None ip
         else kbind filealloc (\<lambda>g.
           case g of
             None \<Rightarrow> open_fail None ip
           | Some f \<Rightarrow> kbind (fdalloc f) (\<lambda>fd.
               if fd < 0 then open_fail (Some f) ip
               else
                 kbind (upd_file f (open_file_of x ip omode)) (\<lambda>_.
                 kbind (if has_flag omode O_TRUNC \<and> i_type x = T_FILE then itrunc ip else kret ()) (\<lambda>_.
                 kbind (iunlock ip) (\<lambda>_.
                 kbind end_op (\<lambda>_.
                 kret fd)))))))))))"

definition make_node :: "nat option \<Rightarrow> ('a kfs_scheme, int) kfun" where
  "make_node v = (case v of
       None \<Rightarrow> kbind end_op (\<lambda>_. kret (-1))
     | Some ip \<Rightarrow> kbind (iunlockput ip) (\<lambda>_. kbind end_op (\<lambda>_. kret 0)))"

definition sys_mkdir :: "('a kfs_scheme, int) kfun" where
  "sys_mkdir = kbind begin_op (\<lambda>_. kbind (argstr 0 MAXPATH) (\<lambda>a.
     kbind (case a of None \<Rightarrow> kret None | Some path \<Rightarrow> create path T_DIR 0 0) make_node))"

definition sys_mknod :: "('a kfs_scheme, int) kfun" where
  "sys_mknod = kbind begin_op (\<lambda>_. kbind (argint 1) (\<lambda>major. kbind (argint 2) (\<lambda>minor. kbind (argstr 0 MAXPATH) (\<lambda>a.
     kbind (case a of
         None \<Rightarrow> kret None
       | Some path \<Rightarrow> create path T_DEVICE (word_of_int major) (word_of_int minor)) make_node))))"

definition sys_chdir :: "('a kfs_scheme, int) kfun" where
  "sys_chdir = kbind myproc (\<lambda>i. kbind begin_op (\<lambda>_. kbind (argstr 0 MAXPATH) (\<lambda>a.
     kbind (case a of None \<Rightarrow> kret None | Some path \<Rightarrow> namei path) (\<lambda>v.
     case v of
       None \<Rightarrow> kbind end_op (\<lambda>_. kret (-1))
     | Some ip \<Rightarrow> kbind (ilock ip) (\<lambda>_. kbind (get_inode ip) (\<lambda>x.
         if i_type x \<noteq> T_DIR then kbind (iunlockput ip) (\<lambda>_. kbind end_op (\<lambda>_. kret (-1)))
         else
           kbind (iunlock ip) (\<lambda>_.
           kbind (get_proc i) (\<lambda>p.
           kbind (case p_cwd p of Some c \<Rightarrow> iput c | None \<Rightarrow> null_deref) (\<lambda>_.
           kbind end_op (\<lambda>_.
           kbind (upd_proc i (\<lambda>p. p\<lparr>p_cwd := Some ip\<rparr>)) (\<lambda>_.
           kret 0)))))))))))"

subsection \<open>Programs and pipes\<close>

text \<open>
  The argument strings of \<^verbatim>\<open>sys_exec\<close> and \<^verbatim>\<open>sys_ps\<close>, each in a page of its own: the pages with
  their strings, and whether the list was complete.
\<close>

fun fetch_argv :: "nat \<Rightarrow> uint64 \<Rightarrow> nat \<Rightarrow> ('a kproc_scheme, (nat \<times> uint8 list) list \<times> bool) kfun" where
  "fetch_argv 0 uargv i = kret ([], False)"
| "fetch_argv (Suc k) uargv i = kbind (fetchaddr (uargv + 8 * of_nat i)) (\<lambda>v.
     case v of
       None \<Rightarrow> kret ([], False)
     | Some uarg \<Rightarrow>
         if uarg = 0 then kret ([], True)
         else kbind kalloc (\<lambda>pg.
           if pg = 0 then kret ([], False)
           else kbind (fetchstr uarg PGSIZE) (\<lambda>str.
             case str of
               None \<Rightarrow> kret ([(pg, [])], False)
             | Some bs \<Rightarrow>
                 kbind (kmodify (\<lambda>s. s\<lparr>mem := store_bytes (mem s) pg (bs @ [0])\<rparr>)) (\<lambda>_.
                 kbind (fetch_argv k uargv (i + 1)) (\<lambda>(rest, ok).
                 kret ((pg, bs) # rest, ok))))))"

definition free_argv :: "(nat \<times> uint8 list) list \<Rightarrow> ('a kmem_scheme, unit) kfun" where
  "free_argv argv = kforeach argv (\<lambda>(pg, _). kfree pg)"

definition sys_exec :: "('a kfile_scheme, int) kfun" where
  "sys_exec = kbind (argaddr 1) (\<lambda>uargv. kbind (argstr 0 MAXPATH) (\<lambda>a. case a of None \<Rightarrow> kret (-1) | Some path \<Rightarrow>
     kbind (fetch_argv MAXARG uargv 0) (\<lambda>(argv, ok).
     kbind (if ok then exec path (map snd argv) else kret (-1)) (\<lambda>r.
     kbind (free_argv argv) (\<lambda>_.
     kret r)))))"

definition pipe_fail :: "nat \<Rightarrow> int list \<Rightarrow> nat \<times> nat \<Rightarrow> ('a kfile_scheme, int) kfun" where
  "pipe_fail i fds fs = kbind (kforeach fds (\<lambda>fd. set_ofile i (nat fd) None)) (\<lambda>_.
     kbind (fileclose (fst fs)) (\<lambda>_. kbind (fileclose (snd fs)) (\<lambda>_. kret (-1))))"

definition sys_pipe :: "('a kfile_scheme, int) kfun" where
  "sys_pipe = kbind myproc (\<lambda>i. kbind (argaddr 0) (\<lambda>fdarray. kbind pipealloc (\<lambda>v.
     case v of
       None \<Rightarrow> kret (-1)
     | Some fs \<Rightarrow> kbind (fdalloc (fst fs)) (\<lambda>fd0.
         if fd0 < 0 then pipe_fail i [] fs
         else kbind (fdalloc (snd fs)) (\<lambda>fd1.
           if fd1 < 0 then pipe_fail i [fd0] fs
           else kbind (get_proc i) (\<lambda>p.
             kbind (copyout (p_pagetable p) fdarray (le_bytes 4 (word_of_int fd0 :: uint32))) (\<lambda>r0.
             kbind (if r0 < 0 then kret (-1)
               else copyout (p_pagetable p) (fdarray + 4) (le_bytes 4 (word_of_int fd1 :: uint32))) (\<lambda>r1.
             if r1 < 0 then pipe_fail i [fd0, fd1] fs else kret 0))))))))"

end
