(* ===== verification/Syscall.thy ===== *)
theory Syscall
  imports Sysfile
begin

text \<open>
  The process system calls of \<^verbatim>\<open>kernel/sysproc.c\<close> and the dispatch of \<^verbatim>\<open>kernel/syscall.c\<close>.
  \<open>stale_pids\<close> is what the stack holds where \<^verbatim>\<open>ps\<close> keeps its array of identifiers.
\<close>

record ksys = kfile +
  ticks :: uint32
  stale_pids :: "int list"

subsection \<open>Process calls\<close>

definition sys_exit :: "('a ksys_scheme, int) kfun" where
  "sys_exit = kbind (argint 0) (\<lambda>n. exit n)"

definition sys_getpid :: "('a ksys_scheme, int) kfun" where
  "sys_getpid = kbind myproc (\<lambda>i. kbind (get_proc i) (\<lambda>p. kret (p_pid p)))"

definition sys_fork :: "('a ksys_scheme, int) kfun" where
  "sys_fork = fork"

definition sys_wait :: "('a ksys_scheme, int) kfun" where
  "sys_wait = kbind (argaddr 0) wait"

definition sys_sbrk :: "('a ksys_scheme, int) kfun" where
  "sys_sbrk = kbind (argint 0) (\<lambda>n. kbind myproc (\<lambda>i. kbind (get_proc i) (\<lambda>p.
     kbind (growproc n) (\<lambda>r. kret (if r < 0 then -1 else uint (p_sz p))))))"

text \<open>\<open>sys_sleep_from ticks0 n\<close> is the loop of \<^verbatim>\<open>sys_sleep\<close>, which a wakeup runs again.\<close>

definition sys_sleep_from :: "uint32 \<Rightarrow> int \<Rightarrow> ('a ksys_scheme, int) kfun" where
  "sys_sleep_from ticks0 n = kbind (kget ticks) (\<lambda>t.
     if t - ticks0 < word_of_int n then
       kbind myproc (\<lambda>i. kbind (killed i) (\<lambda>k. if k then kret (-1) else sleep ChTicks))
     else kret 0)"

definition sys_sleep :: "('a ksys_scheme, int) kfun" where
  "sys_sleep = kbind (argint 0) (\<lambda>n. kbind (kget ticks) (\<lambda>ticks0.
     sys_sleep_from ticks0 (if n < 0 then 0 else n)))"

definition sys_kill :: "('a ksys_scheme, int) kfun" where
  "sys_kill = kbind (argint 0) kill"

definition sys_uptime :: "('a ksys_scheme, int) kfun" where
  "sys_uptime = kbind (kget ticks) (\<lambda>t. kret (uint t))"

definition argv_slots :: "(nat \<times> uint8 list) list \<Rightarrow> uint8 list option list" where
  "argv_slots argv = map (\<lambda>(_, bs). Some bs) argv @ replicate (MAXARG - length argv) None"

definition sys_ps :: "('a ksys_scheme, int) kfun" where
  "sys_ps = kbind (argint 0) (\<lambda>argc. kbind (argaddr 1) (\<lambda>uargv.
     kbind (fetch_argv MAXARG uargv 0) (\<lambda>(argv, ok).
     kbind (if ok then kbind (kget stale_pids) (\<lambda>stale. ps stale argc (argv_slots argv)) else kret (-1)) (\<lambda>r.
     kbind (free_argv argv) (\<lambda>_.
     kret r)))))"

subsection \<open>Dispatch\<close>

definition syscalls :: "('a ksys_scheme, int) kfun list" where
  "syscalls = [sys_fork, sys_exit, sys_wait, sys_pipe, sys_read, sys_kill, sys_exec, sys_fstat, sys_chdir, sys_dup,
     sys_getpid, sys_sbrk, sys_sleep, sys_uptime, sys_open, sys_write, sys_mknod, sys_unlink, sys_link, sys_mkdir,
     sys_close, sys_ps]"

definition syscall :: "('a ksys_scheme, unit) kfun" where
  "syscall = kbind myproc (\<lambda>i. kbind (get_tf i TF_a7) (\<lambda>a7.
     let num = sint (ucast a7 :: uint32) in
     if num > 0 \<and> num < 23 then
       kbind (syscalls ! nat (num - 1)) (\<lambda>r. set_tf i TF_a0 (word_of_int r))
     else kbind (get_proc i) (\<lambda>p.
       kbind (kprintf (''%d %s: unknown sys call %d'' @ nl)
         [int_arg (p_pid p), AStr (Some (cstring (p_name p))), int_arg num]) (\<lambda>_.
       set_tf i TF_a0 (-1)))))"

end
