(* ===== verification/Trap.thy ===== *)
theory Trap
  imports Syscall
begin

text \<open>
  Traps, \<^verbatim>\<open>kernel/trap.c\<close>.  The control and status registers the code reads and writes are
  fields of the state.  \<open>plic_irq\<close> is the interrupt the controller would hand out, and
  \<open>plic_done\<close> the interrupts completed; the disk interrupt has no work left, since a disk
  request of theory \<open>Bio\<close> completes within the call.
\<close>

record ktrap = ksys +
  sstatus :: uint64
  scause :: uint64
  sepc :: uint64
  stval :: uint64
  stvec :: uint64
  ksatp :: uint64
  hartid :: uint64
  time :: uint64
  stimecmp :: uint64
  plic_irq :: nat
  plic_done :: "nat list"
  sym_kernelvec :: uint64
  sym_usertrap :: uint64
  uservec_off :: uint64
  userret_off :: uint64

abbreviation (input) SSTATUS_SPP :: uint64 where "SSTATUS_SPP \<equiv> 0x100"
abbreviation (input) SSTATUS_SPIE :: uint64 where "SSTATUS_SPIE \<equiv> 0x20"
abbreviation (input) SSTATUS_SIE :: uint64 where "SSTATUS_SIE \<equiv> 0x2"
abbreviation (input) UART0_IRQ :: nat where "UART0_IRQ \<equiv> 10"
abbreviation (input) VIRTIO0_IRQ :: nat where "VIRTIO0_IRQ \<equiv> 1"

definition MAKE_SATP :: "nat \<Rightarrow> uint64" where
  "MAKE_SATP pagetable = push_bit 60 8 OR drop_bit 12 (of_nat pagetable)"

definition trapinithart :: "('a ktrap_scheme, unit) kfun" where
  "trapinithart = kmodify (\<lambda>s. s\<lparr>stvec := sym_kernelvec s\<rparr>)"

definition clockintr :: "('a ktrap_scheme, unit) kfun" where
  "clockintr = kbind (kget hartid) (\<lambda>h.
     kbind (if h = 0 then kbind (kmodify (\<lambda>s. s\<lparr>ticks := ticks s + 1\<rparr>)) (\<lambda>_. wakeup ChTicks) else kret ()) (\<lambda>_.
     kmodify (\<lambda>s. s\<lparr>stimecmp := time s + 1000000\<rparr>)))"

definition devintr :: "('a ktrap_scheme, int) kfun" where
  "devintr = kbind (kget (\<lambda>s. (scause s, plic_irq s))) (\<lambda>(cause, irq).
     if cause = 0x8000000000000009 then
       kbind (if irq = UART0_IRQ then uartintr
              else if irq = VIRTIO0_IRQ then kret ()
              else if irq \<noteq> 0 then kprintf (''unexpected interrupt irq=%d'' @ nl) [int_arg (int irq)]
              else kret ()) (\<lambda>_.
       kbind (if irq \<noteq> 0 then kmodify (\<lambda>s. s\<lparr>plic_done := plic_done s @ [irq]\<rparr>) else kret ()) (\<lambda>_.
       kret 1))
     else if cause = 0x8000000000000005 then kbind clockintr (\<lambda>_. kret 2)
     else kret 0)"

text \<open>What \<^verbatim>\<open>userret\<close> is entered with: its address and the user page table.\<close>

definition usertrapret :: "('a ktrap_scheme, uint64 \<times> uint64) kfun" where
  "usertrapret = kbind myproc (\<lambda>i.
     kbind (kmodify (\<lambda>s. s\<lparr>sstatus := sstatus s AND NOT SSTATUS_SIE\<rparr>)) (\<lambda>_.
     kbind (kmodify (\<lambda>s. s\<lparr>stvec := TRAMPOLINE + uservec_off s\<rparr>)) (\<lambda>_.
     kbind (get_proc i) (\<lambda>p.
     kbind (kget (\<lambda>s. s)) (\<lambda>s.
     kbind (set_tf i TF_kernel_satp (ksatp s)) (\<lambda>_.
     kbind (set_tf i TF_kernel_sp (p_kstack p + 4096)) (\<lambda>_.
     kbind (set_tf i TF_kernel_trap (sym_usertrap s)) (\<lambda>_.
     kbind (set_tf i TF_kernel_hartid (hartid s)) (\<lambda>_.
     kbind (kmodify (\<lambda>s. s\<lparr>sstatus := (sstatus s AND NOT SSTATUS_SPP) OR SSTATUS_SPIE\<rparr>)) (\<lambda>_.
     kbind (get_tf i TF_epc) (\<lambda>epc.
     kbind (kmodify (\<lambda>s. s\<lparr>sepc := epc\<rparr>)) (\<lambda>_.
     kret (TRAMPOLINE + userret_off s, MAKE_SATP (p_pagetable p))))))))))))))"

definition exit_if_killed :: "nat \<Rightarrow> ('a ktrap_scheme, unit) kfun" where
  "exit_if_killed i = kbind (killed i) (\<lambda>k. if k then exit (-1) else kret ())"

text \<open>The middle of \<^verbatim>\<open>usertrap\<close>: the cause is handled and \<^verbatim>\<open>which_dev\<close> is the result.\<close>

definition usertrap_cause :: "nat \<Rightarrow> ('a ktrap_scheme, int) kfun" where
  "usertrap_cause i = kbind (kget scause) (\<lambda>cause.
     if cause = 8 then
       kbind (exit_if_killed i) (\<lambda>_.
       kbind (get_tf i TF_epc) (\<lambda>epc.
       kbind (set_tf i TF_epc (epc + 4)) (\<lambda>_.
       kbind (kmodify (\<lambda>s. s\<lparr>sstatus := sstatus s OR SSTATUS_SIE\<rparr>)) (\<lambda>_.
       kbind syscall (\<lambda>_.
       kret 0)))))
     else kbind devintr (\<lambda>which_dev.
       if which_dev \<noteq> 0 then kret which_dev
       else kbind (kget (\<lambda>s. s)) (\<lambda>s. kbind (get_proc i) (\<lambda>p.
         kbind (kprintf (''usertrap(): unexpected scause 0x%lx pid=%d'' @ nl) [ANum (scause s), int_arg (p_pid p)]) (\<lambda>_.
         kbind (kprintf (''            sepc=0x%lx stval=0x%lx'' @ nl) [ANum (sepc s), ANum (stval s)]) (\<lambda>_.
         kbind (setkilled i) (\<lambda>_.
         kret 0)))))))"

definition usertrap :: "('a ktrap_scheme, uint64 \<times> uint64) kfun" where
  "usertrap = kbind (kget sstatus) (\<lambda>st.
     if st AND SSTATUS_SPP \<noteq> 0 then kpanic ''usertrap: not from user mode''
     else
       kbind trapinithart (\<lambda>_.
       kbind myproc (\<lambda>i.
       kbind (kget sepc) (\<lambda>pc.
       kbind (set_tf i TF_epc pc) (\<lambda>_.
       kbind (usertrap_cause i) (\<lambda>which_dev.
       kbind (exit_if_killed i) (\<lambda>_.
       kbind (if which_dev = 2 then yield else kret ()) (\<lambda>_.
       usertrapret))))))))"

definition kerneltrap :: "('a ktrap_scheme, unit) kfun" where
  "kerneltrap = kbind (kget (\<lambda>s. (sepc s, sstatus s))) (\<lambda>(pc, st).
     if st AND SSTATUS_SPP = 0 then kpanic ''kerneltrap: not from supervisor mode''
     else if st AND SSTATUS_SIE \<noteq> 0 then kpanic ''kerneltrap: interrupts enabled''
     else kbind devintr (\<lambda>which_dev.
       if which_dev = 0 then
         kbind (kget (\<lambda>s. s)) (\<lambda>s.
         kbind (kprintf (''scause=0x%lx sepc=0x%lx stval=0x%lx'' @ nl) [ANum (scause s), ANum (sepc s), ANum (stval s)]) (\<lambda>_.
         kpanic ''kerneltrap''))
       else
         kbind (kget curproc) (\<lambda>c.
         kbind (if which_dev = 2 \<and> c \<noteq> None then yield else kret ()) (\<lambda>_.
         kmodify (\<lambda>s. s\<lparr>sepc := pc, sstatus := st\<rparr>)))))"

end
