(* ===== verification/Start.thy ===== *)
theory Start
  imports Riscv
begin

text \<open>
  The first code of a hart, \<^verbatim>\<open>kernel/start.c\<close>, with the accesses to the control registers of \<^verbatim>\<open>kernel/riscv.h\<close>
  that it makes, and the interrupt controller, \<^verbatim>\<open>kernel/plic.c\<close>, as writes to its registers.
\<close>

record hart =
  mhartid :: uint64
  mstatus :: uint64
  mepc :: uint64
  satp :: uint64
  medeleg :: uint64
  mideleg :: uint64
  sie :: uint64
  mie :: uint64
  menvcfg :: uint64
  mcounteren :: uint64
  m_stimecmp :: uint64
  rtime :: uint64
  pmpaddr0 :: uint64
  pmpcfg0 :: uint64
  tp :: uint64

definition MSTATUS_MPP_MASK :: uint64 where "MSTATUS_MPP_MASK = push_bit 11 3"
definition MSTATUS_MPP_S :: uint64 where "MSTATUS_MPP_S = push_bit 11 1"
definition SIE_SEIE :: uint64 where "SIE_SEIE = push_bit 9 1"
definition SIE_STIE :: uint64 where "SIE_STIE = push_bit 5 1"
definition SIE_SSIE :: uint64 where "SIE_SSIE = push_bit 1 1"
definition MIE_STIE :: uint64 where "MIE_STIE = push_bit 5 1"

definition r_mhartid :: "hart \<Rightarrow> uint64" where "r_mhartid s = mhartid s"
definition r_mstatus :: "hart \<Rightarrow> uint64" where "r_mstatus s = mstatus s"
definition w_mstatus :: "uint64 \<Rightarrow> hart \<Rightarrow> hart" where "w_mstatus x s = s\<lparr>mstatus := x\<rparr>"
definition w_mepc :: "uint64 \<Rightarrow> hart \<Rightarrow> hart" where "w_mepc x s = s\<lparr>mepc := x\<rparr>"
definition w_satp :: "uint64 \<Rightarrow> hart \<Rightarrow> hart" where "w_satp x s = s\<lparr>satp := x\<rparr>"
definition w_medeleg :: "uint64 \<Rightarrow> hart \<Rightarrow> hart" where "w_medeleg x s = s\<lparr>medeleg := x\<rparr>"
definition w_mideleg :: "uint64 \<Rightarrow> hart \<Rightarrow> hart" where "w_mideleg x s = s\<lparr>mideleg := x\<rparr>"
definition r_sie :: "hart \<Rightarrow> uint64" where "r_sie s = sie s"
definition w_sie :: "uint64 \<Rightarrow> hart \<Rightarrow> hart" where "w_sie x s = s\<lparr>sie := x\<rparr>"
definition r_mie :: "hart \<Rightarrow> uint64" where "r_mie s = mie s"
definition w_mie :: "uint64 \<Rightarrow> hart \<Rightarrow> hart" where "w_mie x s = s\<lparr>mie := x\<rparr>"
definition r_menvcfg :: "hart \<Rightarrow> uint64" where "r_menvcfg s = menvcfg s"
definition w_menvcfg :: "uint64 \<Rightarrow> hart \<Rightarrow> hart" where "w_menvcfg x s = s\<lparr>menvcfg := x\<rparr>"
definition r_mcounteren :: "hart \<Rightarrow> uint64" where "r_mcounteren s = mcounteren s"
definition w_mcounteren :: "uint64 \<Rightarrow> hart \<Rightarrow> hart" where "w_mcounteren x s = s\<lparr>mcounteren := x\<rparr>"
definition r_time :: "hart \<Rightarrow> uint64" where "r_time s = rtime s"
definition w_stimecmp :: "uint64 \<Rightarrow> hart \<Rightarrow> hart" where "w_stimecmp x s = s\<lparr>m_stimecmp := x\<rparr>"
definition w_pmpaddr0 :: "uint64 \<Rightarrow> hart \<Rightarrow> hart" where "w_pmpaddr0 x s = s\<lparr>pmpaddr0 := x\<rparr>"
definition w_pmpcfg0 :: "uint64 \<Rightarrow> hart \<Rightarrow> hart" where "w_pmpcfg0 x s = s\<lparr>pmpcfg0 := x\<rparr>"
definition w_tp :: "uint64 \<Rightarrow> hart \<Rightarrow> hart" where "w_tp x s = s\<lparr>tp := x\<rparr>"

definition timerinit :: "hart \<Rightarrow> hart" where
  "timerinit s0 =
     (let s1 = w_mie (r_mie s0 OR MIE_STIE) s0;
          s2 = w_menvcfg (r_menvcfg s1 OR push_bit 63 1) s1;
          s3 = w_mcounteren (r_mcounteren s2 OR 2) s2
      in w_stimecmp (r_time s3 + 1000000) s3)"

text \<open>Up to the \<^verbatim>\<open>mret\<close>, which continues at \<^verbatim>\<open>main\<close>.  The hart number goes through an \<^verbatim>\<open>int\<close>.\<close>

definition start_hart :: "uint64 \<Rightarrow> hart \<Rightarrow> hart" where
  "start_hart main s0 =
     (let x = (r_mstatus s0 AND NOT MSTATUS_MPP_MASK) OR MSTATUS_MPP_S;
          s1 = w_mstatus x s0;
          s2 = w_mepc main s1;
          s3 = w_satp 0 s2;
          s4 = w_mideleg 0xffff (w_medeleg 0xffff s3);
          s5 = w_sie (r_sie s4 OR SIE_SEIE OR SIE_STIE OR SIE_SSIE) s4;
          s6 = w_pmpcfg0 0xf (w_pmpaddr0 0x3fffffffffffff s5);
          s7 = timerinit s6
      in w_tp (scast (ucast (r_mhartid s7) :: uint32)) s7)"

subsection \<open>The interrupt controller\<close>

type_synonym devregs = "nat \<Rightarrow> uint32"

definition UART0_IRQ :: nat where "UART0_IRQ = 10"
definition VIRTIO0_IRQ :: nat where "VIRTIO0_IRQ = 1"
definition PLIC :: nat where "PLIC = 0x0c000000"
definition PLIC_SENABLE :: "nat \<Rightarrow> nat" where "PLIC_SENABLE h = PLIC + 0x2080 + h * 0x100"
definition PLIC_SPRIORITY :: "nat \<Rightarrow> nat" where "PLIC_SPRIORITY h = PLIC + 0x201000 + h * 0x2000"
definition PLIC_SCLAIM :: "nat \<Rightarrow> nat" where "PLIC_SCLAIM h = PLIC + 0x201004 + h * 0x2000"

definition plicinit :: "devregs \<Rightarrow> devregs" where
  "plicinit r = r(PLIC + UART0_IRQ * 4 := 1, PLIC + VIRTIO0_IRQ * 4 := 1)"

definition plicinithart :: "nat \<Rightarrow> devregs \<Rightarrow> devregs" where
  "plicinithart h r = r(PLIC_SENABLE h := push_bit UART0_IRQ 1 OR push_bit VIRTIO0_IRQ 1, PLIC_SPRIORITY h := 0)"

definition plic_claim :: "nat \<Rightarrow> devregs \<Rightarrow> int" where
  "plic_claim h r = sint (r (PLIC_SCLAIM h))"

definition plic_complete :: "nat \<Rightarrow> int \<Rightarrow> devregs \<Rightarrow> devregs" where
  "plic_complete h irq r = r(PLIC_SCLAIM h := word_of_int irq)"

subsection \<open>What they establish\<close>

text \<open>
  A hart enters \<^verbatim>\<open>main\<close> in supervisor mode with paging off, every interrupt and exception delegated to that
  mode, its timer armed and its number in \<^verbatim>\<open>tp\<close>.
\<close>

lemmas csr_defs = r_mhartid_def r_mstatus_def w_mstatus_def w_mepc_def w_satp_def w_medeleg_def w_mideleg_def r_sie_def w_sie_def
  r_mie_def w_mie_def r_menvcfg_def w_menvcfg_def r_mcounteren_def w_mcounteren_def r_time_def w_stimecmp_def w_pmpaddr0_def
  w_pmpcfg0_def w_tp_def

lemma start_hart_fields:
  "mepc (start_hart main s) = main" "satp (start_hart main s) = 0"
  "medeleg (start_hart main s) = 0xffff" "mideleg (start_hart main s) = 0xffff"
  "m_stimecmp (start_hart main s) = rtime s + 1000000"
  by (simp_all add: start_hart_def timerinit_def csr_defs Let_def)

lemma start_hart_mstatus:
  "mstatus (start_hart main s) = (mstatus s AND NOT MSTATUS_MPP_MASK) OR MSTATUS_MPP_S"
  by (simp add: start_hart_def timerinit_def csr_defs Let_def)

lemma start_hart_supervisor:
  "bit (mstatus (start_hart main s)) 11" "\<not> bit (mstatus (start_hart main s)) 12"
  by (simp_all add: start_hart_mstatus MSTATUS_MPP_MASK_def MSTATUS_MPP_S_def bit_simps)

lemma start_hart_interrupts:
  "bit (sie (start_hart main s)) 1" "bit (sie (start_hart main s)) 5" "bit (sie (start_hart main s)) 9"
  "bit (mie (start_hart main s)) 5"
  by (simp_all add: start_hart_def timerinit_def csr_defs Let_def SIE_SEIE_def SIE_STIE_def SIE_SSIE_def MIE_STIE_def bit_simps)

lemma scast_int_id:
  fixes x :: uint64
  assumes "x < 2 ^ 31"
  shows "scast (ucast x :: uint32) = x"
proof (rule bit_word_eqI)
  fix n :: nat
  assume "n < LENGTH(64)"
  moreover have "\<not> bit x m" if "31 \<le> m" for m
  proof -
    have "take_bit 31 x = x"
      using assms by (simp add: take_bit_eq_mod word_mod_less_divisor mod_word_less)
    then have "bit x m \<longleftrightarrow> bit (take_bit 31 x) m"
      by simp
    with that show ?thesis
      by (simp add: bit_take_bit_iff)
  qed
  ultimately show "bit (scast (ucast x :: uint32) :: uint64) n \<longleftrightarrow> bit x n"
    by (cases "31 \<le> n") (simp_all add: bit_simps min_def)
qed

lemma start_hart_number:
  assumes "mhartid s < 2 ^ 31"
  shows "tp (start_hart main s) = mhartid s"
  using scast_int_id [OF assms] by (simp add: start_hart_def timerinit_def csr_defs Let_def)

text \<open>No two of the registers that \<^verbatim>\<open>plicinithart\<close> writes for the harts are the same, so the harts do not interfere.\<close>

lemma plic_registers_apart:
  assumes "h < 8" "g < 8"
  shows "PLIC_SENABLE h \<noteq> PLIC_SPRIORITY g" "PLIC_SENABLE h = PLIC_SENABLE g \<longleftrightarrow> h = g" "PLIC_SPRIORITY h = PLIC_SPRIORITY g \<longleftrightarrow> h = g"
    "PLIC_SCLAIM h \<noteq> PLIC_SPRIORITY g" "PLIC_SCLAIM h \<noteq> PLIC_SENABLE g" "PLIC_SCLAIM h = PLIC_SCLAIM g \<longleftrightarrow> h = g"
proof -
  have "PLIC_SENABLE h < PLIC_SPRIORITY g" "PLIC_SENABLE g < PLIC_SCLAIM h"
    using assms by (simp_all add: PLIC_SENABLE_def PLIC_SPRIORITY_def PLIC_SCLAIM_def)
  then show "PLIC_SENABLE h \<noteq> PLIC_SPRIORITY g" "PLIC_SCLAIM h \<noteq> PLIC_SENABLE g" by simp_all
  have c: "PLIC_SCLAIM h = 8 * (0x1840200 + h * 0x400) + 4"
    by (simp add: PLIC_SCLAIM_def PLIC_def)
  have p: "PLIC_SPRIORITY g = 8 * (0x1840200 + g * 0x400)"
    by (simp add: PLIC_SPRIORITY_def PLIC_def)
  have "\<not> 8 dvd 8 * k + (4 :: nat)" for k
    by (simp add: dvd_add_right_iff)
  then show "PLIC_SCLAIM h \<noteq> PLIC_SPRIORITY g"
    unfolding c p by (metis dvd_triv_left)
qed (simp_all add: PLIC_SENABLE_def PLIC_SPRIORITY_def PLIC_SCLAIM_def)

end
