(* ===== verification/User.thy ===== *)
theory User
  imports Printf
begin

text \<open>
  What a user program sees of the kernel.  A program makes system calls, one after another; what a call
  returns is the kernel's business and may depend on all the calls before it, so a kernel is a function of
  the calls made so far and the call.  A program is then a function from a kernel and the calls made so
  far to what becomes of it.  C strings are lists of characters without their terminator.

  The second half is the user library's text routines, \<^verbatim>\<open>user/ulib.c\<close>, and its formatted output,
  \<^verbatim>\<open>user/printf.c\<close>.
\<close>

datatype call =
    CRead int nat | CWrite int string | COpen string nat | CClose int | CDup int | CPipe
  | CFork | CWait | CExec string "string list" | CExit int | CKill int | CSleep int
  | CChdir string | CMkdir string | CMknod string nat nat | CUnlink string | CLink string string
  | CFstat int | CPs int "string list"

text \<open>The number a call returns, and the bytes it stores through a pointer argument.\<close>

type_synonym kernel = "call list \<Rightarrow> call \<Rightarrow> int \<times> string"

text \<open>
  A program returns, exits, performs an access that C leaves undefined, or is still running when the
  bound on its loops is used up.
\<close>

datatype 'a run = Back 'a "call list" | Exited int "call list" | Fault "call list" | Running "call list"

type_synonym 'a user = "kernel \<Rightarrow> call list \<Rightarrow> 'a run"

definition uret :: "'a \<Rightarrow> 'a user" where
  "uret x = (\<lambda>k h. Back x h)"

definition ubind :: "'a user \<Rightarrow> ('a \<Rightarrow> 'b user) \<Rightarrow> 'b user" where
  "ubind m f = (\<lambda>k h. case m k h of
     Back x h' \<Rightarrow> f x k h' | Exited n h' \<Rightarrow> Exited n h' | Fault h' \<Rightarrow> Fault h' | Running h' \<Rightarrow> Running h')"

definition sys :: "call \<Rightarrow> (int \<times> string) user" where
  "sys c = (\<lambda>k h. Back (k h c) (h @ [c]))"

definition uexit :: "int \<Rightarrow> 'a user" where
  "uexit n = (\<lambda>k h. Exited n (h @ [CExit n]))"

definition ufault :: "'a user" where
  "ufault = (\<lambda>k h. Fault h)"

definition uspin :: "'a user" where
  "uspin = (\<lambda>k h. Running h)"

primrec uforeach :: "'b list \<Rightarrow> ('b \<Rightarrow> unit user) \<Rightarrow> unit user" where
  "uforeach [] f = uret ()"
| "uforeach (x # xs) f = ubind (f x) (\<lambda>_. uforeach xs f)"

text \<open>What has been written to a descriptor.\<close>

fun written :: "int \<Rightarrow> call list \<Rightarrow> string" where
  "written fd [] = []"
| "written fd (CWrite d s # h) = (if d = fd then s @ written fd h else written fd h)"
| "written fd (c # h) = written fd h"

lemma output_append [simp]: "written fd (h @ h') = written fd h @ written fd h'"
proof (induction h)
  case (Cons c h)
  then show ?case by (cases c) simp_all
qed simp

lemma uret_apply [simp]: "uret x k h = Back x h"
  by (simp add: uret_def)

lemma sys_apply [simp]: "sys c k h = Back (k h c) (h @ [c])"
  by (simp add: sys_def)

lemma uexit_apply [simp]: "uexit n k h = Exited n (h @ [CExit n])"
  by (simp add: uexit_def)

lemma ufault_apply [simp]: "ufault k h = Fault h"
  by (simp add: ufault_def)

lemma uspin_apply [simp]: "uspin k h = Running h"
  by (simp add: uspin_def)

lemma ubind_apply: "ubind m f k h = (case m k h of
    Back x h' \<Rightarrow> f x k h' | Exited n h' \<Rightarrow> Exited n h' | Fault h' \<Rightarrow> Fault h' | Running h' \<Rightarrow> Running h')"
  by (simp add: ubind_def)

lemma ubind_Back [simp]: "m k h = Back x h' \<Longrightarrow> ubind m f k h = f x k h'"
  by (simp add: ubind_def)

text \<open>A little-endian number in what a call has stored.\<close>

definition field :: "nat \<Rightarrow> nat \<Rightarrow> string \<Rightarrow> nat" where
  "field off len s = foldr (\<lambda>c v. of_char c + 256 * v) (take len (drop off s)) 0"

subsection \<open>Library\<close>

fun strcmp :: "string \<Rightarrow> string \<Rightarrow> int" where
  "strcmp (a # p) (b # q) = (if a = b then strcmp p q else int (of_char a) - int (of_char b))"
| "strcmp [] (b # q) = - int (of_char b)"
| "strcmp (a # p) [] = int (of_char a)"
| "strcmp [] [] = 0"

text \<open>The position of the first \<open>c\<close> before the terminator.\<close>

fun strchr :: "string \<Rightarrow> char \<Rightarrow> nat option" where
  "strchr [] c = None"
| "strchr (a # s) c = (if a = CHR 0x00 then None else if a = c then Some 0 else map_option Suc (strchr s c))"

definition is_digit :: "char \<Rightarrow> bool" where
  "is_digit c \<longleftrightarrow> (of_char (CHR ''0'') :: nat) \<le> of_char c \<and> of_char c \<le> (of_char (CHR ''9'') :: nat)"

fun atoi_from :: "uint32 \<Rightarrow> string \<Rightarrow> uint32" where
  "atoi_from n [] = n"
| "atoi_from n (c # s) = (if is_digit c then atoi_from (n * 10 + of_char c - of_char (CHR ''0'')) s else n)"

definition atoi :: "string \<Rightarrow> int" where
  "atoi s = sint (atoi_from 0 s)"

text \<open>\<^verbatim>\<open>gets\<close> reads one byte at a time; the first argument is the room that is left.\<close>

fun gets_loop :: "nat \<Rightarrow> string \<Rightarrow> string user" where
  "gets_loop 0 buf = uret buf"
| "gets_loop (Suc n) buf = ubind (sys (CRead 0 1)) (\<lambda>(cc, d).
     if cc < 1 then uret buf
     else let c = hd d in
       if c = CHR 0x0A \<or> c = CHR 0x0D then uret (buf @ [c]) else gets_loop n (buf @ [c]))"

definition gets :: "nat \<Rightarrow> string user" where
  "gets mx = gets_loop (mx - 1) []"

definition O_RDONLY :: nat where "O_RDONLY = 0"
definition O_WRONLY :: nat where "O_WRONLY = 1"
definition O_RDWR :: nat where "O_RDWR = 2"
definition O_CREATE :: nat where "O_CREATE = 0x200"
definition O_TRUNC :: nat where "O_TRUNC = 0x400"

definition stat :: "string \<Rightarrow> (int \<times> string) user" where
  "stat n = ubind (sys (COpen n O_RDONLY)) (\<lambda>(fd, _).
     if fd < 0 then uret (-1, [])
     else ubind (sys (CFstat fd)) (\<lambda>r. ubind (sys (CClose fd)) (\<lambda>_. uret r)))"

text \<open>\<^verbatim>\<open>start\<close>, which calls \<^verbatim>\<open>main\<close>.\<close>

definition start :: "unit user \<Rightarrow> unit user" where
  "start main = ubind main (\<lambda>_. uexit 0)"

subsection \<open>Formatted output\<close>

definition UPPER :: string where
  "UPPER = ''0123456789ABCDEF''"

text \<open>A number is passed as an \<^verbatim>\<open>int\<close>, whatever its conversion.  Its digits, at most 10, and a sign fit the buffer.\<close>

definition uprintint :: "uint64 \<Rightarrow> nat \<Rightarrow> bool \<Rightarrow> string" where
  "uprintint arg base sg =
     (let xx = ucast arg :: uint32;
          neg = (sg \<and> sint xx < 0);
          x = unat (if neg then - xx else xx)
      in rev (map ((!) UPPER) (udigits base x) @ (if neg then ''-'' else [])))"

definition uprintptr :: "uint64 \<Rightarrow> string" where
  "uprintptr x = ''0x'' @ map (\<lambda>i. UPPER ! unat (drop_bit 60 (push_bit (4 * i) x))) [0..<16]"

text \<open>The conversion after a percent sign: its text, the rest of the format and of the arguments.\<close>

definition uconvert :: "string \<Rightarrow> parg list \<Rightarrow> (string \<times> string \<times> parg list) option" where
  "uconvert fmt args =
     (let c0 = hd fmt; f1 = tl fmt; c1 = (if f1 = [] then CHR 0x00 else hd f1); f2 = tl f1;
          c2 = (if f1 = [] \<or> f2 = [] then CHR 0x00 else hd f2); f3 = tl f2; rest = tl args;
          num = (\<lambda>base sg f. emit (map_option (\<lambda>w. uprintint w base sg) (arg_num args)) f rest)
      in if c0 = CHR ''d'' then num 10 True f1
         else if c0 = CHR ''l'' \<and> c1 = CHR ''d'' then num 10 True f2
         else if c0 = CHR ''l'' \<and> c1 = CHR ''l'' \<and> c2 = CHR ''d'' then num 10 True f3
         else if c0 = CHR ''u'' then num 10 False f1
         else if c0 = CHR ''l'' \<and> c1 = CHR ''u'' then num 10 False f2
         else if c0 = CHR ''l'' \<and> c1 = CHR ''l'' \<and> c2 = CHR ''u'' then num 10 False f3
         else if c0 = CHR ''x'' then num 16 False f1
         else if c0 = CHR ''l'' \<and> c1 = CHR ''x'' then num 16 False f2
         else if c0 = CHR ''l'' \<and> c1 = CHR ''l'' \<and> c2 = CHR ''x'' then num 16 False f3
         else if c0 = CHR ''p'' then emit (map_option uprintptr (arg_num args)) f1 rest
         else if c0 = CHR ''s'' then emit (arg_str args) f1 rest
         else if c0 = CHR ''%'' then emit (Some ''%'') f1 args
         else emit (Some [CHR ''%'', c0]) f1 args)"

lemma uconvert_shorter [termination_simp]:
  "uconvert fmt args = Some (t, fmt', args') \<Longrightarrow> fmt \<noteq> [] \<Longrightarrow> length fmt' < length fmt"
  by (auto simp: uconvert_def emit_def Let_def neq_Nil_conv split: if_splits)

function vformat :: "string \<Rightarrow> parg list \<Rightarrow> string option" where
  "vformat fmt args =
     (case fmt of
        [] \<Rightarrow> Some []
      | c # f \<Rightarrow>
          if c \<noteq> CHR ''%'' then map_option ((#) c) (vformat f args)
          else if f = [] then Some []
          else (case uconvert f args of
              None \<Rightarrow> None
            | Some (t, f', args') \<Rightarrow> map_option ((@) t) (vformat f' args')))"
  by pat_completeness auto
termination
  by (relation "measure (length \<circ> fst)") (auto dest: uconvert_shorter)

declare vformat.simps [simp del]

definition putc :: "int \<Rightarrow> char \<Rightarrow> unit user" where
  "putc fd c = ubind (sys (CWrite fd [c])) (\<lambda>_. uret ())"

definition fprintf :: "int \<Rightarrow> string \<Rightarrow> parg list \<Rightarrow> unit user" where
  "fprintf fd fmt args = (case vformat fmt args of None \<Rightarrow> ufault | Some t \<Rightarrow> uforeach t (putc fd))"

definition uprintf :: "string \<Rightarrow> parg list \<Rightarrow> unit user" where
  "uprintf fmt args = fprintf 1 fmt args"

abbreviation (input) AS :: "string \<Rightarrow> parg" where "AS s \<equiv> AStr (Some s)"
abbreviation (input) AI :: "uint32 \<Rightarrow> parg" where "AI w \<equiv> ANum (scast w)"

subsection \<open>Facts\<close>

lemma strcmp_refl [simp]: "strcmp s s = 0"
  by (induction s) simp_all

lemma of_char_zero: "(of_char c :: nat) = 0 \<longleftrightarrow> c = CHR 0x00"
  using of_char_eq_iff [of c "CHR 0x00", where 'a = nat] by simp

lemma strcmp_zero: "CHR 0x00 \<notin> set p \<Longrightarrow> CHR 0x00 \<notin> set q \<Longrightarrow> strcmp p q = 0 \<longleftrightarrow> p = q"
proof (induction p q rule: strcmp.induct)
  case (1 a p b q)
  have "(of_char a :: nat) = of_char b \<longleftrightarrow> a = b" by (simp add: of_char_eq_iff)
  with 1 show ?case by auto
qed (auto simp: of_char_zero)

lemma uforeach_putc: "uforeach t (putc fd) k h = Back () (h @ map (\<lambda>c. CWrite fd [c]) t)"
  by (induction t arbitrary: h) (simp_all add: putc_def ubind_apply)

lemma output_chars [simp]: "written fd (map (\<lambda>c. CWrite d [c]) t) = (if d = fd then t else [])"
  by (induction t) auto

lemma fprintf_apply: "vformat fmt args = Some t \<Longrightarrow> fprintf fd fmt args k h = Back () (h @ map (\<lambda>c. CWrite fd [c]) t)"
  by (simp add: fprintf_def uforeach_putc)

subsection \<open>Reading a file\<close>

text \<open>
  What a program relies on when it reads a descriptor to its end: \<open>rest\<close> is what is still to be read after the
  calls so far; a read returns some of it, at most as much as was asked for, and nothing only at the end;
  other calls do not touch it.
\<close>

definition serves :: "kernel \<Rightarrow> int \<Rightarrow> (call list \<Rightarrow> string) \<Rightarrow> bool" where
  "serves k fd rest \<longleftrightarrow>
     (\<forall>h n. fst (k h (CRead fd n)) = int (length (snd (k h (CRead fd n)))) \<and> length (snd (k h (CRead fd n))) \<le> n \<and>
        rest h = snd (k h (CRead fd n)) @ rest (h @ [CRead fd n]) \<and> (0 < n \<longrightarrow> snd (k h (CRead fd n)) = [] \<longrightarrow> rest h = [])) \<and>
     (\<forall>h c. (\<forall>n. c \<noteq> CRead fd n) \<longrightarrow> rest (h @ [c]) = rest h)"

lemma serves_read:
  assumes "serves k fd rest"
  obtains d where "k h (CRead fd n) = (int (length d), d)" "length d \<le> n" "rest h = d @ rest (h @ [CRead fd n])"
    "0 < n \<Longrightarrow> d = [] \<Longrightarrow> rest h = []"
  using assms unfolding serves_def by (metis prod.collapse)

lemma serves_other: "serves k fd rest \<Longrightarrow> (\<And>c n. c \<in> set cs \<Longrightarrow> c \<noteq> CRead fd n) \<Longrightarrow> rest (h @ cs) = rest h"
proof (induction cs rule: rev_induct)
  case (snoc c cs)
  have "\<forall>n. c \<noteq> CRead fd n" using snoc.prems(2) by simp
  then have "rest ((h @ cs) @ [c]) = rest (h @ cs)" using snoc.prems(1) unfolding serves_def by blast
  with snoc show ?case by simp
qed simp

text \<open>A kernel that gives at most \<open>sz\<close> bytes at a time of the file open as \<open>fd\<close>, and accepts all else.\<close>

definition left_of :: "int \<Rightarrow> nat \<Rightarrow> string \<Rightarrow> call list \<Rightarrow> string" where
  "left_of fd sz content h =
     foldl (\<lambda>t c. case c of CRead d n \<Rightarrow> if d = fd then drop (min n sz) t else t | _ \<Rightarrow> t) content h"

definition file_kernel :: "int \<Rightarrow> nat \<Rightarrow> string \<Rightarrow> kernel" where
  "file_kernel fd sz content h c = (case c of
     CRead d n \<Rightarrow> if d = fd then (let bs = take (min n sz) (left_of fd sz content h) in (int (length bs), bs)) else (0, [])
   | CWrite d s \<Rightarrow> (int (length s), [])
   | _ \<Rightarrow> (0, []))"

lemma file_kernel_serves: "0 < sz \<Longrightarrow> serves (file_kernel fd sz content) fd (left_of fd sz content)"
  unfolding serves_def file_kernel_def
  by (auto simp: Let_def left_of_def min_def split: call.splits)

end
