(* ===== verification/Grep.thy ===== *)
theory Grep
  imports User
begin

text \<open>
  \<^verbatim>\<open>user/grep.c\<close>: the pattern matcher against the language of a pattern, and the loop that cuts its input
  into lines.
\<close>

subsection \<open>The program\<close>

function (sequential) matchhere :: "string \<Rightarrow> string \<Rightarrow> bool"
  and matchstar :: "char \<Rightarrow> string \<Rightarrow> string \<Rightarrow> bool" where
  "matchhere [] tx = True"
| "matchhere (c # re) tx =
     (if re \<noteq> [] \<and> hd re = CHR ''*'' then matchstar c (tl re) tx
      else if c = CHR ''$'' \<and> re = [] then tx = []
      else case tx of
        [] \<Rightarrow> False
      | t # ts \<Rightarrow> if c = CHR ''.'' \<or> c = t then matchhere re ts else False)"
| "matchstar c re tx =
     (if matchhere re tx then True
      else case tx of
        [] \<Rightarrow> False
      | t # ts \<Rightarrow> if t = c \<or> c = CHR ''.'' then matchstar c re ts else False)"
  by pat_completeness auto
termination
  by (relation "measure (\<lambda>x. case x of Inl (re, t) \<Rightarrow> 2 * (length re + length t) | Inr (c, re, t) \<Rightarrow> Suc (2 * (length re + length t)))")
    (auto simp: neq_Nil_conv)

declare matchhere.simps(2) [simp del] matchstar.simps [simp del]

fun match_from :: "string \<Rightarrow> string \<Rightarrow> bool" where
  "match_from re [] = matchhere re []"
| "match_from re (t # ts) = (if matchhere re (t # ts) then True else match_from re ts)"

definition match :: "string \<Rightarrow> string \<Rightarrow> bool" where
  "match re tx = (case re of
     [] \<Rightarrow> match_from re tx
   | c # r \<Rightarrow> if c = CHR ''^'' then matchhere r tx else match_from re tx)"

lemma strchr_Some: "strchr s c = Some q \<Longrightarrow> q < length s \<and> s ! q = c \<and> c \<notin> set (take q s)"
  by (induction s arbitrary: q) (auto split: if_splits)

text \<open>The text from \<open>p\<close> on; the rest after the last newline is what the function leaves.\<close>

function grep_lines :: "string \<Rightarrow> string \<Rightarrow> string user" where
  "grep_lines pat p = (case strchr p (CHR 0x0A) of
     None \<Rightarrow> uret p
   | Some q \<Rightarrow>
       ubind (if match pat (take q p) then ubind (sys (CWrite 1 (take (Suc q) p))) (\<lambda>_. uret ()) else uret ())
         (\<lambda>_. grep_lines pat (drop (Suc q) p)))"
  by pat_completeness auto
termination
  by (relation "measure (length \<circ> snd)") (auto dest: strchr_Some)

declare grep_lines.simps [simp del]

text \<open>\<open>b\<close> is the part of the buffer in use, of \<^verbatim>\<open>m\<close> bytes; the first argument bounds the number of reads.\<close>

fun grep_loop :: "nat \<Rightarrow> string \<Rightarrow> int \<Rightarrow> string \<Rightarrow> unit user" where
  "grep_loop 0 pat fd b = uspin"
| "grep_loop (Suc n) pat fd b = ubind (sys (CRead fd (1024 - length b - 1))) (\<lambda>(r, d).
     if r \<le> 0 then uret ()
     else ubind (grep_lines pat (b @ take (nat r) d)) (grep_loop n pat fd))"

definition grep :: "nat \<Rightarrow> string \<Rightarrow> int \<Rightarrow> unit user" where
  "grep n pat fd = grep_loop n pat fd []"

definition grep_main :: "nat \<Rightarrow> string list \<Rightarrow> unit user" where
  "grep_main n argv =
     (if length argv \<le> 1 then ubind (fprintf 2 (''usage: grep pattern [file ...]'' @ [CHR 0x0A]) []) (\<lambda>_. uexit 1)
      else if length argv \<le> 2 then ubind (grep n (argv ! 1) 0) (\<lambda>_. uexit 0)
      else ubind (uforeach (drop 2 argv) (\<lambda>f.
          ubind (sys (COpen f O_RDONLY)) (\<lambda>(fd, _).
          if fd < 0 then ubind (uprintf (''grep: cannot open %s'' @ [CHR 0x0A]) [AS f]) (\<lambda>_. uexit 1)
          else ubind (grep n (argv ! 1) fd) (\<lambda>_. ubind (sys (CClose fd)) (\<lambda>_. uret ())))))
        (\<lambda>_. uexit 0))"

subsection \<open>Patterns\<close>

datatype atom = Lit char | Any
datatype item = One atom | Star atom

fun sat :: "atom \<Rightarrow> char \<Rightarrow> bool" where
  "sat (Lit c) t = (t = c)"
| "sat Any t = True"

definition atom_of :: "char \<Rightarrow> atom" where
  "atom_of c = (if c = CHR ''.'' then Any else Lit c)"

text \<open>The items of a pattern, and whether it ends in a dollar sign that stands for the end of the text.\<close>

fun parse :: "string \<Rightarrow> item list \<times> bool" where
  "parse [] = ([], False)"
| "parse [c] = (if c = CHR ''$'' then ([], True) else ([One (atom_of c)], False))"
| "parse (c # d # re) = (if d = CHR ''*'' then apfst ((#) (Star (atom_of c))) (parse re)
     else apfst ((#) (One (atom_of c))) (parse (d # re)))"

fun lang :: "item list \<Rightarrow> string set" where
  "lang [] = {[]}"
| "lang (One a # is) = {t # w | t w. sat a t \<and> w \<in> lang is}"
| "lang (Star a # is) = {u @ w | u w. list_all (sat a) u \<and> w \<in> lang is}"

definition matches_at :: "item list \<times> bool \<Rightarrow> string \<Rightarrow> bool" where
  "matches_at p tx \<longleftrightarrow> (\<exists>mid post. tx = mid @ post \<and> mid \<in> lang (fst p) \<and> (snd p \<longrightarrow> post = []))"

lemma sat_atom_of: "sat (atom_of c) t \<longleftrightarrow> c = CHR ''.'' \<or> c = t"
  by (auto simp: atom_of_def)

lemma matches_atI: "mid \<in> lang is \<Longrightarrow> (e \<Longrightarrow> post = []) \<Longrightarrow> matches_at (is, e) (mid @ post)"
  unfolding matches_at_def by (rule exI [of _ mid], rule exI [of _ post]) auto

lemma matches_atE:
  assumes "matches_at (is, e) tx"
  obtains mid post where "tx = mid @ post" "mid \<in> lang is" "e \<longrightarrow> post = []"
  using assms unfolding matches_at_def by auto

lemma matches_at_Nil: "matches_at ([], e) tx \<longleftrightarrow> (e \<longrightarrow> tx = [])"
  by (auto simp: matches_at_def)

lemma matches_at_One: "matches_at (One a # is, e) tx \<longleftrightarrow> (\<exists>t ts. tx = t # ts \<and> sat a t \<and> matches_at (is, e) ts)"
proof
  assume "matches_at (One a # is, e) tx"
  then obtain mid post where m: "tx = mid @ post" "mid \<in> lang (One a # is)" "e \<longrightarrow> post = []" by (rule matches_atE)
  then obtain t w where t: "mid = t # w" "sat a t" "w \<in> lang is" by auto
  from t(3) m(3) have "matches_at (is, e) (w @ post)" by (intro matches_atI) simp_all
  with m t show "\<exists>t ts. tx = t # ts \<and> sat a t \<and> matches_at (is, e) ts" by simp
next
  assume "\<exists>t ts. tx = t # ts \<and> sat a t \<and> matches_at (is, e) ts"
  then obtain t ts where t: "tx = t # ts" "sat a t" "matches_at (is, e) ts" by blast
  from t(3) obtain w post where "ts = w @ post" "w \<in> lang is" "e \<longrightarrow> post = []" by (rule matches_atE)
  with t show "matches_at (One a # is, e) tx" using matches_atI [of "t # w" "One a # is" e post] by auto
qed

lemma matches_at_Star:
  "matches_at (Star a # is, e) tx \<longleftrightarrow> matches_at (is, e) tx \<or> (\<exists>t ts. tx = t # ts \<and> sat a t \<and> matches_at (Star a # is, e) ts)"
    (is "?l \<longleftrightarrow> ?r1 \<or> ?r2")
proof -
  have star: "u @ w \<in> lang (Star a # is)" if "list_all (sat a) u" "w \<in> lang is" for u w using that by auto
  have "?r1 \<or> ?r2" if ?l
  proof -
    from that obtain mid post where m: "tx = mid @ post" "mid \<in> lang (Star a # is)" "e \<longrightarrow> post = []" by (rule matches_atE)
    then obtain u w where u: "tx = u @ w @ post" "list_all (sat a) u" "w \<in> lang is" "e \<longrightarrow> post = []" by auto
    show ?thesis
    proof (cases u)
      case Nil
      then show ?thesis using u matches_atI [of w "is" e post] by simp
    next
      case (Cons t us)
      then have "matches_at (Star a # is, e) ((us @ w) @ post)" using u star [of us w] by (intro matches_atI) simp_all
      then show ?thesis using Cons u by auto
    qed
  qed
  moreover have ?l if ?r1
  proof -
    from that obtain w post where w: "tx = w @ post" "w \<in> lang is" "e \<longrightarrow> post = []" by (rule matches_atE)
    show ?thesis unfolding w(1) using w(3) star [of "[]" w] w(2) by (intro matches_atI) simp_all
  qed
  moreover have ?l if ?r2
  proof -
    from that obtain t ts where t: "tx = t # ts" "sat a t" "matches_at (Star a # is, e) ts" by blast
    from t(3) obtain mid post where m: "ts = mid @ post" "mid \<in> lang (Star a # is)" "e \<longrightarrow> post = []" by (rule matches_atE)
    then obtain u w where "mid = u @ w" "list_all (sat a) u" "w \<in> lang is" by auto
    with t m have w: "tx = ((t # u) @ w) @ post" "list_all (sat a) (t # u)" "w \<in> lang is" "e \<longrightarrow> post = []" by auto
    show ?thesis unfolding w(1) using w(4) star [of "t # u" w] w(2,3) by (intro matches_atI) simp_all
  qed
  ultimately show ?thesis by blast
qed

lemma matchhere_iff:
  "matchhere re tx \<longleftrightarrow> matches_at (parse re) tx"
  "matchstar c re tx \<longleftrightarrow> matches_at (Star (atom_of c) # fst (parse re), snd (parse re)) tx"
proof (induction re tx and c re tx rule: matchhere_matchstar.induct)
  case (1 tx)
  then show ?case by (simp add: matches_at_def)
next
  case (2 c re tx)
  show ?case
  proof (cases re)
    case Nil
    with 2 show ?thesis by (auto simp: matchhere.simps matches_at_Nil matches_at_One sat_atom_of split: list.splits)
  next
    case (Cons d re')
    with 2 show ?thesis
      by (auto simp: matchhere.simps(2) [of c "d # re'" tx] matches_at_One sat_atom_of apfst_def map_prod_def split: list.splits prod.splits)
  qed
next
  case (3 c re tx)
  show ?case
    unfolding matchstar.simps [of c re tx] matches_at_Star [of "atom_of c" "fst (parse re)" _ tx]
    using 3 by (auto simp: sat_atom_of split: list.splits)
qed

lemma match_from_iff: "match_from re tx \<longleftrightarrow> (\<exists>pre rest. tx = pre @ rest \<and> matchhere re rest)"
proof (induction tx)
  case (Cons t ts)
  then show ?case by (auto simp: Cons_eq_append_conv)
qed simp

text \<open>
  C30: A text matches a pattern exactly when a part of it is in the language of the pattern: the pattern's
  characters in order, a dot for any character, a star for any number of the character before it; a
  caret in front binds the part to the beginning of the text and a dollar sign at the end to its end.
\<close>

theorem match_is_language:
  "match re tx \<longleftrightarrow>
     (let anchored = (re \<noteq> [] \<and> hd re = CHR ''^''); (items, to_end) = parse (if anchored then tl re else re)
      in \<exists>pre mid post. tx = pre @ mid @ post \<and> mid \<in> lang items \<and> (anchored \<longrightarrow> pre = []) \<and> (to_end \<longrightarrow> post = []))"
proof (cases "re \<noteq> [] \<and> hd re = CHR ''^''")
  case True
  obtain items e where p: "parse (tl re) = (items, e)" by fastforce
  have "match re tx \<longleftrightarrow> matches_at (items, e) tx" using True p by (auto simp: match_def neq_Nil_conv matchhere_iff)
  then show ?thesis using True p by (simp add: matches_at_def)
next
  case False
  obtain items e where p: "parse re = (items, e)" by fastforce
  have "match re tx \<longleftrightarrow> match_from re tx" using False by (auto simp: match_def split: list.splits)
  then have "match re tx \<longleftrightarrow> (\<exists>pre rest. tx = pre @ rest \<and> matches_at (items, e) rest)"
    using p by (simp add: match_from_iff matchhere_iff)
  moreover have "(re \<noteq> [] \<and> hd re = CHR ''^'') = False" using False by simp
  ultimately show ?thesis using p unfolding Let_def matches_at_def by simp blast
qed

theorem match_is_language_witness:
  "\<exists>pre mid post. ''xabbcy'' = pre @ mid @ post \<and> mid \<in> lang [One (Lit CHR ''a''), Star (Lit CHR ''b''), One (Lit CHR ''c'')]"
proof -
  have m: "match ''ab*c'' ''xabbcy''" by code_simp
  have p: "parse ''ab*c'' = ([One (Lit CHR ''a''), Star (Lit CHR ''b''), One (Lit CHR ''c'')], False)" by (simp add: atom_of_def)
  have c: "hd ''ab*c'' \<noteq> CHR ''^''" by simp
  from match_is_language [of "''ab*c''" "''xabbcy''"] m show ?thesis unfolding Let_def by (simp add: p atom_of_def)
qed

subsection \<open>Lines\<close>

text \<open>The pieces of a text between newlines, the last one not terminated.\<close>

fun pieces :: "string \<Rightarrow> string list" where
  "pieces [] = [[]]"
| "pieces (c # s) = (if c = CHR 0x0A then [] # pieces s else (c # hd (pieces s)) # tl (pieces s))"

lemma pieces_ne [simp]: "pieces s \<noteq> []"
  by (induction s) auto

lemma pieces_plain: "CHR 0x0A \<notin> set s \<Longrightarrow> pieces s = [s]"
  by (induction s) auto

lemma pieces_line: "CHR 0x0A \<notin> set l \<Longrightarrow> pieces (l @ CHR 0x0A # s) = l # pieces s"
  by (induction l) auto

lemma pieces_append: "pieces (a @ b) = butlast (pieces a) @ pieces (last (pieces a) @ b)"
proof (induction a)
  case (Cons c a)
  then show ?case by (cases "pieces a") auto
qed simp

lemma last_pieces: "CHR 0x0A \<notin> set (last (pieces s))"
proof (induction s)
  case (Cons c s)
  then show ?case by (cases "pieces s") auto
qed simp

lemma set_pieces: "l \<in> set (pieces s) \<Longrightarrow> set l \<subseteq> set s"
proof (induction s arbitrary: l)
  case (Cons c s)
  then show ?case by (cases "pieces s") (fastforce split: if_splits)+
qed simp

lemma plain_prefix: "CHR 0x0A \<notin> set a \<Longrightarrow> length a \<le> length (hd (pieces (a @ b)))"
  by (induction a) auto

lemma strchr_None: "CHR 0x00 \<notin> set s \<Longrightarrow> strchr s c = None \<longleftrightarrow> c \<notin> set s"
  by (induction s) auto

lemma grep_lines_pieces:
  "CHR 0x00 \<notin> set p \<Longrightarrow> grep_lines pat p k h =
     Back (last (pieces p)) (h @ map (\<lambda>l. CWrite 1 (l @ [CHR 0x0A])) (filter (match pat) (butlast (pieces p))))"
proof (induction pat p arbitrary: h rule: grep_lines.induct)
  case (1 pat p)
  show ?case
  proof (cases "strchr p (CHR 0x0A)")
    case None
    then have "CHR 0x0A \<notin> set p" using 1(2) strchr_None by blast
    with None show ?thesis by (simp add: grep_lines.simps [of pat p] pieces_plain)
  next
    case (Some q)
    note q = strchr_Some [OF Some]
    have p: "p = take q p @ CHR 0x0A # drop (Suc q) p" using q id_take_nth_drop [of q p] by simp
    have ps: "pieces p = take q p # pieces (drop (Suc q) p)" using pieces_line [of "take q p" "drop (Suc q) p"] q p by simp
    have t: "take (Suc q) p = take q p @ [CHR 0x0A]" using q by (simp add: take_Suc_conv_app_nth)
    have z: "CHR 0x00 \<notin> set (drop (Suc q) p)" using 1(2) by (meson in_set_dropD)
    show ?thesis using 1(1) [OF Some z] Some
      by (simp add: grep_lines.simps [of pat p] ps t ubind_apply)
  qed
qed

definition matching :: "string \<Rightarrow> string \<Rightarrow> string" where
  "matching pat content = concat (map (\<lambda>l. l @ [CHR 0x0A]) (filter (match pat) (butlast (pieces content))))"

lemma matching_append: "matching pat (a @ b) = matching pat a @ matching pat (last (pieces a) @ b)"
  by (simp add: matching_def pieces_append [of a b] butlast_append)

lemma written_lines: "written 1 (map (\<lambda>l. CWrite 1 (l @ [c])) ls) = concat (map (\<lambda>l. l @ [c]) ls)"
  by (induction ls) auto

lemma grep_loop_matching:
  assumes "serves k fd rest" "CHR 0x00 \<notin> set (b @ rest h)" "\<forall>l \<in> set (pieces (b @ rest h)). length l < 1023"
    "CHR 0x0A \<notin> set b" "length (rest h) < n"
  shows "\<exists>h'. grep_loop n pat fd b k h = Back () h' \<and> written 1 h' = written 1 h @ matching pat (b @ rest h)"
  using assms(2-5)
proof (induction n arbitrary: b h)
  case (Suc n)
  obtain d where d: "k h (CRead fd (1024 - length b - 1)) = (int (length d), d)"
    "rest h = d @ rest (h @ [CRead fd (1024 - length b - 1)])" "0 < 1024 - length b - 1 \<Longrightarrow> d = [] \<Longrightarrow> rest h = []"
    using serves_read [OF assms(1)] by metis
  have "length b < 1023" using plain_prefix [OF Suc.prems(3), of "rest h"] Suc.prems(2) list.set_sel(1) [OF pieces_ne]
    by (meson le_less_trans)
  show ?case
  proof (cases "d = []")
    case True
    then have "rest h = []" using d(3) \<open>length b < 1023\<close> by simp
    then show ?thesis using True d(1) Suc.prems(3) by (simp add: ubind_apply matching_def pieces_plain)
  next
    case False
    define h1 where "h1 = h @ [CRead fd (1024 - length b - 1)]"
    define h2 where "h2 = h1 @ map (\<lambda>l. CWrite 1 (l @ [CHR 0x0A])) (filter (match pat) (butlast (pieces (b @ d))))"
    define b' where "b' = last (pieces (b @ d))"
    have r: "rest h2 = rest h1" unfolding h2_def by (rule serves_other [OF assms(1)]) auto
    have all: "b @ rest h = (b @ d) @ rest h1" using d(2) by (simp add: h1_def)
    have zero: "CHR 0x00 \<notin> set (b @ d)" using Suc.prems(1) all by auto
    have ps: "pieces (b @ rest h) = butlast (pieces (b @ d)) @ pieces (b' @ rest h2)"
      unfolding all b'_def r by (rule pieces_append)
    have run: "grep_loop (Suc n) pat fd b k h = grep_loop n pat fd b' k h2"
      using False d(1) by (simp add: ubind_apply grep_lines_pieces [OF zero] h1_def h2_def b'_def)
    have "set b' \<subseteq> set (b @ d)" unfolding b'_def by (rule set_pieces) simp
    then have "CHR 0x00 \<notin> set (b' @ rest h2)" using zero Suc.prems(1) r all by auto
    moreover have "\<forall>l \<in> set (pieces (b' @ rest h2)). length l < 1023" using Suc.prems(2) ps by simp
    moreover have "length (rest h2) < n" using Suc.prems(4) all r False by (cases d) simp_all
    ultimately obtain h' where h': "grep_loop n pat fd b' k h2 = Back () h'" "written 1 h' = written 1 h2 @ matching pat (b' @ rest h2)"
      using Suc.IH [of b' h2] last_pieces [of "b @ d"] unfolding b'_def by blast
    moreover have "matching pat (b @ rest h) = matching pat (b @ d) @ matching pat (b' @ rest h2)"
      unfolding all b'_def r by (rule matching_append)
    moreover have "written 1 h2 = written 1 h @ matching pat (b @ d)" by (simp add: h2_def h1_def written_lines matching_def)
    ultimately show ?thesis using run by auto
  qed
qed simp



end
