(* ===== verification/Wc.thy ===== *)
theory Wc
  imports User
begin

text \<open>
  \<^verbatim>\<open>user/wc.c\<close>: counting lines, words, characters and bytes.  The counters are \<^verbatim>\<open>int\<close>s; characters are counted as
  bytes less the continuation bytes of UTF-8.
\<close>

record wcount =
  w_l :: uint32
  w_w :: uint32
  w_c :: uint32
  w_m :: uint32
  inword :: bool

definition cont_byte :: "char \<Rightarrow> bool" where
  "cont_byte cur \<longleftrightarrow> (of_nat (of_char cur) :: uint8) AND 0xC0 = 0x80"

definition space_byte :: "char \<Rightarrow> bool" where
  "space_byte cur \<longleftrightarrow> ((of_char (CHR 0x09) :: nat) \<le> of_char cur \<and> of_char cur \<le> (of_char (CHR 0x0D) :: nat)) \<or> cur = CHR '' ''"

definition wc_byte :: "char \<Rightarrow> wcount \<Rightarrow> wcount" where
  "wc_byte cur s =
     (if cont_byte cur then s\<lparr>w_m := w_m s + 1\<rparr>
      else if space_byte cur then s\<lparr>w_l := (if cur = CHR 0x0A then w_l s + 1 else w_l s), inword := False\<rparr>
      else if \<not> inword s then s\<lparr>w_w := w_w s + 1, inword := True\<rparr>
      else s)"

definition NUMBER_OF_BYTES :: nat where "NUMBER_OF_BYTES = 1"
definition NUMBER_OF_WORDS :: nat where "NUMBER_OF_WORDS = 2"
definition NUMBER_OF_CHARS :: nat where "NUMBER_OF_CHARS = 4"
definition NUMBER_OF_LINES :: nat where "NUMBER_OF_LINES = 8"

definition DEFAULT_OUTPUTS :: nat where
  "DEFAULT_OUTPUTS = NUMBER_OF_BYTES OR NUMBER_OF_WORDS OR NUMBER_OF_LINES"

abbreviation (input) NL :: char where "NL \<equiv> CHR 0x0A"

definition write_output :: "string \<Rightarrow> nat \<Rightarrow> uint32 \<Rightarrow> uint32 \<Rightarrow> uint32 \<Rightarrow> uint32 \<Rightarrow> unit user" where
  "write_output name format l w c m =
     ubind (if format AND NUMBER_OF_LINES \<noteq> 0 then uprintf ''%d '' [AI l] else uret ()) (\<lambda>_.
     ubind (if format AND NUMBER_OF_WORDS \<noteq> 0 then uprintf ''%d '' [AI w] else uret ()) (\<lambda>_.
     ubind (if format AND NUMBER_OF_CHARS \<noteq> 0 then uprintf ''%d '' [AI (c - m)] else uret ()) (\<lambda>_.
     ubind (if format AND NUMBER_OF_BYTES \<noteq> 0 then uprintf ''%d '' [AI c] else uret ()) (\<lambda>_.
     uprintf (''%s'' @ [NL]) [AS name]))))"

text \<open>The result of the last read and the counts; the first argument bounds the number of reads.\<close>

fun wc_loop :: "nat \<Rightarrow> int \<Rightarrow> wcount \<Rightarrow> (int \<times> wcount) user" where
  "wc_loop 0 fd s = uspin"
| "wc_loop (Suc k) fd s = ubind (sys (CRead fd 512)) (\<lambda>(n, d).
     if n > 0 then wc_loop k fd (fold wc_byte (take (nat n) d) (s\<lparr>w_c := w_c s + word_of_int n\<rparr>))
     else uret (n, s))"

type_synonym totals = "uint32 \<times> uint32 \<times> uint32 \<times> uint32"

definition wc :: "nat \<Rightarrow> int \<Rightarrow> string \<Rightarrow> nat \<Rightarrow> totals \<Rightarrow> totals user" where
  "wc k fd name format tot = ubind (wc_loop k fd \<lparr>w_l = 0, w_w = 0, w_c = 0, w_m = 0, inword = False\<rparr>) (\<lambda>(n, s).
     if n < 0 then ubind (uprintf (''wc: read error'' @ [NL]) []) (\<lambda>_. uret tot)
     else ubind (write_output name format (w_l s) (w_w s) (w_c s) (w_m s)) (\<lambda>_.
       case tot of (l, w, c, m) \<Rightarrow> uret (l + w_l s, w + w_w s, c + w_c s, m + w_m s)))"

text \<open>The letters of one option argument, added to the outputs selected so far.\<close>

fun wc_letters :: "string \<Rightarrow> nat \<Rightarrow> nat user" where
  "wc_letters [] out = uret out"
| "wc_letters (c # cs) out =
     (if c = CHR ''c'' then wc_letters cs (out OR NUMBER_OF_BYTES)
      else if c = CHR ''w'' then wc_letters cs (out OR NUMBER_OF_WORDS)
      else if c = CHR ''l'' then wc_letters cs (out OR NUMBER_OF_LINES)
      else if c = CHR ''m'' then wc_letters cs (out OR NUMBER_OF_CHARS)
      else ubind (uprintf (''wc: invalid option -- '' @ [CHR 0x27] @ ''%c'' @ [CHR 0x27, NL]) [ANum (of_char c)]) (\<lambda>_. uexit 1))"

fun parse_args :: "string list \<Rightarrow> string list \<Rightarrow> nat \<Rightarrow> (string list \<times> nat) user" where
  "parse_args [] items out = uret (items, out)"
| "parse_args (a # as) items out =
     (if a \<noteq> [] \<and> hd a = CHR ''-'' then
        if tl a \<noteq> [] \<and> hd (tl a) = CHR ''-'' then
          ubind (uprintf (''wc: unrecognized option '' @ [CHR 0x27] @ ''%s'' @ [CHR 0x27, NL]) [AS a]) (\<lambda>_. uexit 1)
        else ubind (wc_letters (tl a) out) (\<lambda>out'.
          if length a > 1 then parse_args as items out' else parse_args as (items @ [a]) out')
      else parse_args as (items @ [a]) out)"

fun wc_files :: "nat \<Rightarrow> string list \<Rightarrow> nat \<Rightarrow> totals \<Rightarrow> totals user" where
  "wc_files k [] out tot = uret tot"
| "wc_files k (f # fs) out tot =
     ubind (if f = ''-'' \<or> f = [] then uret 0
       else ubind (sys (COpen f O_RDONLY)) (\<lambda>(fd, _).
         if fd < 0 then ubind (uprintf (''wc: cannot open %s'' @ [NL]) [AS f]) (\<lambda>_. uret fd) else uret fd)) (\<lambda>fd.
     if fd \<ge> 0 then ubind (wc k fd f out tot) (\<lambda>tot'.
       ubind (if fd > 2 then ubind (sys (CClose fd)) (\<lambda>_. uret ()) else uret ()) (\<lambda>_. wc_files k fs out tot'))
     else wc_files k fs out tot)"

definition wc_main :: "nat \<Rightarrow> string list \<Rightarrow> unit user" where
  "wc_main k argv = ubind (parse_args (tl argv) [] 0) (\<lambda>(items, out).
     let out' = (if out = 0 then DEFAULT_OUTPUTS else out);
         items' = (if items = [] then [[]] else items)
     in ubind (wc_files k items' out' (0, 0, 0, 0)) (\<lambda>(l, w, c, m).
       ubind (if length items' > 1 then write_output ''total'' out' l w c m else uret ()) (\<lambda>_. uexit 0)))"

subsection \<open>What is counted\<close>

text \<open>The words of a text: what remains between white space, leaving out the continuation bytes.\<close>

fun fields :: "string \<Rightarrow> string list" where
  "fields [] = [[]]"
| "fields (c # s) = (if space_byte c then [] # fields s else (c # hd (fields s)) # tl (fields s))"

definition words :: "string \<Rightarrow> nat" where
  "words s = length (filter (\<lambda>w. w \<noteq> []) (fields (filter (\<lambda>c. \<not> cont_byte c) s)))"

definition continuations :: "string \<Rightarrow> nat" where
  "continuations s = length (filter cont_byte s)"

lemma fields_ne [simp]: "fields s \<noteq> []"
  by (induction s) auto

lemma space_not_cont: "space_byte c \<Longrightarrow> \<not> cont_byte c"
proof -
  assume "space_byte c"
  then have "(of_char c :: nat) \<in> {9, 10, 11, 12, 13, 32}" by (auto simp: space_byte_def)
  then show ?thesis unfolding cont_byte_def by (elim insertE) simp_all
qed

lemma space_NL: "space_byte NL"
  by (simp add: space_byte_def)

lemma fold_wc_byte:
  "w_l (fold wc_byte s a) = w_l a + of_nat (count_list s NL)"
  "w_m (fold wc_byte s a) = w_m a + of_nat (continuations s)"
  "w_c (fold wc_byte s a) = w_c a"
proof (induction s arbitrary: a)
  case (Cons c s)
  have "\<not> cont_byte NL" using space_not_cont [OF space_NL] .
  { case 1 then show ?case using Cons \<open>\<not> cont_byte NL\<close> space_NL by (simp add: wc_byte_def) }
  { case 2 then show ?case using Cons by (simp add: wc_byte_def continuations_def) }
  { case 3 then show ?case using Cons by (simp add: wc_byte_def) }
qed (simp_all add: continuations_def)

definition begun :: "bool \<Rightarrow> string \<Rightarrow> nat" where
  "begun b s = (if b \<and> hd (fields (filter (\<lambda>c. \<not> cont_byte c) s)) \<noteq> [] then 1 else 0)"

lemma fold_wc_words: "w_w (fold wc_byte s a) + of_nat (begun (inword a) s) = w_w a + of_nat (words s)"
proof (induction s arbitrary: a)
  case (Cons c s)
  obtain f fs where f: "fields (filter (\<lambda>c. \<not> cont_byte c) s) = f # fs" by (meson fields_ne list.exhaust)
  show ?case
  proof (cases "cont_byte c")
    case True
    then show ?thesis using Cons [of "a\<lparr>w_m := w_m a + 1\<rparr>"] by (simp add: wc_byte_def words_def begun_def)
  next
    case False
    then show ?thesis using Cons [of "wc_byte c a"] f
      by (cases "space_byte c"; cases "inword a"; cases f) (simp_all add: wc_byte_def words_def begun_def)
  qed
qed (simp add: words_def begun_def)

lemma wc_byte_c: "wc_byte c (s\<lparr>w_c := v\<rparr>) = (wc_byte c s)\<lparr>w_c := v\<rparr>"
  by (simp add: wc_byte_def)

lemma fold_wc_byte_c: "fold wc_byte d (s\<lparr>w_c := v\<rparr>) = (fold wc_byte d s)\<lparr>w_c := v\<rparr>"
  by (induction d arbitrary: s) (simp_all add: wc_byte_c)

lemma wc_loop_total:
  assumes "serves k fd rest"
  shows "length (rest h) < n \<Longrightarrow> \<exists>h'. written 1 h' = written 1 h \<and>
    wc_loop n fd s k h = Back (0, (fold wc_byte (rest h) s)\<lparr>w_c := w_c s + of_nat (length (rest h))\<rparr>) h'"
proof (induction n arbitrary: h s)
  case (Suc n)
  obtain d where d: "k h (CRead fd 512) = (int (length d), d)" "rest h = d @ rest (h @ [CRead fd 512])" "d = [] \<Longrightarrow> rest h = []"
    using serves_read [OF assms, of h 512] by (metis zero_less_numeral)
  show ?case
  proof (cases "d = []")
    case True
    then show ?thesis using d by (auto simp: ubind_apply)
  next
    case False
    let ?s = "fold wc_byte d (s\<lparr>w_c := w_c s + of_nat (length d)\<rparr>)" and ?h = "h @ [CRead fd 512]"
    have "length (rest ?h) < n" using False Suc.prems d(2) by (cases d) simp_all
    from Suc.IH [OF this, of ?s] obtain h' where h': "written 1 h' = written 1 h"
      "wc_loop n fd ?s k ?h = Back (0, (fold wc_byte (rest ?h) ?s)\<lparr>w_c := w_c ?s + of_nat (length (rest ?h))\<rparr>) h'" by auto
    moreover have "wc_loop (Suc n) fd s k h = wc_loop n fd ?s k ?h" using False d(1) by (simp add: ubind_apply)
    moreover have "(fold wc_byte (rest ?h) ?s)\<lparr>w_c := w_c ?s + of_nat (length (rest ?h))\<rparr> =
        (fold wc_byte (rest h) s)\<lparr>w_c := w_c s + of_nat (length (rest h))\<rparr>"
      unfolding d(2) by (simp add: fold_wc_byte_c add.assoc)
    ultimately show ?thesis by auto
  qed
qed simp

subsection \<open>The report\<close>

definition dec :: "uint32 \<Rightarrow> string" where
  "dec w = uprintint (scast w) 10 True"

definition report :: "string \<Rightarrow> nat \<Rightarrow> uint32 \<Rightarrow> uint32 \<Rightarrow> uint32 \<Rightarrow> uint32 \<Rightarrow> string" where
  "report name format l w c m =
     concat (map (\<lambda>(bit, n). if format AND bit \<noteq> 0 then dec n @ '' '' else [])
       [(NUMBER_OF_LINES, l), (NUMBER_OF_WORDS, w), (NUMBER_OF_CHARS, c - m), (NUMBER_OF_BYTES, c)]) @ name @ [NL]"

lemma uprintf_number: "\<exists>h'. uprintf ''%d '' [AI n] k h = Back () h' \<and> written 1 h' = written 1 h @ dec n @ '' ''"
proof -
  have "vformat ''%d '' [AI n] = Some (dec n @ '' '')"
    by (simp add: vformat.simps uconvert_def emit_def arg_num_def dec_def)
  then show ?thesis unfolding uprintf_def by (simp add: fprintf_apply)
qed

lemma uprintf_name: "\<exists>h'. uprintf (''%s'' @ [NL]) [AS name] k h = Back () h' \<and> written 1 h' = written 1 h @ name @ [NL]"
proof -
  have "vformat (''%s'' @ [NL]) [AS name] = Some (name @ [NL])"
    by (simp add: vformat.simps uconvert_def emit_def arg_str_def)
  then show ?thesis unfolding uprintf_def by (simp add: fprintf_apply)
qed

lemma number_if: "\<exists>h'. (if b then uprintf ''%d '' [AI n] else uret ()) k h = Back () h' \<and>
    written 1 h' = written 1 h @ (if b then dec n @ '' '' else [])"
  using uprintf_number [of n k h] by auto

lemma write_output_report:
  "\<exists>h'. write_output name format l w c m k h = Back () h' \<and> written 1 h' = written 1 h @ report name format l w c m"
proof -
  obtain h1 where 1: "(if format AND NUMBER_OF_LINES \<noteq> 0 then uprintf ''%d '' [AI l] else uret ()) k h = Back () h1"
    "written 1 h1 = written 1 h @ (if format AND NUMBER_OF_LINES \<noteq> 0 then dec l @ '' '' else [])" using number_if by blast
  obtain h2 where 2: "(if format AND NUMBER_OF_WORDS \<noteq> 0 then uprintf ''%d '' [AI w] else uret ()) k h1 = Back () h2"
    "written 1 h2 = written 1 h1 @ (if format AND NUMBER_OF_WORDS \<noteq> 0 then dec w @ '' '' else [])" using number_if by blast
  obtain h3 where 3: "(if format AND NUMBER_OF_CHARS \<noteq> 0 then uprintf ''%d '' [AI (c - m)] else uret ()) k h2 = Back () h3"
    "written 1 h3 = written 1 h2 @ (if format AND NUMBER_OF_CHARS \<noteq> 0 then dec (c - m) @ '' '' else [])" using number_if by blast
  obtain h4 where 4: "(if format AND NUMBER_OF_BYTES \<noteq> 0 then uprintf ''%d '' [AI c] else uret ()) k h3 = Back () h4"
    "written 1 h4 = written 1 h3 @ (if format AND NUMBER_OF_BYTES \<noteq> 0 then dec c @ '' '' else [])" using number_if by blast
  obtain h5 where 5: "uprintf (''%s'' @ [NL]) [AS name] k h4 = Back () h5" "written 1 h5 = written 1 h4 @ name @ [NL]"
    using uprintf_name by blast
  have "write_output name format l w c m k h = Back () h5"
    unfolding write_output_def ubind_apply 1(1) run.case 2(1) 3(1) 4(1) 5(1) ..
  moreover have "written 1 h5 = written 1 h @ report name format l w c m"
    unfolding 5(2) 4(2) 3(2) 2(2) 1(2) report_def by simp
  ultimately show ?thesis by blast
qed

text \<open>
  C32: Reading a file to its end, \<^verbatim>\<open>wc\<close> reports and adds to the totals its newlines, its words, its bytes and its
  characters, where words are what remains between white space, in any cut of the file into reads.
\<close>

theorem wc_counts:
  fixes h :: "call list"
  assumes "serves k fd rest" "length (rest h) < n"
  defines "l \<equiv> of_nat (count_list (rest h) NL)" and "w \<equiv> of_nat (words (rest h))" and "c \<equiv> of_nat (length (rest h))"
    and "m \<equiv> of_nat (continuations (rest h))"
  shows "\<exists>h'. wc n fd name format (tl0, tw, tc, tm) k h = Back (tl0 + l, tw + w, tc + c, tm + m) h' \<and>
    written 1 h' = written 1 h @ report name format l w c m"
proof -
  let ?z = "\<lparr>w_l = 0, w_w = 0, w_c = 0, w_m = 0, inword = False\<rparr>"
  obtain h1 where h1: "written 1 h1 = written 1 h"
    "wc_loop n fd ?z k h = Back (0, (fold wc_byte (rest h) ?z)\<lparr>w_c := w_c ?z + of_nat (length (rest h))\<rparr>) h1"
    using wc_loop_total [OF assms(1,2), of ?z] by blast
  obtain h2 where h2: "write_output name format l w c m k h1 = Back () h2" "written 1 h2 = written 1 h1 @ report name format l w c m"
    using write_output_report by blast
  have "w_w (fold wc_byte (rest h) ?z) = w" using fold_wc_words [of "rest h" ?z] by (simp add: begun_def w_def)
  then show ?thesis using h1 h2 by (simp add: wc_def ubind_apply fold_wc_byte l_def c_def m_def)
qed

theorem wc_counts_witness:
  "\<exists>h'. wc 20 3 ''f'' DEFAULT_OUTPUTS (0, 0, 0, 0) (file_kernel 3 2 (''a b'' @ [NL])) [] = Back (1, 2, 4, 0) h' \<and>
     written 1 h' = ''1 2 4 f'' @ [NL]"
proof -
  let ?f = "''a b'' @ [NL]"
  have s: "serves (file_kernel 3 2 ?f) 3 (left_of 3 2 ?f)" by (rule file_kernel_serves) simp
  have l: "left_of 3 2 ?f [] = ?f" by (simp add: left_of_def)
  have w: "words ?f = 2" "continuations ?f = 0" "count_list ?f NL = 1"
    by (simp_all add: words_def continuations_def cont_byte_def space_byte_def)
  have r: "report ''f'' DEFAULT_OUTPUTS 1 2 4 0 = ''1 2 4 f'' @ [NL]"
    by (simp add: report_def dec_def uprintint_def udigits.simps UPPER_def DEFAULT_OUTPUTS_def NUMBER_OF_BYTES_def
        NUMBER_OF_WORDS_def NUMBER_OF_LINES_def NUMBER_OF_CHARS_def)
  have "length (left_of 3 2 ?f []) < 20" unfolding l by simp
  from wc_counts [OF s this, of "''f''" DEFAULT_OUTPUTS 0 0 0 0] show ?thesis unfolding l w using r by simp
qed

end
