(* ===== verification/Echo.thy ===== *)
theory Echo
  imports User
begin

text \<open>
  \<^verbatim>\<open>user/echo.c\<close>.  The arguments are pointers into the memory of the program, so that a read past the end
  of an argument shows.
\<close>

type_synonym umem = "nat \<Rightarrow> char"

definition escape :: "char \<Rightarrow> char option" where
  "escape c =
     (if c = CHR ''b'' then Some (CHR 0x08) else if c = CHR ''n'' then Some (CHR 0x0A)
      else if c = CHR ''t'' then Some (CHR 0x09) else if c = CHR ''r'' then Some (CHR 0x0D)
      else if c = CHR ''v'' then Some (CHR 0x0B) else if c = CHR 0x5C then Some (CHR 0x5C)
      else None)"

definition write_char :: "char \<Rightarrow> unit user" where
  "write_char c = ubind (sys (CWrite 1 [c])) (\<lambda>_. uret ())"

text \<open>The first argument bounds the number of turns of the loop.\<close>

fun write_with_escape_sequences :: "nat \<Rightarrow> umem \<Rightarrow> nat \<Rightarrow> unit user" where
  "write_with_escape_sequences 0 m str = uspin"
| "write_with_escape_sequences (Suc n) m str =
     (if m str = CHR 0x00 then uret ()
      else if m str = CHR 0x5C then
        ubind (case escape (m (str + 1)) of
            Some e \<Rightarrow> write_char e
          | None \<Rightarrow> ubind (write_char (CHR 0x5C)) (\<lambda>_.
              if m (str + 1) \<noteq> CHR 0x00 then write_char (m (str + 1)) else uret ()))
          (\<lambda>_. write_with_escape_sequences n m (str + 2))
      else ubind (write_char (m str)) (\<lambda>_. write_with_escape_sequences n m (str + 1)))"

fun echo_args :: "nat \<Rightarrow> umem \<Rightarrow> nat list \<Rightarrow> unit user" where
  "echo_args n m [] = uret ()"
| "echo_args n m (a # as) = ubind (write_with_escape_sequences n m a) (\<lambda>_.
     ubind (write_char (if as \<noteq> [] then CHR '' '' else CHR 0x0A)) (\<lambda>_. echo_args n m as))"

definition echo_main :: "nat \<Rightarrow> umem \<Rightarrow> nat list \<Rightarrow> unit user" where
  "echo_main n m argv = ubind (echo_args n m (tl argv)) (\<lambda>_. uexit 0)"

subsection \<open>What is written\<close>

definition string_at :: "umem \<Rightarrow> nat \<Rightarrow> string \<Rightarrow> bool" where
  "string_at m p s \<longleftrightarrow> CHR 0x00 \<notin> set s \<and> (\<forall>i < length s. m (p + i) = s ! i) \<and> m (p + length s) = CHR 0x00"

fun unescape :: "string \<Rightarrow> string" where
  "unescape [] = []"
| "unescape [c] = [c]"
| "unescape (c # d # s) = (if c = CHR 0x5C then
     (case escape d of Some e \<Rightarrow> e # unescape s | None \<Rightarrow> c # d # unescape s) else c # unescape (d # s))"

text \<open>Whether the last character is a backslash that begins an escape sequence.\<close>

fun dangling :: "string \<Rightarrow> bool" where
  "dangling [] = False"
| "dangling [c] = (c = CHR 0x5C)"
| "dangling (c # d # s) = (if c = CHR 0x5C then dangling s else dangling (d # s))"

lemma string_at_Cons:
  "string_at m p (c # s) \<longleftrightarrow> c \<noteq> CHR 0x00 \<and> m p = c \<and> string_at m (p + 1) s"
  by (auto simp: string_at_def nth_Cons' less_Suc_eq_0_disj)

lemma write_char_apply [simp]: "write_char c k h = Back () (h @ [CWrite 1 [c]])"
  by (simp add: write_char_def ubind_apply)

lemma escape_zero [simp]: "escape (CHR 0x00) = None"
  by (simp add: escape_def)

lemma echo_run:
  "string_at m p s \<Longrightarrow> \<exists>h' t. t \<le> length s \<and> written 1 h' = written 1 h @ unescape s \<and>
     (\<forall>n. write_with_escape_sequences (n + t) m p k h =
        write_with_escape_sequences n m (if dangling s then p + length s + 1 else p + length s) k h')"
proof (induction s arbitrary: p h rule: dangling.induct)
  case 1
  then show ?case by (auto intro!: exI [of _ 0])
next
  case (2 c)
  then have c: "c \<noteq> CHR 0x00" "m p = c" "m (p + 1) = CHR 0x00" by (auto simp: string_at_def)
  then have "write_with_escape_sequences (n + 1) m p k h =
      write_with_escape_sequences n m (if dangling [c] then p + length [c] + 1 else p + length [c]) k (h @ [CWrite 1 [c]])" for n
    by (simp add: ubind_apply)
  then show ?case by (intro exI [of _ "h @ [CWrite 1 [c]]"] exI [of _ 1]) simp
next
  case (3 c d s)
  then have c: "c \<noteq> CHR 0x00" "m p = c" "d \<noteq> CHR 0x00" "m (p + 1) = d" "string_at m (p + 2) s" "string_at m (p + 1) (d # s)"
    by (auto simp: string_at_Cons)
  show ?case
  proof (cases "c = CHR 0x5C")
    case True
    define h1 where "h1 = h @ (case escape d of Some e \<Rightarrow> [CWrite 1 [e]] | None \<Rightarrow> [CWrite 1 [c], CWrite 1 [d]])"
    obtain h' t where t: "t \<le> length s" "written 1 h' = written 1 h1 @ unescape s"
      "\<And>n. write_with_escape_sequences (n + t) m (p + 2) k h1 =
        write_with_escape_sequences n m (if dangling s then p + 2 + length s + 1 else p + 2 + length s) k h'"
      using "3.IH"(1) [OF True c(5), of h1] by metis
    have "write_with_escape_sequences (n + Suc t) m p k h = write_with_escape_sequences (n + t) m (p + 2) k h1" for n
      using True c by (cases "escape d") (simp_all add: ubind_apply h1_def)
    then show ?thesis using t True
      by (intro exI [of _ h'] exI [of _ "Suc t"]) (simp add: h1_def split: option.splits)
  next
    case False
    then obtain h' t where t: "t \<le> length (d # s)" "written 1 h' = written 1 (h @ [CWrite 1 [c]]) @ unescape (d # s)"
      "\<And>n. write_with_escape_sequences (n + t) m (p + 1) k (h @ [CWrite 1 [c]]) =
        write_with_escape_sequences n m (if dangling (d # s) then p + 1 + length (d # s) + 1 else p + 1 + length (d # s)) k h'"
      using "3.IH"(2) [OF False c(6), of "h @ [CWrite 1 [c]]"] by metis
    have "write_with_escape_sequences (n + Suc t) m p k h =
        write_with_escape_sequences (n + t) m (p + 1) k (h @ [CWrite 1 [c]])" for n
      using False c by (simp add: ubind_apply)
    then show ?thesis using t False by (intro exI [of _ h'] exI [of _ "Suc t"]) simp
  qed
qed

text \<open>
  C33: \<^verbatim>\<open>echo\<close> writes an argument with its escape sequences replaced and stops at its end, unless the argument ends
  in a backslash that begins an escape sequence.  Then it steps over the terminator and goes on with
  whatever is in memory behind the argument.
\<close>

theorem echo_escapes:
  assumes "string_at m p s"
  shows "if dangling s
    then \<exists>h' t. t \<le> length s \<and> written 1 h' = written 1 h @ unescape s \<and>
      (\<forall>n. write_with_escape_sequences (n + t) m p k h = write_with_escape_sequences n m (p + length s + 1) k h')
    else \<forall>n > length s. \<exists>h'. write_with_escape_sequences n m p k h = Back () h' \<and> written 1 h' = written 1 h @ unescape s"
proof -
  obtain h' t where t: "t \<le> length s" "written 1 h' = written 1 h @ unescape s"
    "\<And>n. write_with_escape_sequences (n + t) m p k h =
      write_with_escape_sequences n m (if dangling s then p + length s + 1 else p + length s) k h'"
    using echo_run [OF assms] by metis
  show ?thesis
  proof (cases "dangling s")
    case True
    then show ?thesis using t by auto
  next
    case False
    have "write_with_escape_sequences n m p k h = Back () h'" if "n > length s" for n
    proof -
      have "n = Suc (n - t - 1) + t" using that t(1) by simp
      then show ?thesis using t(3) [of "Suc (n - t - 1)"] False assms by (simp add: string_at_def)
    qed
    then show ?thesis using False t(2) by auto
  qed
qed

text \<open>An argument of \<^verbatim>\<open>a\<close> and a backslash, with another string behind it: both are written.\<close>

definition ex_umem :: umem where
  "ex_umem i = (if i < 6 then [CHR ''a'', CHR 0x5C, CHR 0x00, CHR ''x'', CHR ''y'', CHR ''z''] ! i else CHR 0x00)"

theorem echo_escapes_witness:
  "\<exists>h'. write_with_escape_sequences 20 ex_umem 0 (file_kernel 3 3 []) [] = Back () h' \<and>
     written 1 h' = [CHR ''a'', CHR 0x5C] @ ''xyz''"
proof -
  have s: "string_at ex_umem 0 [CHR ''a'', CHR 0x5C]" "string_at ex_umem 3 ''xyz''"
    by (simp_all add: string_at_def less_Suc_eq ex_umem_def all_conj_distrib)
  obtain h1 t where t: "t \<le> 2" "written 1 h1 = [CHR ''a'', CHR 0x5C]"
    "\<And>n. write_with_escape_sequences (n + t) ex_umem 0 (file_kernel 3 3 []) [] = write_with_escape_sequences n ex_umem 3 (file_kernel 3 3 []) h1"
    using echo_escapes [OF s(1), of "[]" "file_kernel 3 3 []"] by (auto simp: numeral_2_eq_2 numeral_3_eq_3)
  have "3 < 20 - t" "20 = (20 - t) + t" using t(1) by simp_all
  moreover from this obtain h' where "write_with_escape_sequences (20 - t) ex_umem 3 (file_kernel 3 3 []) h1 = Back () h'"
    "written 1 h' = written 1 h1 @ ''xyz''"
    using echo_escapes [OF s(2), of h1 "file_kernel 3 3 []"] by (auto simp: eval_nat_numeral)
  ultimately show ?thesis using t(2) t(3) [of "20 - t"] by simp
qed

end
