(* ===== verification/Progs.thy ===== *)
theory Progs
  imports User
begin

text \<open>
  The other user programs: \<^verbatim>\<open>user/cat.c\<close>, \<^verbatim>\<open>rm.c\<close>, \<^verbatim>\<open>ln.c\<close>, \<^verbatim>\<open>kill.c\<close>, \<^verbatim>\<open>sleep.c\<close>, \<^verbatim>\<open>zombie.c\<close>, \<^verbatim>\<open>init.c\<close>, \<^verbatim>\<open>mkdir.c\<close>,
  \<^verbatim>\<open>ps.c\<close> and \<^verbatim>\<open>ls.c\<close>.  A first argument \<open>n\<close> bounds the turns of loops that run as long as the kernel lets them.
\<close>

abbreviation (input) NL :: char where "NL \<equiv> CHR 0x0A"

subsection \<open>cat\<close>

fun cat :: "nat \<Rightarrow> int \<Rightarrow> unit user" where
  "cat 0 fd = uspin"
| "cat (Suc n) fd = ubind (sys (CRead fd 512)) (\<lambda>(r, d).
     if r > 0 then ubind (sys (CWrite 1 (take (nat r) d))) (\<lambda>(w, _).
       if w \<noteq> r then ubind (fprintf 2 (''cat: write error'' @ [NL]) []) (\<lambda>_. uexit 1) else cat n fd)
     else if r < 0 then ubind (fprintf 2 (''cat: read error'' @ [NL]) []) (\<lambda>_. uexit 1)
     else uret ())"

definition cat_main :: "nat \<Rightarrow> string list \<Rightarrow> unit user" where
  "cat_main n argv =
     (if length argv \<le> 1 then ubind (cat n 0) (\<lambda>_. uexit 0)
      else ubind (uforeach (tl argv) (\<lambda>f.
          ubind (sys (COpen f O_RDONLY)) (\<lambda>(fd, _).
          if fd < 0 then ubind (fprintf 2 (''cat: cannot open %s'' @ [NL]) [AS f]) (\<lambda>_. uexit 1)
          else ubind (cat n fd) (\<lambda>_. ubind (sys (CClose fd)) (\<lambda>_. uret ())))))
        (\<lambda>_. uexit 0))"

subsection \<open>rm, ln, kill, sleep, zombie\<close>

fun until_error :: "('a \<Rightarrow> bool user) \<Rightarrow> 'a list \<Rightarrow> unit user" where
  "until_error f [] = uret ()"
| "until_error f (x # xs) = ubind (f x) (\<lambda>ok. if ok then until_error f xs else uret ())"

definition rm_main :: "string list \<Rightarrow> unit user" where
  "rm_main argv =
     (if length argv < 2 then ubind (fprintf 2 (''Usage: rm files...'' @ [NL]) []) (\<lambda>_. uexit 1)
      else ubind (until_error (\<lambda>f. ubind (sys (CUnlink f)) (\<lambda>(r, _).
          if r < 0 then ubind (fprintf 2 (''rm: %s failed to delete'' @ [NL]) [AS f]) (\<lambda>_. uret False) else uret True)) (tl argv))
        (\<lambda>_. uexit 0))"

definition ln_main :: "string list \<Rightarrow> unit user" where
  "ln_main argv =
     (if length argv \<noteq> 3 then ubind (fprintf 2 (''Usage: ln old new'' @ [NL]) []) (\<lambda>_. uexit 1)
      else ubind (sys (CLink (argv ! 1) (argv ! 2))) (\<lambda>(r, _).
        ubind (if r < 0 then fprintf 2 (''link %s %s: failed'' @ [NL]) [AS (argv ! 1), AS (argv ! 2)] else uret ()) (\<lambda>_. uexit 0)))"

definition kill_main :: "string list \<Rightarrow> unit user" where
  "kill_main argv =
     (if length argv < 2 then ubind (fprintf 2 (''usage: kill pid...'' @ [NL]) []) (\<lambda>_. uexit 1)
      else ubind (uforeach (tl argv) (\<lambda>a. ubind (sys (CKill (atoi a))) (\<lambda>_. uret ()))) (\<lambda>_. uexit 0))"

definition sleep_main :: "string list \<Rightarrow> unit user" where
  "sleep_main argv =
     (if length argv < 2 then ubind (fprintf 2 (''Sleep missing instruction ...'' @ [NL]) []) (\<lambda>_. uexit 1)
      else ubind (sys (CSleep (sint (word_of_int (atoi (argv ! 1)) * 10 :: uint32)))) (\<lambda>(r, _). uexit r))"

definition zombie_main :: "unit user" where
  "zombie_main = ubind (sys CFork) (\<lambda>(r, _).
     ubind (if r > 0 then ubind (sys (CSleep 5)) (\<lambda>_. uret ()) else uret ()) (\<lambda>_. uexit 0))"

subsection \<open>init\<close>

fun init_wait :: "nat \<Rightarrow> int \<Rightarrow> unit user" where
  "init_wait 0 pid = uspin"
| "init_wait (Suc n) pid = ubind (sys CWait) (\<lambda>(wpid, _).
     if wpid = pid then uret ()
     else if wpid < 0 then ubind (uprintf (''init: wait returned an error'' @ [NL]) []) (\<lambda>_. uexit 1)
     else init_wait n pid)"

fun init_loop :: "nat \<Rightarrow> unit user" where
  "init_loop 0 = uspin"
| "init_loop (Suc n) = ubind (uprintf (''init: starting sh'' @ [NL]) []) (\<lambda>_.
     ubind (sys CFork) (\<lambda>(pid, _).
     if pid < 0 then ubind (uprintf (''init: fork failed'' @ [NL]) []) (\<lambda>_. uexit 1)
     else if pid = 0 then ubind (sys (CExec ''sh'' [''sh''])) (\<lambda>_.
       ubind (uprintf (''init: exec sh failed'' @ [NL]) []) (\<lambda>_. uexit 1))
     else ubind (init_wait n pid) (\<lambda>_. init_loop n)))"

definition init_main :: "nat \<Rightarrow> unit user" where
  "init_main n = ubind (sys (COpen ''console'' O_RDWR)) (\<lambda>(fd, _).
     ubind (if fd < 0 then ubind (sys (CMknod ''console'' 1 0)) (\<lambda>_. ubind (sys (COpen ''console'' O_RDWR)) (\<lambda>_. uret ()))
       else uret ()) (\<lambda>_.
     ubind (sys (CDup 0)) (\<lambda>_. ubind (sys (CDup 0)) (\<lambda>_. init_loop n))))"

subsection \<open>mkdir\<close>

text \<open>\<open>mem_ok n\<close> says whether \<^verbatim>\<open>malloc(n)\<close> succeeds.  The numbers returned are those of the source.\<close>

fun mkdir_back :: "nat \<Rightarrow> int user" where
  "mkdir_back 0 = uret 0"
| "mkdir_back (Suc k) = ubind (sys (CChdir ''..'')) (\<lambda>(r, _).
     if r < 0 then ubind (fprintf 2 ''mkdir: failed to go back to original directory'' []) (\<lambda>_. uret (-1))
     else mkdir_back k)"

function mkdir_p_loop :: "(nat \<Rightarrow> bool) \<Rightarrow> string \<Rightarrow> nat \<Rightarrow> int user" where
  "mkdir_p_loop mem_ok path count =
     (case path of
        [] \<Rightarrow> mkdir_back count
      | c # s \<Rightarrow>
          if c = CHR ''/'' then mkdir_p_loop mem_ok s count
          else
            let directory = takeWhile (\<lambda>x. x \<noteq> CHR ''/'') path in
            if \<not> mem_ok (length directory + 1) then
              ubind (fprintf 2 (''mkdir: memory allocation failed'' @ [NL]) []) (\<lambda>_. uret (-1))
            else ubind (sys (COpen directory O_RDONLY)) (\<lambda>(fd, _).
              ubind (if fd < 0 then ubind (sys (CMkdir directory)) (\<lambda>(r, _).
                  if r < 0 then ubind (fprintf 2 (''mkdir: failed to create directory %s'' @ [NL]) [AS directory]) (\<lambda>_. uret False)
                  else uret True) else uret True) (\<lambda>ok.
              if \<not> ok then uret (-1)
              else ubind (sys (CChdir directory)) (\<lambda>(r, _).
                if r < 0 then
                  ubind (fprintf 2 (''mkdir: failed to change into %s directory'' @ [NL]) [AS directory]) (\<lambda>_. uret (-1))
                else mkdir_p_loop mem_ok (dropWhile (\<lambda>x. x \<noteq> CHR ''/'') path) (count + 1)))))"
  by pat_completeness auto
termination
  by (relation "measure (\<lambda>(_, s, _). length s)") (auto simp: le_imp_less_Suc length_dropWhile_le)

declare mkdir_p_loop.simps [simp del]

definition mkdir_p :: "(nat \<Rightarrow> bool) \<Rightarrow> string \<Rightarrow> int user" where
  "mkdir_p mem_ok path =
     (if path \<noteq> [] \<and> hd path = CHR ''/'' then ubind (sys (CChdir ''/'')) (\<lambda>(r, _).
        if r < 0 then ubind (fprintf 2 (''mkdir: failed to change to root directory'' @ [NL]) []) (\<lambda>_. uret (-1))
        else mkdir_p_loop mem_ok path 0)
      else mkdir_p_loop mem_ok path 0)"

definition mkdir_main :: "(nat \<Rightarrow> bool) \<Rightarrow> string list \<Rightarrow> unit user" where
  "mkdir_main mem_ok argv =
     (let failed = (\<lambda>a r. if r < 0 then ubind (fprintf 2 (''mkdir: %s failed to create'' @ [NL]) [AS a]) (\<lambda>_. uret False) else uret True)
      in if length argv < 2 then ubind (fprintf 2 (''Usage: mkdir [-p] directories...'' @ [NL]) []) (\<lambda>_. uexit 1)
      else if strcmp (argv ! 1) ''-p'' = 0 then
        if length argv < 3 then ubind (fprintf 2 (''mkdir: missing argument for -p'' @ [NL]) []) (\<lambda>_. uexit 1)
        else ubind (until_error (\<lambda>a. ubind (mkdir_p mem_ok a) (failed a)) (drop 2 argv)) (\<lambda>_. uexit 0)
      else ubind (until_error (\<lambda>a. ubind (sys (CMkdir a)) (\<lambda>(r, _). failed a r)) (tl argv)) (\<lambda>_. uexit 0))"

subsection \<open>ps\<close>

definition isValidFlag :: "string \<Rightarrow> bool" where
  "isValidFlag arg =
     (if strcmp ''r'' arg = 0 then True else if strcmp ''-l'' arg = 0 then True else if strcmp ''-p'' arg = 0 then True else False)"

definition isValidPidList :: "string \<Rightarrow> bool" where
  "isValidPidList arg \<longleftrightarrow> list_all (\<lambda>c. is_digit c \<or> c = CHR '','') arg"

definition printErr :: "string \<Rightarrow> unit user" where
  "printErr msg = ubind (uprintf (''error: %s'' @ [NL]) [AS msg]) (\<lambda>_.
     ubind (uprintf (''Usage:'' @ [NL]) []) (\<lambda>_. uprintf ('' ps [options]'' @ [NL]) []))"

text \<open>The arguments from \<^verbatim>\<open>argv[i]\<close> on; past the last one there is a null pointer.\<close>

function ps_check :: "string list \<Rightarrow> unit user" where
  "ps_check [] = uret ()"
| "ps_check (a # as) =
     (if \<not> isValidFlag a then ubind (printErr ''unsupported SysV option'') (\<lambda>_. uexit 1)
      else if strcmp a ''-p'' = 0 \<and> as = [] then ufault
      else if strcmp a ''-p'' = 0 \<and> \<not> isValidPidList (hd as) then ubind (printErr ''process ID list syntax error'') (\<lambda>_. uexit 1)
      else ps_check (tl as))"
  by pat_completeness auto
termination
  by (relation "measure length") auto

definition ps_main :: "string list \<Rightarrow> unit user" where
  "ps_main argv = ubind (ps_check (tl argv)) (\<lambda>_.
     ubind (sys (CPs (int (length argv)) argv)) (\<lambda>_. uexit 0))"

text \<open>Only the arguments at odd positions are checked: the one after \<^verbatim>\<open>r\<close> or \<^verbatim>\<open>-l\<close> is not looked at.\<close>

lemma ps_check_skips: "ps_check [''r'', a] k h = Back () h" "ps_check [''-l'', a] k h = Back () h"
  by (simp_all add: isValidFlag_def)

lemma ps_check_faults: "ps_check [''-p''] k h = Fault h"
  by (simp add: isValidFlag_def)

end
