(* ===== verification/Ls.thy ===== *)
theory Ls
  imports User
begin

text \<open>
  \<^verbatim>\<open>user/ls.c\<close>.  A directory entry is 16 bytes, the inode number and the name padded with zeroes; \<^verbatim>\<open>fstat\<close> stores
  a \<^verbatim>\<open>struct stat\<close>.  The static buffer of \<^verbatim>\<open>fmtname\<close> is filled anew by each call before it is used.
\<close>

abbreviation (input) NL :: char where "NL \<equiv> CHR 0x0A"
abbreviation (input) DIRSIZ :: nat where "DIRSIZ \<equiv> 14"

definition T_DIR :: nat where "T_DIR = 1"
definition T_FILE :: nat where "T_FILE = 2"
definition T_DEVICE :: nat where "T_DEVICE = 3"

record stat_info =
  st_ino :: nat
  st_type :: nat
  st_nlink :: nat
  st_size :: nat

definition stat_of :: "string \<Rightarrow> stat_info" where
  "stat_of s = \<lparr>st_ino = field 4 4 s, st_type = field 8 2 s, st_nlink = field 10 2 s, st_size = field 16 8 s\<rparr>"

definition de_inum :: "string \<Rightarrow> nat" where
  "de_inum d = field 0 2 d"

definition de_name :: "string \<Rightarrow> string" where
  "de_name d = takeWhile (\<lambda>c. c \<noteq> CHR 0x00) (take DIRSIZ (drop 2 d))"

definition fmtname :: "string \<Rightarrow> string" where
  "fmtname path =
     (let p = rev (takeWhile (\<lambda>c. c \<noteq> CHR ''/'') (rev path)) in
      if length p \<ge> DIRSIZ then p else p @ replicate (DIRSIZ - length p) (CHR '' ''))"

text \<open>The search for a blank has no bound; \<open>None\<close> when the string has none.\<close>

definition clean_fmtname :: "string \<Rightarrow> string option" where
  "clean_fmtname name = (if CHR '' '' \<in> set name then Some (takeWhile (\<lambda>c. c \<noteq> CHR '' '') name) else None)"

definition print_clean :: "string \<Rightarrow> string \<Rightarrow> unit user" where
  "print_clean fmt name = (case clean_fmtname name of None \<Rightarrow> ufault | Some s \<Rightarrow> uprintf fmt [AS s])"

definition slash_end :: "string \<Rightarrow> string" where
  "slash_end s = s[length s - 1 := CHR ''/'']"

definition AN :: "nat \<Rightarrow> parg" where
  "AN n = ANum (of_nat n)"

definition AShort :: "nat \<Rightarrow> parg" where
  "AShort n = ANum (scast (of_nat n :: uint16))"

text \<open>A file or a device, then a directory, in the three formats.\<close>

definition ls_file :: "string \<Rightarrow> bool \<Rightarrow> bool \<Rightarrow> string \<Rightarrow> stat_info \<Rightarrow> unit user" where
  "ls_file tag l m path st =
     (if m then print_clean ''%s'' (fmtname path)
      else if l then uprintf (''%s %d %s %d'' @ [NL]) [AS tag, AShort (st_nlink st), AS (fmtname path), AN (st_size st)]
      else uprintf (''%s %d %d %d'' @ [NL]) [AS (fmtname path), AShort (st_type st), AN (st_ino st), AN (st_size st)])"

definition ls_dir :: "bool \<Rightarrow> bool \<Rightarrow> bool \<Rightarrow> string \<Rightarrow> stat_info \<Rightarrow> unit user" where
  "ls_dir l p m path st =
     (if m \<and> p then print_clean ''%s/'' (fmtname path)
      else if m then print_clean ''%s'' (fmtname path)
      else
        let name = (if p then slash_end (fmtname path) else fmtname path) in
        if l then uprintf (''%s %d %s %d'' @ [NL]) [AS ''d'', AShort (st_nlink st), AS name, AN (st_size st)]
        else uprintf (''%s %d %d %d'' @ [NL]) [AS name, AShort (st_type st), AN (st_ino st), AN (st_size st)])"

definition ls_item :: "bool \<Rightarrow> bool \<Rightarrow> bool \<Rightarrow> string \<Rightarrow> stat_info \<Rightarrow> unit user" where
  "ls_item l p m path st =
     (if st_type st = T_DEVICE then ls_file ''-'' l m path st
      else if st_type st = T_FILE then ls_file ''f'' l m path st
      else if st_type st = T_DIR then ls_dir l p m path st
      else uret ())"

text \<open>The first pass counts the entries in use, the second prints them; the first argument bounds the reads.\<close>

fun count_entries :: "nat \<Rightarrow> int \<Rightarrow> nat \<Rightarrow> nat user" where
  "count_entries 0 fd k = uspin"
| "count_entries (Suc n) fd k = ubind (sys (CRead fd 16)) (\<lambda>(r, d).
     if r = 16 then count_entries n fd (if de_inum d \<noteq> 0 then k + 1 else k) else uret k)"

fun ls_entries :: "nat \<Rightarrow> int \<Rightarrow> string \<Rightarrow> bool \<Rightarrow> bool \<Rightarrow> bool \<Rightarrow> nat \<Rightarrow> nat \<Rightarrow> unit user" where
  "ls_entries 0 fd path l p m tot cur = uspin"
| "ls_entries (Suc n) fd path l p m tot cur = ubind (sys (CRead fd 16)) (\<lambda>(r, d).
     if r \<noteq> 16 then uret ()
     else if de_inum d = 0 then ls_entries n fd path l p m tot cur
     else let buf = path @ ''/'' @ de_name d in
       ubind (stat buf) (\<lambda>(s, bytes).
       if s < 0 then ubind (uprintf (''ls: cannot stat %s'' @ [NL]) [AS buf]) (\<lambda>_. ls_entries n fd path l p m tot cur)
       else ubind (ls_item l p m buf (stat_of bytes)) (\<lambda>_.
         ubind (if m \<and> tot > cur + 1 then uprintf '', '' [] else uret ()) (\<lambda>_.
         ls_entries n fd path l p m tot (cur + 1)))))"

definition ls :: "nat \<Rightarrow> string \<Rightarrow> bool \<Rightarrow> bool \<Rightarrow> bool \<Rightarrow> unit user" where
  "ls n path l p m = ubind (sys (COpen path O_RDONLY)) (\<lambda>(fd, _).
     if fd < 0 then fprintf 2 (''ls: cannot open %s'' @ [NL]) [AS path]
     else ubind (sys (CFstat fd)) (\<lambda>(r, bytes).
       let st = stat_of bytes; close = (\<lambda>d. ubind (sys (CClose d)) (\<lambda>_. uret ())) in
       if r < 0 then ubind (fprintf 2 (''ls: cannot stat %s'' @ [NL]) [AS path]) (\<lambda>_. close fd)
       else if st_type st = T_DEVICE then ubind (ls_file ''-'' l m path st) (\<lambda>_. close fd)
       else if st_type st = T_FILE then ubind (ls_file ''f'' l m path st) (\<lambda>_. close fd)
       else if st_type st = T_DIR then
         if length path + 1 + DIRSIZ + 1 > 512 then ubind (uprintf (''ls: path too long'' @ [NL]) []) (\<lambda>_. close fd)
         else ubind (count_entries n fd 0) (\<lambda>tot.
           ubind (sys (CClose fd)) (\<lambda>_. ubind (sys (COpen path O_RDONLY)) (\<lambda>(fd', _).
           ubind (ls_entries n fd' path l p m tot 0) (\<lambda>_. close fd'))))
       else close fd))"

definition is_flag :: "string \<Rightarrow> bool" where
  "is_flag a \<longleftrightarrow> strcmp a ''-l'' = 0 \<or> strcmp a ''-p'' = 0 \<or> strcmp a ''-m'' = 0"

fun ls_args :: "nat \<Rightarrow> bool \<Rightarrow> bool \<Rightarrow> bool \<Rightarrow> string list \<Rightarrow> unit user" where
  "ls_args n l p m [] = uret ()"
| "ls_args n l p m (a # as) =
     (if is_flag a then ls_args n l p m as
      else ubind (ls n a l p m) (\<lambda>_.
        ubind (if m \<and> as \<noteq> [] then uprintf '', '' [] else uret ()) (\<lambda>_. ls_args n l p m as)))"

definition ls_main :: "nat \<Rightarrow> string list \<Rightarrow> unit user" where
  "ls_main n argv =
     (let args = tl argv;
          l = list_ex (\<lambda>a. strcmp a ''-l'' = 0) args; p = list_ex (\<lambda>a. strcmp a ''-p'' = 0) args; m = list_ex (\<lambda>a. strcmp a ''-m'' = 0) args
      in ubind (if \<not> list_ex (\<lambda>a. a = [] \<or> hd a \<noteq> CHR ''-'') args then ls n ''.'' l p m else ls_args n l p m args) (\<lambda>_.
         ubind (if m then uprintf [NL] [] else uret ()) (\<lambda>_. uexit 0)))"

subsection \<open>Names that fill their field\<close>

text \<open>A name of 14 characters has no blank behind it, so the search of \<^verbatim>\<open>clean_fmtname\<close> runs off its end.\<close>

lemma clean_long_name:
  assumes "length name = DIRSIZ" "CHR ''/'' \<notin> set name" "CHR '' '' \<notin> set name"
  shows "print_clean fmt (fmtname (path @ ''/'' @ name)) k h = Fault h"
proof -
  have "fmtname (path @ ''/'' @ name) = name"
  proof -
    have "takeWhile (\<lambda>c. c \<noteq> CHR ''/'') (rev name @ CHR ''/'' # rev path) = rev name @ takeWhile (\<lambda>c. c \<noteq> CHR ''/'') (CHR ''/'' # rev path)"
      by (rule takeWhile_append2) (use assms(2) in auto)
    then show ?thesis using assms(1) by (simp add: fmtname_def)
  qed
  then show ?thesis using assms by (simp add: print_clean_def clean_fmtname_def)
qed

end
