(* ===== verification/Shell.thy ===== *)
theory Shell
  imports User
begin

text \<open>
  The shell, \<^verbatim>\<open>user/sh.c\<close>.  A pointer into the command line is the rest of the line from there, so \<^verbatim>\<open>es\<close> is the empty
  rest.  A counted string is kept as the source keeps it, by where it begins and ends, each given as the length of
  the rest; \<^verbatim>\<open>nulterminate\<close> then stores the terminators into the line.  Memory for a node is there when it is
  asked for.
\<close>

abbreviation (input) NL :: char where "NL \<equiv> CHR 0x0A"

type_synonym tok = "nat \<times> nat"

datatype 'a cmd =
    EXEC "'a list"
  | REDIR "'a cmd" 'a nat int
  | PIPE "'a cmd" "'a cmd"
  | LIST "'a cmd" "'a cmd"
  | BACK "'a cmd"

abbreviation (input) MAXARGS :: nat where "MAXARGS \<equiv> 10"

definition whitespace :: string where
  "whitespace = [CHR '' '', CHR 0x09, CHR 0x0D, CHR 0x0A, CHR 0x0B]"

definition symbols :: string where
  "symbols = ''<|>&;()''"

definition is_ws :: "char \<Rightarrow> bool" where
  "is_ws c \<longleftrightarrow> c \<in> set whitespace"

definition is_word :: "char \<Rightarrow> bool" where
  "is_word c \<longleftrightarrow> c \<notin> set whitespace \<and> c \<notin> set symbols"

subsection \<open>Tokens\<close>

definition skip :: "string \<Rightarrow> string" where
  "skip s = dropWhile is_ws s"

text \<open>The kind of token, its extent, and the rest of the line after it and the white space behind it.\<close>

definition gettoken :: "string \<Rightarrow> char \<times> tok \<times> string" where
  "gettoken s =
     (let s1 = skip s; q = length s1 in
      case s1 of
        [] \<Rightarrow> (CHR 0x00, (q, q), [])
      | c # t \<Rightarrow>
          if c \<in> set ''|();&<'' then (c, (q, length t), skip t)
          else if c = CHR ''>'' then
            (if t \<noteq> [] \<and> hd t = CHR ''>'' then (CHR ''+'', (q, length (tl t)), skip (tl t)) else (c, (q, length t), skip t))
          else let r = dropWhile is_word s1 in (CHR ''a'', (q, length r), skip r))"

definition peek :: "string \<Rightarrow> string \<Rightarrow> string \<times> bool" where
  "peek s toks = (let s1 = skip s in (s1, s1 \<noteq> [] \<and> hd s1 \<in> set toks))"

abbreviation (input) kind :: "char \<times> tok \<times> string \<Rightarrow> char" where "kind g \<equiv> fst g"
abbreviation (input) extent :: "char \<times> tok \<times> string \<Rightarrow> tok" where "extent g \<equiv> fst (snd g)"
abbreviation (input) rest :: "char \<times> tok \<times> string \<Rightarrow> string" where "rest g \<equiv> snd (snd g)"

subsection \<open>The parser\<close>

text \<open>\<open>PErr\<close> is a call of \<^verbatim>\<open>panic\<close>; \<open>PFuel\<close> is the bound on the depth of calls.\<close>

datatype 'a presult = POk 'a string | PErr string | PFuel

lemma skip_le: "length (skip s) \<le> length s"
  by (simp add: skip_def length_dropWhile_le)

lemma skip_skip [simp]: "skip (skip s) = skip s"
  by (simp add: skip_def)

lemma skip_hd: "skip s = c # t \<Longrightarrow> \<not> is_ws c"
  by (metis dropWhile_eq_Cons_conv skip_def)

lemma word_hd: "skip s = c # t \<Longrightarrow> c \<notin> set ''|();&<'' \<Longrightarrow> c \<noteq> CHR ''>'' \<Longrightarrow> is_word c"
  using skip_hd [of s c t] by (simp add: is_word_def is_ws_def symbols_def)

lemma gettoken_less: "kind (gettoken s) \<noteq> CHR 0x00 \<Longrightarrow> length (rest (gettoken s)) < length s"
proof -
  assume k: "kind (gettoken s) \<noteq> CHR 0x00"
  obtain c u where u: "skip s = c # u" using k by (cases "skip s") (auto simp: gettoken_def)
  then have lu: "length u < length s" using skip_le [of s] by simp
  have l: "length (skip v) < length s" if "length v \<le> length u" for v using skip_le [of v] lu that by simp
  have "length (dropWhile is_word (c # u)) \<le> length u" if "is_word c" using that by (simp add: length_dropWhile_le)
  then show ?thesis using u word_hd [OF u] l by (auto simp: gettoken_def Let_def)
qed

lemma gettoken_nul: "kind (gettoken s) = CHR 0x00 \<longleftrightarrow> skip s = []"
  by (cases "skip s") (auto simp: gettoken_def Let_def)

lemma gettoken_le: "length (rest (gettoken s)) \<le> length s"
proof (cases "kind (gettoken s) = CHR 0x00")
  case True
  then have "skip s = []" by (simp only: gettoken_nul)
  then show ?thesis by (simp add: gettoken_def)
qed (auto dest: gettoken_less)

lemma peek_le: "length (fst (peek s ts)) \<le> length s"
  by (simp add: peek_def Let_def skip_le)

text \<open>The redirections at the front of the line: file, mode and descriptor of each.\<close>

definition redir_of :: "char \<Rightarrow> tok \<Rightarrow> tok \<times> nat \<times> int" where
  "redir_of k f =
     (if k = CHR ''<'' then (f, O_RDONLY, 0)
      else if k = CHR ''>'' then (f, O_WRONLY OR O_CREATE OR O_TRUNC, 1)
      else (f, O_WRONLY OR O_CREATE, 1))"

function parseredirs :: "(tok \<times> nat \<times> int) list \<Rightarrow> string \<Rightarrow> (tok \<times> nat \<times> int) list presult" where
  "parseredirs rs s =
     (let s1 = fst (peek s ''<>'') in
      if \<not> snd (peek s ''<>'') then POk rs s1
      else let g = gettoken s1; f = gettoken (rest g) in
        if kind f \<noteq> CHR ''a'' then PErr ''missing file for redirection''
        else parseredirs (rs @ [redir_of (kind g) (extent f)]) (rest f))"
  by pat_completeness auto
termination
proof (relation "measure (length \<circ> snd)", goal_cases)
  case (2 rs s s1 g f)
  then have "length s1 \<le> length s" "length (rest g) \<le> length s1" "length (rest f) < length (rest g)"
    using peek_le gettoken_le gettoken_less by auto
  then show ?case by simp
qed simp

declare parseredirs.simps [simp del]

lemma parseredirs_induct [case_names step]:
  assumes "\<And>rs s. (\<And>g f. snd (peek s ''<>'') \<Longrightarrow> g = gettoken (skip s) \<Longrightarrow> f = gettoken (rest g) \<Longrightarrow> kind f = CHR ''a'' \<Longrightarrow>
    P (rs @ [redir_of (kind g) (extent f)]) (rest f)) \<Longrightarrow> P rs s"
  shows "P rs s"
proof (induction rs s rule: parseredirs.induct)
  case (1 rs s)
  show ?case by (rule assms) (use 1 in \<open>auto simp: peek_def Let_def\<close>)
qed

lemma parseredirs_le: "parseredirs rs s = POk rs' s' \<Longrightarrow> length s' \<le> length s"
proof (induction rs s rule: parseredirs_induct)
  case (step rs s)
  define g where "g = gettoken (skip s)"
  define f where "f = gettoken (rest g)"
  have "length (rest f) \<le> length s" unfolding f_def g_def using gettoken_le skip_le by (meson le_trans)
  with step.IH [OF _ g_def f_def] step.prems show ?case
    by (auto simp: parseredirs.simps [of rs s] Let_def peek_def skip_le f_def g_def split: if_splits)
qed

definition wrap :: "'a cmd \<Rightarrow> ('a \<times> nat \<times> int) list \<Rightarrow> 'a cmd" where
  "wrap c rs = foldl (\<lambda>c (f, m, fd). REDIR c f m fd) c rs"

text \<open>The loop of \<^verbatim>\<open>parseexec\<close>: the arguments and the redirections met so far.\<close>

function parseargs :: "tok list \<Rightarrow> (tok \<times> nat \<times> int) list \<Rightarrow> string \<Rightarrow> tok cmd presult" where
  "parseargs args rs s =
     (let s1 = fst (peek s ''|)&;'') in
      if snd (peek s ''|)&;'') then POk (wrap (EXEC args) rs) s1
      else let g = gettoken s1 in
        if kind g = CHR 0x00 then POk (wrap (EXEC args) rs) (rest g)
        else if kind g \<noteq> CHR ''a'' then PErr ''syntax''
        else if length args + 1 \<ge> MAXARGS then PErr ''too many args''
        else case parseredirs rs (rest g) of
            POk rs' s2 \<Rightarrow> parseargs (args @ [extent g]) rs' s2
          | PErr e \<Rightarrow> PErr e
          | PFuel \<Rightarrow> PFuel)"
  by pat_completeness auto
termination
proof (relation "measure (\<lambda>(_, _, s). length s)", goal_cases)
  case (2 args rs s s1 g rs' s2)
  then have "length s1 \<le> length s" "length (rest g) < length s1" "length s2 \<le> length (rest g)"
    using peek_le gettoken_less parseredirs_le by auto
  then show ?case by simp
qed simp

declare parseargs.simps [simp del]

text \<open>The trailing ampersands of \<^verbatim>\<open>parseline\<close>.\<close>

function parsebacks :: "'a cmd \<Rightarrow> string \<Rightarrow> 'a cmd \<times> string" where
  "parsebacks c s =
     (let s1 = fst (peek s ''&'') in
      if snd (peek s ''&'') then parsebacks (BACK c) (rest (gettoken s1)) else (c, s1))"
  by pat_completeness auto
termination
proof (relation "measure (length \<circ> snd)", goal_cases)
  case (2 c s s1)
  then have "length (rest (gettoken s1)) < length s1" "length s1 \<le> length s"
    using peek_le gettoken_less by (auto simp: gettoken_nul peek_def Let_def)
  then show ?case by simp
qed simp

declare parsebacks.simps [simp del]

fun parseline :: "nat \<Rightarrow> string \<Rightarrow> tok cmd presult"
  and parsepipe :: "nat \<Rightarrow> string \<Rightarrow> tok cmd presult"
  and parseexec :: "nat \<Rightarrow> string \<Rightarrow> tok cmd presult"
  and parseblock :: "nat \<Rightarrow> string \<Rightarrow> tok cmd presult" where
  "parseline 0 s = PFuel"
| "parseline (Suc n) s = (case parsepipe n s of
     POk c s1 \<Rightarrow> (case parsebacks c s1 of (c', s2) \<Rightarrow>
       let s3 = fst (peek s2 '';'') in
       if snd (peek s2 '';'') then (case parseline n (rest (gettoken s3)) of
           POk r s4 \<Rightarrow> POk (LIST c' r) s4
         | PErr e \<Rightarrow> PErr e
         | PFuel \<Rightarrow> PFuel)
       else POk c' s3)
   | PErr e \<Rightarrow> PErr e
   | PFuel \<Rightarrow> PFuel)"
| "parsepipe 0 s = PFuel"
| "parsepipe (Suc n) s = (case parseexec n s of
     POk c s1 \<Rightarrow>
       let s2 = fst (peek s1 ''|'') in
       if snd (peek s1 ''|'') then (case parsepipe n (rest (gettoken s2)) of
           POk r s3 \<Rightarrow> POk (PIPE c r) s3
         | PErr e \<Rightarrow> PErr e
         | PFuel \<Rightarrow> PFuel)
       else POk c s2
   | PErr e \<Rightarrow> PErr e
   | PFuel \<Rightarrow> PFuel)"
| "parseexec 0 s = PFuel"
| "parseexec (Suc n) s =
     (let s1 = fst (peek s ''('') in
      if snd (peek s ''('') then parseblock n s1
      else (case parseredirs [] s1 of
          POk rs s2 \<Rightarrow> parseargs [] rs s2
        | PErr e \<Rightarrow> PErr e
        | PFuel \<Rightarrow> PFuel))"
| "parseblock 0 s = PFuel"
| "parseblock (Suc n) s =
     (let s1 = fst (peek s ''('') in
      if \<not> snd (peek s ''('') then PErr ''parseblock''
      else (case parseline n (rest (gettoken s1)) of
          POk c s2 \<Rightarrow>
            let s3 = fst (peek s2 '')'') in
            if \<not> snd (peek s2 '')'') then PErr ''syntax - missing )''
            else (case parseredirs [] (rest (gettoken s3)) of
                POk rs s4 \<Rightarrow> POk (wrap c rs) s4
              | PErr e \<Rightarrow> PErr e
              | PFuel \<Rightarrow> PFuel)
        | PErr e \<Rightarrow> PErr e
        | PFuel \<Rightarrow> PFuel))"

subsection \<open>Terminators\<close>

text \<open>A store at the end of a counted string; at the end of the line there is a zero already.\<close>

definition put_nul :: "tok \<Rightarrow> string \<Rightarrow> string" where
  "put_nul t buf = (if snd t = 0 then buf else buf[length buf - snd t := CHR 0x00])"

primrec nulterminate :: "tok cmd \<Rightarrow> string \<Rightarrow> string" where
  "nulterminate (EXEC args) buf = fold put_nul args buf"
| "nulterminate (REDIR c f m fd) buf = put_nul f (nulterminate c buf)"
| "nulterminate (PIPE l r) buf = nulterminate r (nulterminate l buf)"
| "nulterminate (LIST l r) buf = nulterminate r (nulterminate l buf)"
| "nulterminate (BACK c) buf = nulterminate c buf"

text \<open>The C string that begins where the token does.\<close>

definition tok_string :: "string \<Rightarrow> tok \<Rightarrow> string" where
  "tok_string buf t = takeWhile (\<lambda>c. c \<noteq> CHR 0x00) (drop (length buf - fst t) buf)"

text \<open>What \<^verbatim>\<open>runcmd\<close> finds: the tree, with the strings its pointers lead to.  A call of \<^verbatim>\<open>parsecmd\<close> goes at most four calls deep per character.\<close>

definition parsecmd :: "string \<Rightarrow> string cmd presult" where
  "parsecmd s = (case parseline (4 * length s + 4) s of
     POk c s1 \<Rightarrow> (let s2 = fst (peek s1 []) in
       if s2 \<noteq> [] then PErr (''leftovers: '' @ s2 @ [NL] @ ''syntax'')
       else POk (map_cmd (tok_string (nulterminate c s)) c) [])
   | PErr e \<Rightarrow> PErr e
   | PFuel \<Rightarrow> PFuel)"

subsection \<open>Running a command\<close>

definition panic :: "string \<Rightarrow> 'a user" where
  "panic s = ubind (fprintf 2 (''%s'' @ [NL]) [AS s]) (\<lambda>_. uexit 1)"

definition fork1 :: "int user" where
  "fork1 = ubind (sys CFork) (\<lambda>(pid, _). if pid = -1 then panic ''fork'' else uret pid)"

definition sys1 :: "call \<Rightarrow> unit user" where
  "sys1 c = ubind (sys c) (\<lambda>_. uret ())"

primrec runcmd :: "string cmd \<Rightarrow> unit user" where
  "runcmd (EXEC argv) =
     (if argv = [] then uexit 1
      else ubind (sys (CExec (hd argv) argv)) (\<lambda>_.
        ubind (fprintf 2 (''exec %s failed'' @ [NL]) [AS (hd argv)]) (\<lambda>_. uexit 0)))"
| "runcmd (REDIR c file mode fd) = ubind (sys1 (CClose fd)) (\<lambda>_.
     ubind (sys (COpen file mode)) (\<lambda>(r, _).
     if r < 0 then ubind (fprintf 2 (''open %s failed'' @ [NL]) [AS file]) (\<lambda>_. uexit 1)
     else runcmd c))"
| "runcmd (PIPE left right) = ubind (sys CPipe) (\<lambda>(r, p).
     if r < 0 then panic ''pipe''
     else let p0 = int (field 0 4 p); p1 = int (field 4 4 p) in
       ubind fork1 (\<lambda>pid.
       if pid = 0 then ubind (sys1 (CClose 1)) (\<lambda>_. ubind (sys1 (CDup p1)) (\<lambda>_. ubind (sys1 (CClose p0)) (\<lambda>_.
         ubind (sys1 (CClose p1)) (\<lambda>_. runcmd left))))
       else ubind fork1 (\<lambda>pid'.
       if pid' = 0 then ubind (sys1 (CClose 0)) (\<lambda>_. ubind (sys1 (CDup p0)) (\<lambda>_. ubind (sys1 (CClose p0)) (\<lambda>_.
         ubind (sys1 (CClose p1)) (\<lambda>_. runcmd right))))
       else ubind (sys1 (CClose p0)) (\<lambda>_. ubind (sys1 (CClose p1)) (\<lambda>_.
         ubind (sys1 CWait) (\<lambda>_. ubind (sys1 CWait) (\<lambda>_. uexit 0)))))))"
| "runcmd (LIST left right) = ubind fork1 (\<lambda>pid.
     if pid = 0 then runcmd left else ubind (sys1 CWait) (\<lambda>_. runcmd right))"
| "runcmd (BACK c) = ubind fork1 (\<lambda>pid. if pid = 0 then runcmd c else uexit 0)"

definition getcmd :: "nat \<Rightarrow> (int \<times> string) user" where
  "getcmd nbuf = ubind (sys1 (CWrite 2 ''$ '')) (\<lambda>_.
     ubind (gets nbuf) (\<lambda>b. let buf = takeWhile (\<lambda>c. c \<noteq> CHR 0x00) b in uret (if buf = [] then -1 else 0, buf)))"

definition run_line :: "string \<Rightarrow> unit user" where
  "run_line buf = (case parsecmd buf of POk c _ \<Rightarrow> runcmd c | PErr e \<Rightarrow> panic e | PFuel \<Rightarrow> uspin)"

fun sh_open :: "nat \<Rightarrow> unit user" where
  "sh_open 0 = uspin"
| "sh_open (Suc n) = ubind (sys (COpen ''console'' O_RDWR)) (\<lambda>(fd, _).
     if fd < 0 then uret () else if fd \<ge> 3 then sys1 (CClose fd) else sh_open n)"

fun sh_loop :: "nat \<Rightarrow> unit user" where
  "sh_loop 0 = uspin"
| "sh_loop (Suc n) = ubind (getcmd 100) (\<lambda>(r, buf).
     if r < 0 then uret ()
     else if take 3 buf = ''cd '' then
       let dir = drop 3 (butlast buf) in
       ubind (sys (CChdir dir)) (\<lambda>(r, _).
       ubind (if r < 0 then fprintf 2 (''cannot cd %s'' @ [NL]) [AS dir] else uret ()) (\<lambda>_. sh_loop n))
     else ubind fork1 (\<lambda>pid.
       ubind (if pid = 0 then run_line buf else uret ()) (\<lambda>_. ubind (sys1 CWait) (\<lambda>_. sh_loop n))))"

definition sh_main :: "nat \<Rightarrow> unit user" where
  "sh_main n = ubind (sh_open n) (\<lambda>_. ubind (sh_loop n) (\<lambda>_. uexit 0))"

end
