(* ===== verification/Shell_Props.thy ===== *)
theory Shell_Props
  imports Shell "HOL-Library.Sublist"
begin

text \<open>
  The shell's parser comes to an end on every line, and reads back every command that is written out.
\<close>

subsection \<open>The parser ends\<close>

lemma peek_skip: "fst (peek s ts) = skip s"
  by (simp add: peek_def Let_def)

lemma peek_true: "snd (peek s ts) \<longleftrightarrow> skip s \<noteq> [] \<and> hd (skip s) \<in> set ts"
  by (simp add: peek_def Let_def)

lemma gettoken_skip [simp]: "gettoken (skip s) = gettoken s"
  by (simp add: gettoken_def)

lemma rest_less: "snd (peek s ts) \<Longrightarrow> length (rest (gettoken s)) < length s"
  using gettoken_less [of s] by (simp add: peek_true gettoken_nul)

lemma parseredirs_no_fuel: "parseredirs rs s \<noteq> PFuel"
proof (induction rs s rule: parseredirs_induct)
  case (step rs s)
  then show ?case by (auto simp: parseredirs.simps [of rs s] Let_def peek_skip)
qed

lemma parseargs_no_fuel: "parseargs args rs s \<noteq> PFuel"
proof (induction args rs s rule: parseargs.induct)
  case (1 args rs s)
  show ?case using "1.IH" [OF refl _ refl] parseredirs_no_fuel
    by (subst parseargs.simps) (auto simp: Let_def split: presult.split)
qed

lemma parseargs_le: "parseargs args rs s = POk c s' \<Longrightarrow> length s' \<le> length s"
proof (induction args rs s rule: parseargs.induct)
  case (1 args rs s)
  let ?s1 = "fst (peek s ''|)&;'')"
  have l: "length ?s1 \<le> length s" "length (rest (gettoken ?s1)) \<le> length ?s1" by (rule peek_le gettoken_le)+
  have "length s' \<le> length s" if "parseredirs rs (rest (gettoken ?s1)) = POk rs' s2" "length s' \<le> length s2" for rs' s2
    using parseredirs_le [OF that(1)] that(2) l by simp
  then show ?case using "1.prems" "1.IH" [OF refl _ refl] l unfolding parseargs.simps [of args rs s] Let_def
    by (auto split: if_splits presult.splits)
qed

lemma parsebacks_le: "length (snd (parsebacks c s)) \<le> length s"
proof (induction c s rule: parsebacks.induct)
  case (1 c s)
  then show ?case using rest_less [of s "''&''"] peek_le [of s "''&''"]
    by (subst parsebacks.simps) (auto simp: Let_def peek_skip)
qed

lemma parse_le:
  "parseline n s = POk c s' \<Longrightarrow> length s' \<le> length s"
  "parsepipe n s = POk c s' \<Longrightarrow> length s' \<le> length s"
  "parseexec n s = POk c s' \<Longrightarrow> length s' \<le> length s"
  "parseblock n s = POk c s' \<Longrightarrow> length s' \<le> length s"
proof (induction n arbitrary: s c s')
  case (Suc n)
  { case 1
    then obtain c1 s1 c2 s2 where p: "parsepipe n s = POk c1 s1" "parsebacks c1 s1 = (c2, s2)"
      by (auto split: presult.splits prod.splits)
    have "length s2 \<le> length s" using Suc.IH(2) [OF p(1)] parsebacks_le [of c1 s1] p(2) by simp
    then show ?case using 1 p rest_less [of s2 "'';''"] Suc.IH(1) [of "rest (gettoken s2)"] skip_le [of s2]
      by (fastforce simp: peek_skip Let_def split: if_splits presult.splits)
  next
    case 2
    then obtain c1 s1 where p: "parseexec n s = POk c1 s1" by (auto split: presult.splits)
    then show ?case using 2 Suc.IH(3) [OF p] rest_less [of s1 "''|''"] Suc.IH(2) [of "rest (gettoken s1)"] skip_le [of s1]
      by (fastforce simp: peek_skip Let_def split: if_splits presult.splits)
  next
    case 3
    then show ?case using Suc.IH(4) [of "skip s"] skip_le [of s] parseredirs_le [of "[]" "skip s"] parseargs_le
      by (fastforce simp: peek_skip Let_def split: if_splits presult.splits)
  next
    case 4
    then obtain c1 s1 where p: "snd (peek s ''('')" "parseline n (rest (gettoken s)) = POk c1 s1"
      by (auto simp: peek_skip Let_def split: presult.splits if_splits)
    have "length s1 < length s" using Suc.IH(1) [OF p(2)] rest_less [OF p(1)] by simp
    then show ?case using 4 p rest_less [of s1 "'')''"] parseredirs_le [of "[]" "rest (gettoken s1)"]
      by (fastforce simp: peek_skip Let_def split: if_splits presult.splits)
  }
qed simp_all

lemma parse_no_fuel:
  "4 * length s + 4 \<le> n \<Longrightarrow> parseline n s \<noteq> PFuel"
  "4 * length s + 3 \<le> n \<Longrightarrow> parsepipe n s \<noteq> PFuel"
  "4 * length s + 2 \<le> n \<Longrightarrow> parseexec n s \<noteq> PFuel"
  "4 * length s + 1 \<le> n \<Longrightarrow> parseblock n s \<noteq> PFuel"
proof (induction n arbitrary: s)
  case (Suc n)
  { case 1
    then have p: "parsepipe n s \<noteq> PFuel" by (intro Suc.IH(2)) simp
    have "parseline n (rest (gettoken s2)) \<noteq> PFuel" if "length s2 \<le> length s" "snd (peek s2 '';'')" for s2
      using that 1 rest_less [OF that(2)] by (intro Suc.IH(1)) simp
    note l = this
    show ?case
    proof (cases "parsepipe n s")
      case (POk c1 s1)
      have "length (snd (parsebacks c1 s1)) \<le> length s" using parse_le(2) [OF POk] parsebacks_le [of c1 s1] by simp
      then show ?thesis using POk l [of "snd (parsebacks c1 s1)"]
        by (auto simp: peek_skip Let_def split: presult.splits prod.splits)
    qed (use p in simp_all)
  next
    case 2
    then have p: "parseexec n s \<noteq> PFuel" by (intro Suc.IH(3)) simp
    have "parsepipe n (rest (gettoken s1)) \<noteq> PFuel" if "length s1 \<le> length s" "snd (peek s1 ''|'')" for s1
      using that 2 rest_less [OF that(2)] by (intro Suc.IH(2)) simp
    note l = this
    show ?case
    proof (cases "parseexec n s")
      case (POk c1 s1)
      then show ?thesis using l [of s1] parse_le(3) [OF POk] by (auto simp: peek_skip Let_def split: presult.splits)
    qed (use p in simp_all)
  next
    case 3
    then have "parseblock n (skip s) \<noteq> PFuel" using skip_le [of s] by (intro Suc.IH(4)) simp
    then show ?case using parseredirs_no_fuel parseargs_no_fuel
      by (auto simp: peek_skip Let_def split: presult.splits)
  next
    case 4
    have "parseline n (rest (gettoken s)) \<noteq> PFuel" if "snd (peek s ''('')" using 4 rest_less [OF that] by (intro Suc.IH(1)) simp
    then show ?case using parseredirs_no_fuel by (auto simp: peek_skip Let_def split: presult.splits)
  }
qed simp_all

subsection \<open>Counted strings\<close>

definition tok_text :: "string \<Rightarrow> tok \<Rightarrow> string" where
  "tok_text buf t = take (fst t - snd t) (drop (length buf - fst t) buf)"

text \<open>A token is a longest run of word characters.\<close>

definition tok_ok :: "string \<Rightarrow> tok \<Rightarrow> bool" where
  "tok_ok buf t \<longleftrightarrow> snd t < fst t \<and> fst t \<le> length buf \<and> list_all is_word (tok_text buf t) \<and>
     (snd t \<noteq> 0 \<longrightarrow> \<not> is_word (buf ! (length buf - snd t)))"

lemma tok_text_suffix: "suffix s s' \<Longrightarrow> fst t \<le> length s \<Longrightarrow> tok_text s' t = tok_text s t"
  by (auto simp: suffix_def tok_text_def)

lemma tok_ok_suffix: "suffix s s' \<Longrightarrow> tok_ok s t \<Longrightarrow> tok_ok s' t"
proof -
  assume s: "suffix s s'" and t: "tok_ok s t"
  then obtain zs where z: "s' = zs @ s" by (auto simp: suffix_def)
  have "snd t \<le> length s" using t by (simp add: tok_ok_def)
  then have "length s' - snd t = length zs + (length s - snd t)" by (simp add: z)
  then have "s' ! (length s' - snd t) = s ! (length s - snd t)" by (simp only: z nth_append_length_plus)
  then show ?thesis using t tok_text_suffix [OF s, of t] z by (simp add: tok_ok_def)
qed

lemma skip_suffix: "suffix (skip s) s"
  by (simp add: skip_def suffix_dropWhile)

lemma gettoken_suffix: "suffix (rest (gettoken s)) s"
proof -
  have "suffix (rest (gettoken s)) (skip s)"
  proof (cases "skip s")
    case (Cons c t)
    have "suffix (skip u) (c # t)" if "suffix u (c # t)" for u using suffix_order.trans [OF skip_suffix that] .
    moreover have "suffix t (c # t)" "suffix (tl t) (c # t)" "suffix (dropWhile is_word (c # t)) (c # t)"
      by (auto intro: suffix_ConsI suffix_tl suffix_dropWhile)
    ultimately show ?thesis using Cons by (auto simp: gettoken_def Let_def)
  qed (simp add: gettoken_def)
  then show ?thesis using skip_suffix suffix_order.trans by blast
qed

lemma gettoken_ok:
  assumes "kind (gettoken s) = CHR ''a''"
  shows "tok_ok s (extent (gettoken s))"
proof -
  obtain c t where c: "skip s = c # t" using assms by (cases "skip s") (auto simp: gettoken_def)
  define r where "r = dropWhile is_word (c # t)"
  define w where "w = takeWhile is_word (c # t)"
  have n: "c \<notin> set ''|();&<''" "c \<noteq> CHR ''>''" using assms c by (auto simp: gettoken_def Let_def split: if_splits)
  then have e: "extent (gettoken s) = (length (skip s), length r)" using c by (simp add: gettoken_def Let_def r_def)
  have wr: "skip s = w @ r" by (simp add: w_def r_def c)
  have "is_word c" using word_hd [OF c n] .
  then have "w \<noteq> []" by (simp add: w_def)
  moreover have "list_all is_word w" unfolding w_def by (auto simp: list_all_iff dest: set_takeWhileD)
  moreover have "\<not> is_word (r ! 0)" if "r \<noteq> []" using that hd_dropWhile [of is_word "c # t"] by (simp add: r_def hd_conv_nth)
  ultimately have "tok_ok (skip s) (length (skip s), length r)"
    by (auto simp: tok_ok_def tok_text_def wr nth_append)
  then show ?thesis unfolding e by (rule tok_ok_suffix [OF skip_suffix])
qed

lemma parseredirs_ok:
  "parseredirs rs s = POk rs' s' \<Longrightarrow> suffix s b \<Longrightarrow> \<forall>x \<in> set rs. tok_ok b (fst x) \<Longrightarrow> suffix s' b \<and> (\<forall>x \<in> set rs'. tok_ok b (fst x))"
proof (induction rs s rule: parseredirs_induct)
  case (step rs s)
  define g where "g = gettoken (skip s)"
  define f where "f = gettoken (rest g)"
  have "suffix (skip s) b" using skip_suffix step.prems(2) suffix_order.trans by blast
  then have b: "suffix (skip s) b" "suffix (rest g) b" "suffix (rest f) b"
    using gettoken_suffix suffix_order.trans unfolding f_def g_def by metis+
  have "tok_ok b (fst (redir_of (kind g) (extent f)))" if "kind f = CHR ''a''"
    using that gettoken_ok [of "rest g"] tok_ok_suffix [OF b(2)] by (simp add: f_def redir_of_def)
  with step.IH [OF _ g_def f_def _ _ b(3)] step.prems b show ?case
    by (auto simp: parseredirs.simps [of rs s] Let_def peek_skip f_def g_def split: if_splits)
qed

lemma set_wrap: "set_cmd (wrap c rs) = set_cmd c \<union> fst ` set rs"
  unfolding wrap_def by (induction rs arbitrary: c) auto

lemma parseargs_ok:
  "parseargs args rs s = POk c s' \<Longrightarrow> suffix s b \<Longrightarrow> \<forall>x \<in> set rs. tok_ok b (fst x) \<Longrightarrow> \<forall>t \<in> set args. tok_ok b t \<Longrightarrow>
     suffix s' b \<and> (\<forall>t \<in> set_cmd c. tok_ok b t)"
proof (induction args rs s rule: parseargs.induct)
  case (1 args rs s)
  define s1 where "s1 = fst (peek s ''|)&;'')"
  define g where "g = gettoken s1"
  have b: "suffix s1 b" "suffix (rest g) b"
    using skip_suffix "1.prems"(2) gettoken_suffix suffix_order.trans unfolding s1_def g_def peek_skip by metis+
  have t: "tok_ok b (extent g)" if "kind g = CHR ''a''" using that gettoken_ok [of s1] tok_ok_suffix [OF b(1)] by (simp add: g_def)
  have r: "suffix s2 b \<and> (\<forall>x \<in> set rs'. tok_ok b (fst x))" if "parseredirs rs (rest g) = POk rs' s2" for rs' s2
    using parseredirs_ok [OF that b(2) "1.prems"(3)] .
  show ?case using "1.prems" "1.IH" [OF s1_def _ g_def] b t r set_wrap [of "EXEC args" rs]
    unfolding parseargs.simps [of args rs s] Let_def s1_def [symmetric] g_def [symmetric]
    by (auto split: if_splits presult.splits)
qed

lemma parsebacks_ok:
  "suffix s b \<Longrightarrow> suffix (snd (parsebacks c s)) b \<and> set_cmd (fst (parsebacks c s)) = set_cmd c"
proof (induction c s rule: parsebacks.induct)
  case (1 c s)
  have "suffix (skip s) b" using skip_suffix "1.prems" suffix_order.trans by blast
  moreover have "suffix (rest (gettoken (skip s))) b" using gettoken_suffix calculation suffix_order.trans by blast
  ultimately show ?case using "1.IH" [OF refl] by (subst (1 2) parsebacks.simps) (auto simp: Let_def peek_skip)
qed

abbreviation (input) toks_ok :: "string \<Rightarrow> tok cmd \<Rightarrow> bool" where
  "toks_ok b c \<equiv> \<forall>t \<in> set_cmd c. tok_ok b t"

lemma parse_ok:
  "parseline n s = POk c s' \<Longrightarrow> suffix s b \<Longrightarrow> suffix s' b \<and> toks_ok b c"
  "parsepipe n s = POk c s' \<Longrightarrow> suffix s b \<Longrightarrow> suffix s' b \<and> toks_ok b c"
  "parseexec n s = POk c s' \<Longrightarrow> suffix s b \<Longrightarrow> suffix s' b \<and> toks_ok b c"
  "parseblock n s = POk c s' \<Longrightarrow> suffix s b \<Longrightarrow> suffix s' b \<and> toks_ok b c"
proof (induction n arbitrary: s c s')
  case (Suc n)
  have sk: "suffix (skip u) b" "suffix (rest (gettoken u)) b" if "suffix u b" for u
    using that skip_suffix gettoken_suffix suffix_order.trans by blast+
  { case 1
    then obtain c1 s1 c2 s2 where p: "parsepipe n s = POk c1 s1" "parsebacks c1 s1 = (c2, s2)"
      by (auto split: presult.splits prod.splits)
    have "suffix s2 b" "toks_ok b c2" using Suc.IH(2) [OF p(1) 1(2)] parsebacks_ok [of s1 b c1] p(2) by auto
    then show ?case using 1 p Suc.IH(1) [of "rest (gettoken s2)"] sk [of s2]
      by (auto simp: peek_skip Let_def split: if_splits presult.splits)
  next
    case 2
    then obtain c1 s1 where p: "parseexec n s = POk c1 s1" by (auto split: presult.splits)
    then show ?case using 2 Suc.IH(3) [OF p 2(2)] Suc.IH(2) [of "rest (gettoken s1)"] sk [of s1]
      by (auto simp: peek_skip Let_def split: if_splits presult.splits)
  next
    case 3
    have "suffix s' b \<and> toks_ok b c" if "parseredirs [] (skip s) = POk rs s2" "parseargs [] rs s2 = POk c s'" for rs s2
      using parseredirs_ok [OF that(1), of b] parseargs_ok [OF that(2), of b] sk(1) [OF 3(2)] by simp
    then show ?case using 3(1) Suc.IH(4) [of "skip s" c s'] sk(1) [OF 3(2)]
      by (auto simp: peek_skip Let_def split: if_splits presult.splits)
  next
    case 4
    then obtain c1 s1 where p: "parseline n (rest (gettoken s)) = POk c1 s1"
      by (auto simp: peek_skip Let_def split: presult.splits if_splits)
    have 5: "suffix s1 b" "toks_ok b c1" using Suc.IH(1) [OF p] sk [OF 4(2)] by auto
    have "suffix s2 b \<and> toks_ok b (wrap c1 rs)" if "parseredirs [] (rest (gettoken s1)) = POk rs s2" for rs s2
      using parseredirs_ok [OF that, of b] sk(2) [OF 5(1)] 5(2) by (auto simp: set_wrap)
    then show ?case using 4(1) p
      by (auto simp: peek_skip Let_def split: if_splits presult.splits)
  }
qed simp_all

subsection \<open>Terminators\<close>

lemma length_put_nul [simp]: "length (put_nul t buf) = length buf"
  by (simp add: put_nul_def)

lemma length_fold_put_nul [simp]: "length (fold put_nul ts buf) = length buf"
  by (induction ts arbitrary: buf) simp_all

lemma length_nulterminate [simp]: "length (nulterminate c buf) = length buf"
  by (induction c arbitrary: buf) simp_all

text \<open>Where terminators are stored.\<close>

definition cuts :: "nat \<Rightarrow> tok set \<Rightarrow> nat set" where
  "cuts n ts = {n - snd t | t. t \<in> ts \<and> snd t \<noteq> 0}"

lemma cuts_simps [simp]: "cuts n {} = {}" "cuts n (A \<union> B) = cuts n A \<union> cuts n B"
  by (auto simp: cuts_def)

lemma cuts_insert [simp]: "cuts n (insert t A) = (if snd t = 0 then cuts n A else insert (n - snd t) (cuts n A))"
  by (cases t) (auto simp: cuts_def)

lemma put_nul_nth: "i < length buf \<Longrightarrow> put_nul t buf ! i = (if i \<in> cuts (length buf) {t} then CHR 0x00 else buf ! i)"
  by (auto simp: put_nul_def nth_list_update)

lemma fold_put_nul_nth:
  "i < length buf \<Longrightarrow> fold put_nul ts buf ! i = (if i \<in> cuts (length buf) (set ts) then CHR 0x00 else buf ! i)"
proof (induction ts arbitrary: buf)
  case (Cons t ts)
  then show ?case by (auto simp: put_nul_nth)
qed simp

lemma nulterminate_nth:
  "i < length buf \<Longrightarrow> nulterminate c buf ! i = (if i \<in> cuts (length buf) (set_cmd c) then CHR 0x00 else buf ! i)"
proof (induction c arbitrary: buf)
  case (REDIR c f m fd)
  then show ?case by (auto simp: put_nul_nth)
qed (simp_all add: fold_put_nul_nth)

lemma tok_string_nulterminate:
  assumes "CHR 0x00 \<notin> set buf" "toks_ok buf c" "t \<in> set_cmd c"
  shows "tok_string (nulterminate c buf) t = tok_text buf t"
proof -
  let ?n = "length buf" and ?b = "nulterminate c buf"
  have t: "snd t < fst t" "fst t \<le> ?n" "list_all is_word (tok_text buf t)" using assms(2,3) by (auto simp: tok_ok_def)
  have uncut: "i \<notin> cuts ?n (set_cmd c)" if "is_word (buf ! i)" for i
    using assms(2) that by (auto simp: cuts_def tok_ok_def)
  define w where "w = take (fst t - snd t) (drop (?n - fst t) ?b)"
  have "w = tok_text buf t"
  proof (rule nth_equalityI)
    fix i assume i: "i < length w"
    then have "is_word (tok_text buf t ! i)" using t by (auto simp: list_all_length w_def tok_text_def)
    moreover have "tok_text buf t ! i = buf ! (?n - fst t + i)" using i t by (simp add: tok_text_def w_def)
    ultimately show "w ! i = tok_text buf t ! i" using i t uncut by (simp add: w_def nulterminate_nth)
  qed (simp add: w_def tok_text_def)
  moreover have "drop (fst t - snd t) (drop (?n - fst t) ?b) = drop (?n - snd t) ?b" using t by simp
  then have s: "drop (?n - fst t) ?b = w @ drop (?n - snd t) ?b"
    unfolding w_def by (metis append_take_drop_id)
  moreover have "takeWhile (\<lambda>c. c \<noteq> CHR 0x00) (drop (?n - snd t) ?b) = []"
  proof (cases "snd t = 0")
    case False
    then have "?n - snd t < ?n" using t by simp
    moreover have "?n - snd t \<in> cuts ?n (set_cmd c)" using False assms(3) unfolding cuts_def by blast
    ultimately have "?b ! (?n - snd t) = CHR 0x00" "?n - snd t < length ?b" by (simp_all add: nulterminate_nth)
    then show ?thesis using Cons_nth_drop_Suc [of "?n - snd t" ?b, symmetric] by simp
  qed simp
  moreover have "CHR 0x00 \<notin> set (tok_text buf t)" using assms(1) by (auto simp: tok_text_def dest!: in_set_takeD in_set_dropD)
  then have "takeWhile (\<lambda>c. c \<noteq> CHR 0x00) (tok_text buf t @ u) = tok_text buf t @ takeWhile (\<lambda>c. c \<noteq> CHR 0x00) u" for u
    by (intro takeWhile_append2) auto
  ultimately show ?thesis by (simp add: tok_string_def)
qed

lemma parsecmd_text:
  assumes "CHR 0x00 \<notin> set s" "parseline (4 * length s + 4) s = POk c s1" "skip s1 = []"
  shows "parsecmd s = POk (map_cmd (tok_text s) c) []"
proof -
  have "toks_ok s c" using parse_ok(1) [OF assms(2)] by simp
  then have "map_cmd (tok_string (nulterminate c s)) c = map_cmd (tok_text s) c"
    using tok_string_nulterminate [OF assms(1)] by (intro cmd.map_cong0) simp
  then show ?thesis using assms by (simp add: parsecmd_def peek_skip)
qed

subsection \<open>Writing a command\<close>

definition wf_word :: "string \<Rightarrow> bool" where
  "wf_word w \<longleftrightarrow> w \<noteq> [] \<and> list_all is_word w \<and> CHR 0x00 \<notin> set w"

definition wf_redir :: "string \<times> nat \<times> int \<Rightarrow> bool" where
  "wf_redir x \<longleftrightarrow> wf_word (fst x) \<and>
     snd x \<in> {(O_RDONLY, 0), (O_WRONLY OR O_CREATE OR O_TRUNC, 1), (O_WRONLY OR O_CREATE, 1)}"

primrec wf_cmd :: "string cmd \<Rightarrow> bool" where
  "wf_cmd (EXEC args) \<longleftrightarrow> length args < MAXARGS \<and> list_all wf_word args"
| "wf_cmd (REDIR c f m fd) \<longleftrightarrow> wf_cmd c \<and> wf_redir (f, m, fd)"
| "wf_cmd (PIPE l r) \<longleftrightarrow> wf_cmd l \<and> wf_cmd r"
| "wf_cmd (LIST l r) \<longleftrightarrow> wf_cmd l \<and> wf_cmd r"
| "wf_cmd (BACK c) \<longleftrightarrow> wf_cmd c"

definition show_redir :: "string \<times> nat \<times> int \<Rightarrow> string" where
  "show_redir x = (case x of (f, m, fd) \<Rightarrow>
     (if m = O_RDONLY then ''<'' else if m = O_WRONLY OR O_CREATE OR O_TRUNC then ''>'' else ''>>'') @ f @ '' '')"

definition show_words :: "string list \<Rightarrow> string" where
  "show_words ws = concat (map (\<lambda>w. w @ '' '') ws)"

definition paren :: "bool \<Rightarrow> string \<Rightarrow> string" where
  "paren b s = (if b then ''('' @ s @ '')'' else s)"

text \<open>Level 0 is a line, 1 what may carry an ampersand, 2 a pipeline, 3 a single command.\<close>

primrec show_cmd :: "string cmd \<Rightarrow> nat \<Rightarrow> string" where
  "show_cmd (EXEC args) l = show_words args"
| "show_cmd (REDIR c f m fd) l = show_cmd c 3 @ show_redir (f, m, fd)"
| "show_cmd (PIPE a b) l = paren (2 < l) (show_cmd a 3 @ ''|'' @ show_cmd b 2)"
| "show_cmd (LIST a b) l = paren (0 < l) (show_cmd a 1 @ '';'' @ show_cmd b 0)"
| "show_cmd (BACK a) l = paren (1 < l) (show_cmd a 1 @ ''&'')"

lemma is_word_simps: "is_word c \<Longrightarrow> \<not> is_ws c" "is_word c \<Longrightarrow> c \<notin> set ''|();&<''" "is_word c \<Longrightarrow> c \<noteq> CHR ''>''"
  by (auto simp: is_word_def is_ws_def symbols_def)

lemma skip_word: "wf_word w \<Longrightarrow> skip (w @ r) = w @ r"
  by (cases w) (auto simp: wf_word_def skip_def is_word_simps)

lemma skip_blank [simp]: "skip (CHR '' '' # r) = skip r"
  by (simp add: skip_def is_ws_def whitespace_def)

lemma gettoken_word:
  assumes "wf_word w"
  shows "gettoken (w @ CHR '' '' # r) = (CHR ''a'', (length w + Suc (length r), Suc (length r)), skip r)"
proof -
  obtain c u where w: "w = c # u" "is_word c" using assms by (cases w) (auto simp: wf_word_def)
  have "\<not> is_word (CHR '' '')" by (simp add: is_word_def whitespace_def)
  moreover have "dropWhile is_word (w @ CHR '' '' # r) = dropWhile is_word (CHR '' '' # r)"
    using assms by (intro dropWhile_append2) (auto simp: wf_word_def list_all_iff)
  ultimately have "dropWhile is_word (w @ CHR '' '' # r) = CHR '' '' # r" by simp
  moreover have "skip (w @ CHR '' '' # r) = w @ CHR '' '' # r" using skip_word [OF assms] .
  ultimately show ?thesis using w is_word_simps(2,3) [OF w(2)] unfolding gettoken_def Let_def by simp
qed

lemma tok_text_word: "suffix (w @ u) b \<Longrightarrow> tok_text b (length w + length u, length u) = w"
  using tok_text_suffix [of "w @ u" b "(length w + length u, length u)"] by (simp add: tok_text_def)

lemma show_redir_step:
  fixes r :: string
  assumes "wf_redir x"
  defines "e \<equiv> (length (fst x) + Suc (length r), Suc (length r))"
  shows "parseredirs rs (show_redir x @ r) = parseredirs (rs @ [(e, snd x)]) (skip r)"
proof -
  obtain f m fd where x: "x = (f, m, fd)" by (cases x)
  have f: "wf_word f" and m: "(m, fd) \<in> {(O_RDONLY, 0), (O_WRONLY OR O_CREATE OR O_TRUNC, 1), (O_WRONLY OR O_CREATE, 1)}"
    using assms(1) by (auto simp: wf_redir_def x)
  obtain c u where c: "f = c # u" "c \<noteq> CHR ''>''" using f by (cases f) (auto simp: wf_word_def is_word_simps)
  have ne: "O_RDONLY \<noteq> O_WRONLY OR O_CREATE OR O_TRUNC" "O_RDONLY \<noteq> O_WRONLY OR O_CREATE" "O_WRONLY OR O_CREATE \<noteq> O_WRONLY OR O_CREATE OR O_TRUNC"
    by (simp_all add: O_RDONLY_def O_WRONLY_def O_CREATE_def O_TRUNC_def)
  let ?s = "show_redir x @ r"
  have sk: "skip ?s = ?s" by (simp add: x show_redir_def skip_def is_ws_def whitespace_def)
  have p: "snd (peek ?s ''<>'')" unfolding peek_true sk by (simp add: x show_redir_def)
  have g: "rest (gettoken ?s) = skip (f @ CHR '' '' # r) \<and> redir_of (kind (gettoken ?s)) e = (e, m, fd)"
    unfolding gettoken_def Let_def sk using m ne c by (auto simp: x show_redir_def redir_of_def)
  then have "gettoken (rest (gettoken ?s)) = (CHR ''a'', e, skip r)" by (simp add: gettoken_word [OF f] e_def x)
  then show ?thesis using p g by (subst parseredirs.simps) (simp add: Let_def peek_skip sk x)
qed

lemma parseredirs_skip: "parseredirs rs (skip s) = parseredirs rs s"
  by (subst (1 2) parseredirs.simps) (simp add: peek_def Let_def)

abbreviation (input) redir_texts :: "string \<Rightarrow> (tok \<times> nat \<times> int) list \<Rightarrow> (string \<times> nat \<times> int) list" where
  "redir_texts b ts \<equiv> map (apfst (tok_text b)) ts"

lemma parseredirs_end: "skip r = [] \<or> hd (skip r) \<notin> set ''<>'' \<Longrightarrow> parseredirs rs r = POk rs (skip r)"
  by (subst parseredirs.simps) (auto simp: Let_def peek_skip peek_true)

lemma parseredirs_show:
  assumes "skip r = [] \<or> hd (skip r) \<notin> set ''<>''"
  shows "list_all wf_redir xs \<Longrightarrow> suffix (concat (map show_redir xs) @ r) b \<Longrightarrow>
    \<exists>ts. parseredirs rs (concat (map show_redir xs) @ r) = POk (rs @ ts) (skip r) \<and> redir_texts b ts = xs"
proof (induction xs arbitrary: rs)
  case Nil
  then show ?case using parseredirs_end [OF assms] by simp
next
  case (Cons x xs)
  let ?r = "concat (map show_redir xs) @ r"
  define e where "e = (length (fst x) + Suc (length ?r), Suc (length ?r))"
  have x: "wf_redir x" using Cons.prems by simp
  obtain p where "show_redir x = p @ fst x @ '' ''" unfolding show_redir_def by (cases x) simp
  then have "suffix (p @ fst x @ CHR '' '' # ?r) b" using Cons.prems(2) by simp
  then have sb: "suffix (fst x @ CHR '' '' # ?r) b" "suffix ?r b" using suffix_appendD suffix_ConsD by metis+
  obtain ts where ts: "parseredirs (rs @ [(e, snd x)]) ?r = POk ((rs @ [(e, snd x)]) @ ts) (skip r)" "redir_texts b ts = xs"
    using Cons.IH [of "rs @ [(e, snd x)]"] Cons.prems(1) sb(2) by (metis list.pred_inject(2))
  have "parseredirs rs (concat (map show_redir (x # xs)) @ r) = POk (rs @ (e, snd x) # ts) (skip r)"
    using show_redir_step [OF x, of rs ?r] ts(1) by (simp add: parseredirs_skip e_def)
  moreover have "tok_text b e = fst x" using tok_text_word [OF sb(1)] by (simp add: e_def)
  ultimately show ?case using ts(2) by (intro exI [of _ "(e, snd x) # ts"] conjI) simp_all
qed

lemma map_wrap: "map_cmd f (wrap c rs) = wrap (map_cmd f c) (map (apfst f) rs)"
  unfolding wrap_def by (induction rs arbitrary: c) (auto simp: apfst_def map_prod_def)

text \<open>What may follow a single command.\<close>

definition follow :: "string \<Rightarrow> string \<Rightarrow> bool" where
  "follow ts r \<longleftrightarrow> skip r = [] \<or> hd (skip r) \<in> set ts"

lemma parseargs_end: "follow ''|)&;'' r \<Longrightarrow> parseargs args rs r = POk (wrap (EXEC args) rs) (skip r)"
  by (subst parseargs.simps) (auto simp: Let_def peek_skip peek_true follow_def gettoken_def)

lemma parseargs_skip: "parseargs args rs (skip s) = parseargs args rs s"
  by (subst (1 2) parseargs.simps) (simp add: peek_def Let_def)

lemma parseargs_word:
  assumes "wf_word w" "Suc (length args) < MAXARGS"
  shows "parseargs args rs (w @ CHR '' '' # r) = (case parseredirs rs r of
    POk rs' s2 \<Rightarrow> parseargs (args @ [(length w + Suc (length r), Suc (length r))]) rs' s2 | PErr e \<Rightarrow> PErr e | PFuel \<Rightarrow> PFuel)"
proof -
  have "\<not> snd (peek (w @ CHR '' '' # r) ''|)&;'')"
    using assms(1) unfolding peek_true skip_word [OF assms(1)] by (cases w) (auto simp: wf_word_def is_word_simps is_word_def symbols_def)
  then show ?thesis using assms by (subst parseargs.simps) (simp add: Let_def peek_skip gettoken_word parseredirs_skip split: presult.split)
qed

lemma parseargs_show:
  assumes "follow ''|)&;'' r" "list_all wf_redir xs" "ws \<noteq> []"
  shows "list_all wf_word ws \<Longrightarrow> length args + length ws < MAXARGS \<Longrightarrow>
    suffix (show_words ws @ concat (map show_redir xs) @ r) b \<Longrightarrow>
    \<exists>as ts. parseargs args rs (show_words ws @ concat (map show_redir xs) @ r) = POk (wrap (EXEC (args @ as)) (rs @ ts)) (skip r) \<and>
      map (tok_text b) as = ws \<and> redir_texts b ts = xs"
  using assms(3)
proof (induction ws arbitrary: args rs)
  case (Cons w ws)
  let ?r = "show_words ws @ concat (map show_redir xs) @ r"
  let ?e = "(length w + Suc (length ?r), Suc (length ?r))"
  have w: "wf_word w" "Suc (length args) < MAXARGS" using Cons.prems by simp_all
  have sb: "suffix (w @ CHR '' '' # ?r) b" using Cons.prems(3) by (simp add: show_words_def)
  then have sr: "suffix ?r b" using suffix_appendD suffix_ConsD by metis
  have tx: "tok_text b ?e = w" using tok_text_word [OF sb] by simp
  have step: "parseargs args rs (show_words (w # ws) @ concat (map show_redir xs) @ r) = (case parseredirs rs ?r of
    POk rs' s2 \<Rightarrow> parseargs (args @ [?e]) rs' s2 | PErr e \<Rightarrow> PErr e | PFuel \<Rightarrow> PFuel)"
    using parseargs_word [OF w, of rs ?r] by (simp add: show_words_def)
  have nr: "skip r = [] \<or> hd (skip r) \<notin> set ''<>''" using assms(1) by (auto simp: follow_def)
  show ?case
  proof (cases ws)
    case Nil
    obtain ts where ts: "parseredirs rs ?r = POk (rs @ ts) (skip r)" "redir_texts b ts = xs"
      using parseredirs_show [OF nr assms(2), of b rs] sr Nil by (auto simp: show_words_def)
    then have "parseargs args rs (show_words (w # ws) @ concat (map show_redir xs) @ r) = POk (wrap (EXEC (args @ [?e])) (rs @ ts)) (skip r)"
      using step by (simp add: parseargs_skip parseargs_end [OF assms(1)])
    then show ?thesis using ts(2) tx Nil by (intro exI [of _ "[?e]"] exI [of _ ts]) simp
  next
    case (Cons w' ws')
    then have w': "wf_word w'" "show_words ws = w' @ CHR '' '' # show_words ws'" using Cons.prems(1) by (simp_all add: show_words_def)
    have "skip ?r = ?r" using skip_word [OF w'(1)] w'(2) by simp
    moreover have "hd ?r \<notin> set ''<>''" using w' by (cases w') (auto simp: wf_word_def is_word_simps is_word_def symbols_def)
    ultimately have "parseredirs rs ?r = POk rs ?r" using parseredirs_end [of ?r rs] by simp
    moreover obtain as ts where as: "parseargs (args @ [?e]) rs ?r = POk (wrap (EXEC ((args @ [?e]) @ as)) (rs @ ts)) (skip r)"
      "map (tok_text b) as = ws" "redir_texts b ts = xs"
      using Cons.IH [of "args @ [?e]" rs] Cons.prems sr Cons by auto
    ultimately show ?thesis using step tx by (intro exI [of _ "?e # as"] exI [of _ ts]) simp
  qed
qed simp

subsection \<open>The round trip\<close>

definition exec_reads :: "string cmd \<Rightarrow> bool" where
  "exec_reads c \<longleftrightarrow> (\<forall>xs r b n. list_all wf_redir xs \<longrightarrow> follow ''|)&;'' r \<longrightarrow> suffix (show_cmd c 3 @ concat (map show_redir xs) @ r) b \<longrightarrow>
     4 * length (show_cmd c 3 @ concat (map show_redir xs) @ r) + 2 \<le> n \<longrightarrow>
     (\<exists>t. parseexec n (show_cmd c 3 @ concat (map show_redir xs) @ r) = POk t (skip r) \<and> map_cmd (tok_text b) t = wrap c xs))"

definition pipe_reads :: "string cmd \<Rightarrow> bool" where
  "pipe_reads c \<longleftrightarrow> (\<forall>r b n. follow '')&;'' r \<longrightarrow> suffix (show_cmd c 2 @ r) b \<longrightarrow> 4 * length (show_cmd c 2 @ r) + 3 \<le> n \<longrightarrow>
     (\<exists>t. parsepipe n (show_cmd c 2 @ r) = POk t (skip r) \<and> map_cmd (tok_text b) t = c))"

definition back_reads :: "string cmd \<Rightarrow> bool" where
  "back_reads c \<longleftrightarrow> (\<forall>r b n. follow '')&;'' r \<longrightarrow> suffix (show_cmd c 1 @ r) b \<longrightarrow> 4 * length (show_cmd c 1 @ r) + 3 \<le> n \<longrightarrow>
     (\<exists>t0 s t. parsepipe n (show_cmd c 1 @ r) = POk t0 s \<and> parsebacks t0 s = parsebacks t r \<and> map_cmd (tok_text b) t = c))"

definition line_reads :: "string cmd \<Rightarrow> bool" where
  "line_reads c \<longleftrightarrow> (\<forall>r b n. follow '')'' r \<longrightarrow> suffix (show_cmd c 0 @ r) b \<longrightarrow> 4 * length (show_cmd c 0 @ r) + 4 \<le> n \<longrightarrow>
     (\<exists>t. parseline n (show_cmd c 0 @ r) = POk t (skip r) \<and> map_cmd (tok_text b) t = c))"

lemma parsebacks_skip: "parsebacks c (skip s) = parsebacks c s"
  by (subst (1 2) parsebacks.simps) (simp add: peek_def Let_def)

lemma parsebacks_end: "follow '');'' r \<Longrightarrow> parsebacks c r = (c, skip r)"
  by (subst parsebacks.simps) (auto simp: follow_def peek_true peek_skip Let_def)

lemma symbol_token: "c \<in> set ''|();&'' \<Longrightarrow> skip (c # r) = c # r \<and> rest (gettoken (c # r)) = skip r"
  by (auto simp: gettoken_def skip_def is_ws_def whitespace_def Let_def)

lemma parse_skip: "parseline n (skip s) = parseline n s" "parsepipe n (skip s) = parsepipe n s" "parseexec n (skip s) = parseexec n s"
proof (induction n)
  case (Suc n)
  { case 1 show ?case using Suc.IH(2) by simp
  next case 2 show ?case using Suc.IH(3) by simp
  next case 3 show ?case by (simp add: peek_def Let_def parseredirs_skip) }
qed simp_all

lemma parsepipe_last: "parseexec n s = POk t s1 \<Longrightarrow> \<not> snd (peek s1 ''|'') \<Longrightarrow> parsepipe (Suc n) s = POk t (skip s1)"
  by (simp add: peek_skip Let_def)

lemma parsepipe_bar:
  "parseexec n s = POk t s1 \<Longrightarrow> skip s1 = CHR ''|'' # u \<Longrightarrow> parsepipe n u = POk t' s2 \<Longrightarrow> parsepipe (Suc n) s = POk (PIPE t t') s2"
  using symbol_token [of "CHR ''|''" u] gettoken_skip [of s1] by (simp add: peek_skip peek_true Let_def parse_skip)

lemma parseline_last:
  "parsepipe n s = POk t0 s1 \<Longrightarrow> parsebacks t0 s1 = (t, s2) \<Longrightarrow> \<not> snd (peek s2 '';'') \<Longrightarrow> parseline (Suc n) s = POk t (skip s2)"
  by (simp add: peek_skip Let_def)

lemma parseline_semi:
  "parsepipe n s = POk t0 s1 \<Longrightarrow> parsebacks t0 s1 = (t, s2) \<Longrightarrow> skip s2 = CHR '';'' # u \<Longrightarrow> parseline n u = POk t' s3 \<Longrightarrow>
    parseline (Suc n) s = POk (LIST t t') s3"
  using symbol_token [of "CHR '';''" u] gettoken_skip [of s2] by (simp add: peek_skip peek_true Let_def parse_skip)

lemma parseblock_parens:
  assumes "parseline n u = POk t s1" "skip s1 = CHR '')'' # v" "parseredirs [] v = POk rs s2"
  shows "parseexec (Suc (Suc n)) (CHR ''('' # u) = POk (wrap t rs) s2"
proof -
  have 1: "skip (CHR ''('' # u) = CHR ''('' # u" "rest (gettoken (CHR ''('' # u)) = skip u" using symbol_token [of "CHR ''(''" u] by simp_all
  have 2: "rest (gettoken (CHR '')'' # v)) = skip v" using symbol_token [of "CHR '')''" v] by simp
  then have "parseblock (Suc n) (CHR ''('' # u) = POk (wrap t rs) s2"
    using assms 1 by (simp add: peek_skip peek_true Let_def parse_skip parseredirs_skip)
  then show ?thesis using 1 by (simp add: peek_skip peek_true Let_def)
qed

lemma pipe_from_exec: "exec_reads c \<Longrightarrow> show_cmd c 2 = show_cmd c 3 \<Longrightarrow> pipe_reads c"
  unfolding pipe_reads_def
proof (intro allI impI)
  fix r b n
  assume e: "exec_reads c" and s: "show_cmd c 2 = show_cmd c 3" and r: "follow '')&;'' r" "suffix (show_cmd c 2 @ r) b"
    "4 * length (show_cmd c 2 @ r) + 3 \<le> n"
  then obtain n' where n: "n = Suc n'" by (cases n) auto
  have "follow ''|)&;'' r" using r(1) by (auto simp: follow_def)
  then obtain t where "parseexec n' (show_cmd c 2 @ r) = POk t (skip r)" "map_cmd (tok_text b) t = c"
    using e [unfolded exec_reads_def, rule_format, of "[]" r b n'] r(2,3) s n by (auto simp: wrap_def)
  moreover have "\<not> snd (peek (skip r) ''|'')" using r(1) by (auto simp: follow_def peek_true)
  ultimately show "\<exists>t. parsepipe n (show_cmd c 2 @ r) = POk t (skip r) \<and> map_cmd (tok_text b) t = c"
    using parsepipe_last [of n' _ t "skip r"] n by auto
qed

lemma back_from_pipe: "pipe_reads c \<Longrightarrow> show_cmd c 1 = show_cmd c 2 \<Longrightarrow> back_reads c"
  unfolding pipe_reads_def back_reads_def using parsebacks_skip by metis

lemma line_from_back: "back_reads c \<Longrightarrow> show_cmd c 0 = show_cmd c 1 \<Longrightarrow> line_reads c"
  unfolding line_reads_def
proof (intro allI impI)
  fix r b n
  assume e: "back_reads c" and s: "show_cmd c 0 = show_cmd c 1" and r: "follow '')'' r" "suffix (show_cmd c 0 @ r) b"
    "4 * length (show_cmd c 0 @ r) + 4 \<le> n"
  then obtain n' where n: "n = Suc n'" by (cases n) auto
  have f: "follow '')&;'' r" "follow '');'' r" "\<not> snd (peek (skip r) '';'')" using r(1) by (auto simp: follow_def peek_true)
  obtain t0 s1 t where t: "parsepipe n' (show_cmd c 0 @ r) = POk t0 s1" "parsebacks t0 s1 = parsebacks t r" "map_cmd (tok_text b) t = c"
    using e [unfolded back_reads_def, rule_format, of r b n'] f(1) r(2,3) s n by auto
  have "parsebacks t0 s1 = (t, skip r)" using t(2) parsebacks_end [OF f(2), of t] by simp
  then have "parseline n (show_cmd c 0 @ r) = POk t (skip r)"
    unfolding n by (rule parseline_last [OF t(1) _ f(3), unfolded skip_skip])
  then show "\<exists>t. parseline n (show_cmd c 0 @ r) = POk t (skip r) \<and> map_cmd (tok_text b) t = c" using t(3) by blast
qed

lemma exec_from_line: "line_reads c \<Longrightarrow> show_cmd c 3 = ''('' @ show_cmd c 0 @ '')'' \<Longrightarrow> exec_reads c"
  unfolding exec_reads_def
proof (intro allI impI)
  fix xs r b n
  let ?r = "CHR '')'' # concat (map show_redir xs) @ r"
  assume e: "line_reads c" and s: "show_cmd c 3 = ''('' @ show_cmd c 0 @ '')''" and xs: "list_all wf_redir xs" and r: "follow ''|)&;'' r"
    and b: "suffix (show_cmd c 3 @ concat (map show_redir xs) @ r) b"
    and n: "4 * length (show_cmd c 3 @ concat (map show_redir xs) @ r) + 2 \<le> n"
  have eq: "show_cmd c 3 @ concat (map show_redir xs) @ r = CHR ''('' # show_cmd c 0 @ ?r" using s by simp
  obtain n' where n': "n = Suc (Suc n')" using n by (cases n; cases "n - 1") auto
  have sb: "suffix (show_cmd c 0 @ ?r) b" using b unfolding eq by (rule suffix_ConsD)
  then have sb': "suffix (concat (map show_redir xs) @ r) b" using suffix_appendD suffix_ConsD by metis
  have f: "follow '')'' ?r" "skip (skip ?r) = ?r" by (simp_all add: follow_def skip_def is_ws_def whitespace_def)
  obtain t where t: "parseline n' (show_cmd c 0 @ ?r) = POk t (skip ?r)" "map_cmd (tok_text b) t = c"
    using e [unfolded line_reads_def, rule_format, OF f(1) sb, of n'] n n' s by auto
  have nr: "skip r = [] \<or> hd (skip r) \<notin> set ''<>''" using r by (auto simp: follow_def)
  obtain ts where ts: "parseredirs [] (concat (map show_redir xs) @ r) = POk ([] @ ts) (skip r)" "redir_texts b ts = xs"
    using parseredirs_show [OF nr xs sb', of "[]"] by blast
  have "parseexec n (show_cmd c 3 @ concat (map show_redir xs) @ r) = POk (wrap t ts) (skip r)"
    unfolding eq n' using parseblock_parens [OF t(1) f(2) ts(1)] by simp
  moreover have "map_cmd (tok_text b) (wrap t ts) = wrap c xs" using t(2) ts(2) by (simp add: map_wrap)
  ultimately show "\<exists>t. parseexec n (show_cmd c 3 @ concat (map show_redir xs) @ r) = POk t (skip r) \<and> map_cmd (tok_text b) t = wrap c xs"
    by blast
qed

lemma show_redirs_hd: "list_all wf_redir xs \<Longrightarrow> follow ''|)&;'' r \<Longrightarrow> \<not> snd (peek (concat (map show_redir xs) @ r) ''('')"
proof (cases xs)
  case (Cons x xs')
  then show ?thesis by (cases x) (auto simp: peek_true skip_def is_ws_def whitespace_def show_redir_def)
qed (auto simp: follow_def peek_true)

lemma parseexec_words:
  "\<not> snd (peek s ''('') \<Longrightarrow> parseredirs [] s = POk rs s1 \<Longrightarrow> parseargs [] rs s1 = POk t s2 \<Longrightarrow> parseexec (Suc n) s = POk t s2"
  by (simp add: peek_skip Let_def parseredirs_skip)

lemma exec_words: "wf_cmd (EXEC ws) \<Longrightarrow> exec_reads (EXEC ws)"
  unfolding exec_reads_def
proof (intro allI impI)
  fix xs r b n
  let ?s = "show_cmd (EXEC ws) 3 @ concat (map show_redir xs) @ r"
  assume w: "wf_cmd (EXEC ws)" and xs: "list_all wf_redir xs" and r: "follow ''|)&;'' r" and b: "suffix ?s b" and n: "4 * length ?s + 2 \<le> n"
  obtain n' where n': "n = Suc n'" using n by (cases n) auto
  have "\<exists>t. parseexec (Suc n') ?s = POk t (skip r) \<and> map_cmd (tok_text b) t = wrap (EXEC ws) xs"
  proof (cases ws)
    case Nil
    then have s: "?s = concat (map show_redir xs) @ r" by (simp add: show_words_def)
    have nr: "skip r = [] \<or> hd (skip r) \<notin> set ''<>''" using r by (auto simp: follow_def)
    obtain ts where ts: "parseredirs [] ?s = POk ([] @ ts) (skip r)" "redir_texts b ts = xs"
      using parseredirs_show [OF nr xs, of b "[]"] b unfolding s by blast
    have "parseexec (Suc n') ?s = POk (wrap (EXEC []) ts) (skip r)"
      by (rule parseexec_words [OF _ ts(1)]) (use show_redirs_hd [OF xs r] s parseargs_end [OF r] in \<open>simp_all add: parseargs_skip\<close>)
    then show ?thesis using ts(2) Nil by (auto simp: map_wrap)
  next
    case (Cons v vs)
    have v: "wf_word v" "list_all wf_word ws" "0 + length ws < MAXARGS" using w Cons by simp_all
    obtain c u where c: "v = c # u" "is_word c" using v(1) by (cases v) (auto simp: wf_word_def)
    have hd: "hd ?s = c" "?s \<noteq> []" "skip ?s = ?s" using skip_word [OF v(1)] Cons c by (simp_all add: show_words_def)
    then have np: "\<not> snd (peek ?s ''('')" "parseredirs [] ?s = POk [] ?s"
      using c(2) parseredirs_end [of ?s "[]"] unfolding peek_true by (auto simp: is_word_def symbols_def)
    obtain as ts where as: "parseargs [] [] ?s = POk (wrap (EXEC ([] @ as)) ([] @ ts)) (skip r)" "map (tok_text b) as = ws" "redir_texts b ts = xs"
      using parseargs_show [OF r xs, of ws "[]" b "[]"] v b Cons by auto
    have "parseexec (Suc n') ?s = POk (wrap (EXEC as) ts) (skip r)" using parseexec_words [OF np as(1)] by simp
    then show ?thesis using as(2,3) by (auto simp: map_wrap)
  qed
  then show "\<exists>t. parseexec n ?s = POk t (skip r) \<and> map_cmd (tok_text b) t = wrap (EXEC ws) xs" unfolding n' .
qed

lemma exec_redir: "exec_reads c \<Longrightarrow> wf_redir (f, m, fd) \<Longrightarrow> exec_reads (REDIR c f m fd)"
  unfolding exec_reads_def
proof (intro allI impI)
  fix xs r b n
  let ?s = "show_cmd (REDIR c f m fd) 3 @ concat (map show_redir xs) @ r"
  assume e: "\<forall>xs r b n. list_all wf_redir xs \<longrightarrow> follow ''|)&;'' r \<longrightarrow> suffix (show_cmd c 3 @ concat (map show_redir xs) @ r) b \<longrightarrow>
     4 * length (show_cmd c 3 @ concat (map show_redir xs) @ r) + 2 \<le> n \<longrightarrow>
     (\<exists>t. parseexec n (show_cmd c 3 @ concat (map show_redir xs) @ r) = POk t (skip r) \<and> map_cmd (tok_text b) t = wrap c xs)"
    and w: "wf_redir (f, m, fd)" "list_all wf_redir xs" "follow ''|)&;'' r" "suffix ?s b" "4 * length ?s + 2 \<le> n"
  have "?s = show_cmd c 3 @ concat (map show_redir ((f, m, fd) # xs)) @ r" by simp
  moreover have "wrap (REDIR c f m fd) xs = wrap c ((f, m, fd) # xs)" by (simp add: wrap_def)
  ultimately show "\<exists>t. parseexec n ?s = POk t (skip r) \<and> map_cmd (tok_text b) t = wrap (REDIR c f m fd) xs"
    using e [rule_format, of "(f, m, fd) # xs" r b n] w by (metis list.pred_inject(2))
qed

lemma pipe_bar: "exec_reads l \<Longrightarrow> pipe_reads r \<Longrightarrow> pipe_reads (PIPE l r)"
  unfolding pipe_reads_def
proof (intro allI impI)
  fix u b n
  let ?u = "CHR ''|'' # show_cmd r 2 @ u"
  assume l: "exec_reads l" and r: "\<forall>u b n. follow '')&;'' u \<longrightarrow> suffix (show_cmd r 2 @ u) b \<longrightarrow> 4 * length (show_cmd r 2 @ u) + 3 \<le> n \<longrightarrow>
     (\<exists>t. parsepipe n (show_cmd r 2 @ u) = POk t (skip u) \<and> map_cmd (tok_text b) t = r)"
    and u: "follow '')&;'' u" "suffix (show_cmd (PIPE l r) 2 @ u) b" "4 * length (show_cmd (PIPE l r) 2 @ u) + 3 \<le> n"
  obtain n' where n: "n = Suc n'" using u(3) by (cases n) auto
  have s: "show_cmd (PIPE l r) 2 @ u = show_cmd l 3 @ concat (map show_redir []) @ ?u" by (simp add: paren_def)
  have f: "follow ''|)&;'' ?u" "skip (skip ?u) = ?u" by (simp_all add: follow_def skip_def is_ws_def whitespace_def)
  obtain t where t: "parseexec n' (show_cmd l 3 @ concat (map show_redir []) @ ?u) = POk t (skip ?u)" "map_cmd (tok_text b) t = l"
    using l [unfolded exec_reads_def, rule_format, OF _ f(1), of "[]" b n'] u(2,3) n by (auto simp: paren_def wrap_def)
  have "suffix (show_cmd r 2 @ u) b" using u(2) unfolding s using suffix_appendD suffix_ConsD by metis
  then obtain t' where t': "parsepipe n' (show_cmd r 2 @ u) = POk t' (skip u)" "map_cmd (tok_text b) t' = r"
    using r [rule_format, OF u(1), of b n'] u(3) n by (auto simp: paren_def)
  have "parsepipe n (show_cmd (PIPE l r) 2 @ u) = POk (PIPE t t') (skip u)"
    unfolding s n by (rule parsepipe_bar [OF t(1) f(2) t'(1)])
  then show "\<exists>t. parsepipe n (show_cmd (PIPE l r) 2 @ u) = POk t (skip u) \<and> map_cmd (tok_text b) t = PIPE l r" using t(2) t'(2) by auto
qed

lemma line_semi: "back_reads l \<Longrightarrow> line_reads r \<Longrightarrow> line_reads (LIST l r)"
  unfolding line_reads_def
proof (intro allI impI)
  fix u b n
  let ?u = "CHR '';'' # show_cmd r 0 @ u"
  assume l: "back_reads l" and r: "\<forall>u b n. follow '')'' u \<longrightarrow> suffix (show_cmd r 0 @ u) b \<longrightarrow> 4 * length (show_cmd r 0 @ u) + 4 \<le> n \<longrightarrow>
     (\<exists>t. parseline n (show_cmd r 0 @ u) = POk t (skip u) \<and> map_cmd (tok_text b) t = r)"
    and u: "follow '')'' u" "suffix (show_cmd (LIST l r) 0 @ u) b" "4 * length (show_cmd (LIST l r) 0 @ u) + 4 \<le> n"
  obtain n' where n: "n = Suc n'" using u(3) by (cases n) auto
  have s: "show_cmd (LIST l r) 0 @ u = show_cmd l 1 @ ?u" by (simp add: paren_def)
  have f: "follow '')&;'' ?u" "follow '');'' ?u" "skip (skip ?u) = ?u" by (simp_all add: follow_def skip_def is_ws_def whitespace_def)
  obtain t0 s1 t where t: "parsepipe n' (show_cmd l 1 @ ?u) = POk t0 s1" "parsebacks t0 s1 = parsebacks t ?u" "map_cmd (tok_text b) t = l"
    using l [unfolded back_reads_def, rule_format, OF f(1), of b n'] u(2,3) n by (auto simp: paren_def)
  have "suffix (show_cmd r 0 @ u) b" using u(2) unfolding s using suffix_appendD suffix_ConsD by metis
  then obtain t' where t': "parseline n' (show_cmd r 0 @ u) = POk t' (skip u)" "map_cmd (tok_text b) t' = r"
    using r [rule_format, OF u(1), of b n'] u(3) n by (auto simp: paren_def)
  have p: "parsebacks t0 s1 = (t, skip ?u)" using t(2) parsebacks_end [OF f(2), of t] by simp
  have "parseline n (show_cmd (LIST l r) 0 @ u) = POk (LIST t t') (skip u)"
    unfolding s n by (rule parseline_semi [OF t(1) p f(3) t'(1)])
  then show "\<exists>t. parseline n (show_cmd (LIST l r) 0 @ u) = POk t (skip u) \<and> map_cmd (tok_text b) t = LIST l r" using t(3) t'(2) by auto
qed

lemma back_amp: "back_reads c \<Longrightarrow> back_reads (BACK c)"
  unfolding back_reads_def [of "BACK c"]
proof (intro allI impI)
  fix u b n
  let ?u = "CHR ''&'' # u"
  assume l: "back_reads c" and u: "follow '')&;'' u" "suffix (show_cmd (BACK c) 1 @ u) b" "4 * length (show_cmd (BACK c) 1 @ u) + 3 \<le> n"
  have s: "show_cmd (BACK c) 1 @ u = show_cmd c 1 @ ?u" by (simp add: paren_def)
  have k: "skip ?u = ?u" "rest (gettoken ?u) = skip u" using symbol_token [of "CHR ''&''" u] by simp_all
  then have f: "follow '')&;'' ?u" by (simp add: follow_def)
  obtain t0 s1 t where t: "parsepipe n (show_cmd c 1 @ ?u) = POk t0 s1" "parsebacks t0 s1 = parsebacks t ?u" "map_cmd (tok_text b) t = c"
    using l [unfolded back_reads_def, rule_format, OF f, of b n] u(2,3) by (auto simp: paren_def)
  have "parsebacks t ?u = parsebacks (BACK t) u"
    by (subst parsebacks.simps) (simp add: peek_true peek_skip Let_def k parsebacks_skip)
  then show "\<exists>t0 s t. parsepipe n (show_cmd (BACK c) 1 @ u) = POk t0 s \<and> parsebacks t0 s = parsebacks t u \<and> map_cmd (tok_text b) t = BACK c"
    unfolding s using t by (intro exI [of _ t0] exI [of _ s1] exI [of _ "BACK t"]) simp
qed

lemma reads_all: "wf_cmd c \<Longrightarrow> exec_reads c \<and> pipe_reads c \<and> back_reads c \<and> line_reads c"
proof (induction c)
  case (EXEC ws)
  then show ?case using exec_words pipe_from_exec back_from_pipe line_from_back by simp
next
  case (REDIR c f m fd)
  then have "exec_reads (REDIR c f m fd)" using exec_redir by simp
  then show ?case using pipe_from_exec back_from_pipe line_from_back by simp
next
  case (PIPE l r)
  then have p: "pipe_reads (PIPE l r)" using pipe_bar by simp
  then have "back_reads (PIPE l r)" by (rule back_from_pipe) (simp add: paren_def)
  moreover from this have "line_reads (PIPE l r)" by (rule line_from_back) (simp add: paren_def)
  moreover from this have "exec_reads (PIPE l r)" by (rule exec_from_line) (simp add: paren_def)
  ultimately show ?case using p by blast
next
  case (LIST l r)
  then have p: "line_reads (LIST l r)" using line_semi by simp
  then have "exec_reads (LIST l r)" by (rule exec_from_line) (simp add: paren_def)
  moreover from this have "pipe_reads (LIST l r)" by (rule pipe_from_exec) (simp add: paren_def)
  moreover from this have "back_reads (LIST l r)" by (rule back_from_pipe) (simp add: paren_def)
  ultimately show ?case using p by blast
next
  case (BACK c)
  then have p: "back_reads (BACK c)" using back_amp by simp
  then have "line_reads (BACK c)" by (rule line_from_back) (simp add: paren_def)
  moreover from this have "exec_reads (BACK c)" by (rule exec_from_line) (simp add: paren_def)
  moreover from this have "pipe_reads (BACK c)" by (rule pipe_from_exec) (simp add: paren_def)
  ultimately show ?case using p by blast
qed

lemma show_no_nul: "wf_cmd c \<Longrightarrow> CHR 0x00 \<notin> set (show_cmd c l)"
  by (induction c arbitrary: l)
    (auto simp: show_words_def show_redir_def paren_def wf_redir_def wf_word_def list_all_iff split: if_splits)

subsection \<open>Properties\<close>

text \<open>
  C29: On every line the parser comes to an end, with a command or a syntax error: its calls never go
  deeper than four times the length of the line.
\<close>

theorem parsecmd_terminates: "(\<exists>c. parsecmd s = POk c []) \<or> (\<exists>e. parsecmd s = PErr e)"
  using parse_no_fuel(1) [of s "4 * length s + 4"] by (auto simp: parsecmd_def Let_def split: presult.splits)

text \<open>
  C28: A command that is written out, with parentheses where a list, a background command or a pipeline
  stands inside another, is read back: after parsing and storing the terminators the pointers of the
  tree lead to the words and files of the command, and its shape, modes and descriptors are those of
  the command.
\<close>

theorem parsecmd_show:
  assumes "wf_cmd c"
  shows "parsecmd (show_cmd c 0) = POk c []"
proof -
  let ?s = "show_cmd c 0"
  have f: "follow '')'' []" by (simp add: follow_def skip_def)
  have "line_reads c" using reads_all [OF assms] by blast
  from this [unfolded line_reads_def, rule_format, OF f, of ?s "4 * length ?s + 4"] obtain t where
    t: "parseline (4 * length ?s + 4) ?s = POk t []" "map_cmd (tok_text ?s) t = c" by (auto simp: skip_def)
  then show ?thesis using parsecmd_text [OF show_no_nul [OF assms] t(1)] by (simp add: skip_def)
qed

theorem parsecmd_show_witness:
  "parsecmd ''(ls |wc ;echo a b )>out &'' = POk (BACK (REDIR (LIST (PIPE (EXEC [''ls'']) (EXEC [''wc''])) (EXEC [''echo'', ''a'', ''b'']))
     ''out'' (O_WRONLY OR O_CREATE OR O_TRUNC) 1)) []"
proof -
  let ?c = "BACK (REDIR (LIST (PIPE (EXEC [''ls'']) (EXEC [''wc''])) (EXEC [''echo'', ''a'', ''b''])) ''out'' (O_WRONLY OR O_CREATE OR O_TRUNC) 1)"
  have "wf_cmd ?c" by (simp add: wf_redir_def wf_word_def is_word_def whitespace_def symbols_def)
  moreover have "show_cmd ?c 0 = ''(ls |wc ;echo a b )>out &''"
    by (simp add: show_words_def show_redir_def paren_def O_RDONLY_def O_WRONLY_def O_CREATE_def O_TRUNC_def)
  ultimately show ?thesis using parsecmd_show [of ?c] by simp
qed

end
