(* ===== verification/Spec2Isabelle.thy ===== *)
theory Spec2Isabelle
  imports Spinlock Dir_Props Sched Virtio_Props Pipe_Fifo Console_Props Trap Start Grep Wc Echo Progs Ls Shell_Props
begin

text \<open>
  A verification library for the xv6 kernel for RISC-V, with this repository's additions (the
  \<^verbatim>\<open>ps\<close> system call and its option parser).  The theories are a shallow embedding of the C code
  under \<^verbatim>\<open>src/kernel\<close>; names are the names of the source.

  \<^bold>\<open>How code is modelled.\<close>  A kernel routine is a function from the kernel state to an outcome
  (theory \<open>Prelude\<close>): \<open>Ok\<close> with a result and a new state, \<open>Panic\<close> with the message of the \<^verbatim>\<open>panic\<close>
  reached, or \<open>Blocked\<close> with the channel the process sleeps on.  Each \<^verbatim>\<open>panic\<close>, error return and
  \<^verbatim>\<open>goto bad\<close> is a branch.  A dereferenced null pointer is the panic of \<^verbatim>\<open>kerneltrap\<close>; an access outside
  an array is \<open>undefined_behaviour\<close>.  Machine integers are words of their width where wrap-around or
  encoding matters.  The state is a chain of records, one extension per component:
  \<open>kmem\<close> (memory and free pages), \<open>kproc\<close> (processes), \<open>kbio\<close> (buffers and disk), \<open>klog\<close>, \<open>kfs\<close> (superblock
  and inodes), \<open>kpipe\<close>, \<open>kcons\<close> (console and UART), \<open>kfile\<close> (open files), \<open>ksys\<close> (ticks) and \<open>ktrap\<close>
  (control registers).  A routine is polymorphic in the extensions it does not touch.

  \<^bold>\<open>Concurrency.\<close>  Spin locks are modelled on all processors in \<open>Spinlock\<close>, which shows that sections
  they protect do not overlap and have the effect of some serial order.  The other theories rely on
  this and run a routine up to the point where it sleeps; the acquire and release of the spin
  locks that protect a routine are therefore left out of it.  A routine that sleeps after
  partial work has a form that can be continued (\<open>pipewrite_from\<close>, \<open>sys_sleep_from\<close>).

  \<^bold>\<open>Theories.\<close>
  \<^item> \<open>Prelude\<close>: integers, outcomes, \<open>kspec\<close> (a routine returns and its result satisfies a
    predicate), byte ranges, little-endian encodings, memory.
  \<^item> \<open>Riscv\<close>: \<^verbatim>\<open>riscv.h\<close>, \<^verbatim>\<open>memlayout.h\<close>; page-table entry encodings invert, kernel stacks are disjoint.
  \<^item> \<open>Kstring\<close>: \<^verbatim>\<open>string.c\<close> against block copies and string equality.
  \<^item> \<open>Kalloc\<close>: \<^verbatim>\<open>kalloc.c\<close>; the free list inside the free pages, allocation, release and boot.
  \<^item> \<open>Spinlock\<close>: \<^verbatim>\<open>spinlock.c\<close>; interrupt nesting, mutual exclusion, serialisation.
  \<^item> \<open>Vm\<close>: \<^verbatim>\<open>vm.c\<close>; copies with arbitrary user addresses return.
  \<^item> \<open>Proc\<close>, \<open>Proclife\<close>: \<^verbatim>\<open>proc.c\<close>, split at the calls into the file system.
  \<^item> \<open>Sleeplock\<close>: \<^verbatim>\<open>sleeplock.c\<close> for a lock at any place in the state (locale \<open>sleeplock_field\<close>).
  \<^item> \<open>Bio\<close>, \<open>Bcache\<close>: \<^verbatim>\<open>bio.c\<close>; the linked list, and the refinement of a cache with reference counts,
    locks and contents per block (locale \<open>buffer_cache\<close>, interpreted on the code's operations).
  \<^item> \<open>Log\<close>, \<open>Log_Crash\<close>: \<^verbatim>\<open>log.c\<close>; a commit is atomic under a crash at any disk write.
  \<^item> \<open>Fs\<close>, \<open>Dir\<close>: \<^verbatim>\<open>fs.c\<close>, below and above the directory layer.
  \<^item> \<open>Ring\<close>: free-running ring indices (locale \<open>ring\<close>, interpreted for pipe, console and UART).
  \<^item> \<open>Pipe\<close>, \<open>Pipe_Fifo\<close>: \<^verbatim>\<open>pipe.c\<close>; a pipe is a bounded queue in every interleaving.
  \<^item> \<open>Console\<close>, \<open>Console_Props\<close>: \<^verbatim>\<open>console.c\<close>, \<^verbatim>\<open>uart.c\<close>; a line editor and an output queue.
  \<^item> \<open>Printf\<close>, \<open>Ps\<close>: \<^verbatim>\<open>printf.c\<close> and the process listings of \<^verbatim>\<open>proc.c\<close>.
  \<^item> \<open>File\<close>, \<open>Exec\<close>, \<open>Sysfile\<close>, \<open>Syscall\<close>, \<open>Trap\<close>: \<^verbatim>\<open>file.c\<close>, \<^verbatim>\<open>exec.c\<close>, \<^verbatim>\<open>sysfile.c\<close>, \<^verbatim>\<open>sysproc.c\<close>,
    \<^verbatim>\<open>syscall.c\<close>, \<^verbatim>\<open>trap.c\<close>.

  \<^bold>\<open>Loops and fuel.\<close>  Loops are structural recursions over what bounds them: the bytes left in
  \<open>readi_loop\<close>, \<open>writei_loop\<close>, \<open>copyin_loop\<close> and \<open>copyout_loop\<close> (every round moves at least one), the pages of a
  range in \<open>mappages_loop\<close> and the loops of \<^verbatim>\<open>uvmalloc\<close>, \<^verbatim>\<open>uvmcopy\<close>, \<^verbatim>\<open>uvmunmap\<close>, the depth of the page-table tree in
  \<open>freewalk\<close>, the elements of a path in \<open>namex_loop\<close> (at most its length), the characters waiting in
  \<open>uartstart_loop\<close> and \<open>uartintr_loop\<close>.

  \<^bold>\<open>Not modelled.\<close>  Assembly (entry, context switch, trap vectors), processor start-up, the interrupt
  controller and the virtio device: these are hardware protocols; a disk request completes
  within \<open>disk_rw\<close>.  The scheduler loop and \<^verbatim>\<open>swtch\<close> appear only as the process states they set.  The
  user programs and \<^verbatim>\<open>mkfs\<close> are not part of the kernel's state.
\<close>

end
